(* ===== verification/Prelude.thy ===== *)
theory Prelude
  imports Main "HOL-Library.Word"
begin

text \<open>
  What every component of the model shares: the machine types, the outcome of a C operation
  (a value or the fault that stops the program), indeterminate memory, checked array and
  pointer accesses, and the generic lemmas on lists and words that several components use.
\<close>

section \<open>Machine types\<close>

type_synonym ul64 = "64 word"   \<comment> \<open>\<open>unsigned long\<close> and \<open>size_t\<close>\<close>
type_synonym u32 = "32 word"    \<comment> \<open>\<open>unsigned int\<close>\<close>
type_synonym fpos = nat         \<comment> \<open>an offset returned by \<open>ftell\<close>\<close>

named_theorems c_defs \<open>the combinators of the outcome type\<close>

section \<open>Outcomes\<close>

text \<open>
  An operation either returns a value (with the new state, where it changes state) or stops
  the program: a failed \<open>assert\<close> of the debug build, an \<open>exit(EXIT_FAILURE)\<close>, or an access
  or a computation for which C defines no behaviour.
\<close>

datatype fault =
    AssertFail string
  | ExitFailure string
  | NullDeref
  | OutOfBounds
  | Indeterminate
  | UseAfterFree
  | ListCorrupt
  | DivByZero
  | SignedOverflow

type_synonym 'a res = "fault + 'a"

definition bnd :: "'a res \<Rightarrow> ('a \<Rightarrow> 'b res) \<Rightarrow> 'b res" where
  "bnd m f = (case m of Inl e \<Rightarrow> Inl e | Inr x \<Rightarrow> f x)"

definition c_assert :: "string \<Rightarrow> bool \<Rightarrow> unit res" where
  "c_assert msg b = (if b then Inr () else Inl (AssertFail msg))"

lemma bnd_Inr [simp]: "bnd (Inr x) f = f x"
  by (simp add: bnd_def)

lemma bnd_Inl [simp]: "bnd (Inl e) f = Inl e"
  by (simp add: bnd_def)

lemma bnd_eq_Inr: "bnd m f = Inr y \<longleftrightarrow> (\<exists>x. m = Inr x \<and> f x = Inr y)"
  by (cases m) auto

lemma bnd_eq_Inl: "bnd m f = Inl e \<longleftrightarrow> m = Inl e \<or> (\<exists>x. m = Inr x \<and> f x = Inl e)"
  by (cases m) auto

lemma bnd_assoc: "bnd (bnd m f) g = bnd m (\<lambda>x. bnd (f x) g)"
  by (cases m) auto

lemma bnd_cong [fundef_cong]:
  "m = m' \<Longrightarrow> (\<And>x. m' = Inr x \<Longrightarrow> f x = g x) \<Longrightarrow> bnd m f = bnd m' g"
  by (cases m') auto

lemma c_assert_True [simp]: "c_assert msg True = Inr ()"
  by (simp add: c_assert_def)

lemma c_assert_False [simp]: "c_assert msg False = Inl (AssertFail msg)"
  by (simp add: c_assert_def)

lemma c_assert_eq_Inr [simp]: "c_assert msg b = Inr u \<longleftrightarrow> b"
  by (simp add: c_assert_def)

section \<open>Indeterminate memory\<close>

text \<open>
  \<open>malloc\<close> returns memory whose contents are indeterminate. A field that is allocated and not
  yet written is \<open>Indet\<close>; reading it is the fault \<open>Indeterminate\<close>.
\<close>

datatype 'a cval = Indet | Val 'a

definition rd :: "'a cval \<Rightarrow> 'a res" where
  "rd c = (case c of Indet \<Rightarrow> Inl Indeterminate | Val x \<Rightarrow> Inr x)"

lemma rd_Val [simp]: "rd (Val x) = Inr x"
  by (simp add: rd_def)

lemma rd_Indet [simp]: "rd Indet = Inl Indeterminate"
  by (simp add: rd_def)

lemma rd_eq_Inr [simp]: "rd c = Inr x \<longleftrightarrow> c = Val x"
  by (cases c) auto

text \<open>
  The two fields that the code does read before writing them depend on the allocator: with
  \<open>z\<close> the allocator happened to return zeroed memory.
\<close>

definition malloc_val :: "bool \<Rightarrow> 'a \<Rightarrow> 'a cval" where
  "malloc_val z zero = (if z then Val zero else Indet)"

lemma malloc_val_simps [simp]:
  "malloc_val True zero = Val zero" "malloc_val False zero = Indet"
  by (simp_all add: malloc_val_def)

section \<open>Arrays and pointers\<close>

definition arr_get :: "'a list \<Rightarrow> nat \<Rightarrow> 'a res" where
  "arr_get xs i = (if i < length xs then Inr (xs ! i) else Inl OutOfBounds)"

definition arr_set :: "'a list \<Rightarrow> nat \<Rightarrow> 'a \<Rightarrow> 'a list res" where
  "arr_set xs i x = (if i < length xs then Inr (xs[i := x]) else Inl OutOfBounds)"

definition nonnull :: "'a option \<Rightarrow> 'a res" where
  "nonnull p = (case p of None \<Rightarrow> Inl NullDeref | Some a \<Rightarrow> Inr a)"

definition deref :: "('k \<Rightarrow> 'v option) \<Rightarrow> 'k \<Rightarrow> 'v res" where
  "deref h a = (case h a of None \<Rightarrow> Inl UseAfterFree | Some v \<Rightarrow> Inr v)"

lemma arr_get_ok [simp]: "i < length xs \<Longrightarrow> arr_get xs i = Inr (xs ! i)"
  by (simp add: arr_get_def)

lemma arr_set_ok [simp]: "i < length xs \<Longrightarrow> arr_set xs i x = Inr (xs[i := x])"
  by (simp add: arr_set_def)

lemma arr_get_oob [simp]: "length xs \<le> i \<Longrightarrow> arr_get xs i = Inl OutOfBounds"
  by (simp add: arr_get_def)

lemma arr_set_oob [simp]: "length xs \<le> i \<Longrightarrow> arr_set xs i x = Inl OutOfBounds"
  by (simp add: arr_set_def)

lemma nonnull_Some [simp]: "nonnull (Some a) = Inr a"
  by (simp add: nonnull_def)

lemma nonnull_None [simp]: "nonnull None = Inl NullDeref"
  by (simp add: nonnull_def)

lemma nonnull_eq_Inr [simp]: "nonnull p = Inr a \<longleftrightarrow> p = Some a"
  by (cases p) auto

lemma deref_Some [simp]: "h a = Some v \<Longrightarrow> deref h a = Inr v"
  by (simp add: deref_def)

lemma deref_None [simp]: "h a = None \<Longrightarrow> deref h a = Inl UseAfterFree"
  by (simp add: deref_def)

lemma deref_eq_Inr: "deref h a = Inr v \<longleftrightarrow> h a = Some v"
  by (simp add: deref_def split: option.splits)

section \<open>Tail queues\<close>

text \<open>
  The queues of \<open>sys/queue.h\<close> are lists of element addresses, head first.
  \<open>TAILQ_REMOVE\<close> relinks the neighbours of an element that must be on the queue.
\<close>

definition tailq_remove :: "'a \<Rightarrow> 'a list \<Rightarrow> 'a list res" where
  "tailq_remove a q = (if a \<in> set q then Inr (remove1 a q) else Inl ListCorrupt)"

definition tailq_first :: "'a list \<Rightarrow> 'a option" where
  "tailq_first q = (case q of [] \<Rightarrow> None | a # _ \<Rightarrow> Some a)"

lemma tailq_remove_ok [simp]: "a \<in> set q \<Longrightarrow> tailq_remove a q = Inr (remove1 a q)"
  by (simp add: tailq_remove_def)

lemma tailq_first_simps [simp]: "tailq_first [] = None" "tailq_first (a # q) = Some a"
  by (simp_all add: tailq_first_def)

lemma tailq_first_eq_Some: "tailq_first q = Some a \<longleftrightarrow> (\<exists>q'. q = a # q')"
  by (cases q) auto

section \<open>Words\<close>

lemma unat_plus_one_less: "x < (y :: 'a::len word) \<Longrightarrow> unat (x + 1) = Suc (unat x)"
proof -
  assume "x < y"
  then have "Suc (unat x) \<le> unat y" by (simp add: word_less_nat_alt)
  also have "unat y < 2 ^ LENGTH('a)" by (rule unsigned_less)
  finally have "Suc (unat x) < 2 ^ LENGTH('a)" .
  then show ?thesis by (simp add: unat_word_ariths)
qed

lemma unat_minus_one_pos: "0 < (x :: 'a::len word) \<Longrightarrow> unat (x - 1) = unat x - 1"
  by (simp add: unat_minus_one word_gt_0)

lemma unat_of_nat_64: "n < 2 ^ 64 \<Longrightarrow> unat (of_nat n :: 64 word) = n"
  by (simp add: unat_of_nat)

lemmas c_splits = sum.splits option.splits cval.splits if_splits prod.splits

end
