(* ===== verification/FreeList.thy ===== *)
theory FreeList
  imports Prelude
begin

unbundle bit_operations_syntax

text \<open>
  The free list of \<open>memory.c\<close>: a bit vector in 32-bit chunks, frame \<open>n\<close> at bit \<open>n % 32\<close>,
  counted from the most significant end, of chunk \<open>n / 32\<close>; the bit is set while the frame
  is taken. The bit-level expressions of the code are related to the set of taken frames.
\<close>

section \<open>Bit vector helpers\<close>

definition bv_ind :: "ul64 \<Rightarrow> ul64" where
  "bv_ind n = n div 32"

definition bv_ofs :: "ul64 \<Rightarrow> u32" where
  "bv_ofs n = ucast (n mod 32)"

text \<open>\<open>__builtin_clz\<close> on a non-zero \<open>unsigned int\<close>: the number of leading zero bits.\<close>

definition builtin_clz :: "u32 \<Rightarrow> nat" where
  "builtin_clz w = length (takeWhile (\<lambda>i. \<not> bit w (31 - i)) [0..<32])"

definition bv_ffz :: "u32 \<Rightarrow> int" where
  "bv_ffz n = (if NOT n = 0 then -1 else int (builtin_clz (NOT n)))"

text \<open>The three expressions that test, clear and set the bit of a frame in its chunk.\<close>

definition fl_test :: "u32 \<Rightarrow> u32 \<Rightarrow> bool" where
  "fl_test chunk ofs \<longleftrightarrow> (push_bit (unat ofs) chunk) AND 2147483648 = 2147483648"

definition fl_flip :: "u32 \<Rightarrow> u32 \<Rightarrow> u32" where
  "fl_flip chunk ofs = chunk XOR (drop_bit (unat ofs) 2147483648)"

definition fl_set :: "u32 \<Rightarrow> u32 \<Rightarrow> u32" where
  "fl_set chunk ofs = chunk OR (drop_bit (unat ofs) 2147483648)"

section \<open>What they do\<close>

lemma msb_index [simp]: "31 - k < (32 :: nat)"
  by simp

lemma unat_bv_ind [simp]: "unat (bv_ind n) = unat n div 32"
  by (simp add: bv_ind_def unat_div)

lemma unat_bv_ofs [simp]: "unat (bv_ofs n) = unat n mod 32"
proof -
  have "unat (n mod 32) = unat n mod 32" by (simp add: unat_mod)
  moreover have "unat n mod 32 < 2 ^ 32" by (rule less_le_trans [of _ 32]) simp_all
  ultimately show ?thesis by (simp add: bv_ofs_def unsigned_ucast_eq take_bit_nat_eq_self)
qed

lemma top_bit: "(2147483648 :: u32) = push_bit 31 1"
  by simp

lemma bit_frame_mask:
  assumes "k < 32"
  shows "bit (drop_bit k (2147483648 :: u32)) n \<longleftrightarrow> n = 31 - k"
  using assms by (auto simp: top_bit bit_drop_bit_eq bit_push_bit_iff bit_1_iff simp del: push_bit_of_1)

lemma bit_fl_set:
  "unat ofs < 32 \<Longrightarrow> bit (fl_set c ofs) n \<longleftrightarrow> bit c n \<or> n = 31 - unat ofs"
  by (auto simp: fl_set_def bit_or_iff bit_frame_mask)

lemma bit_fl_flip:
  "unat ofs < 32 \<Longrightarrow> bit (fl_flip c ofs) n \<longleftrightarrow> (bit c n \<noteq> (n = 31 - unat ofs))"
  by (auto simp: fl_flip_def bit_xor_iff bit_frame_mask)

lemma fl_test_iff:
  assumes "unat ofs < 32"
  shows "fl_test c ofs \<longleftrightarrow> bit c (31 - unat ofs)"
proof -
  let ?p = "push_bit (unat ofs) c"
  have "?p AND 2147483648 = 2147483648 \<longleftrightarrow> bit ?p 31"
  proof
    assume "?p AND 2147483648 = 2147483648"
    then have "bit (?p AND 2147483648) 31" by (simp add: top_bit bit_push_bit_iff bit_1_iff del: push_bit_of_1)
    then show "bit ?p 31" by (simp add: bit_and_iff)
  next
    assume *: "bit ?p 31"
    show "?p AND 2147483648 = 2147483648"
    proof (rule bit_eqI)
      fix n
      show "bit (?p AND 2147483648) n \<longleftrightarrow> bit (2147483648 :: u32) n"
        using * by (cases "n = 31") (auto simp: top_bit bit_and_iff bit_push_bit_iff bit_1_iff simp del: push_bit_of_1)
    qed
  qed
  also have "\<dots> \<longleftrightarrow> bit c (31 - unat ofs)"
    using assms by (simp add: bit_push_bit_iff)
  finally show ?thesis by (simp add: fl_test_def)
qed

text \<open>\<open>bv_ffz\<close> finds the first zero bit, counted from the most significant end.\<close>

lemma NOT_eq_0_iff: "NOT (c :: u32) = 0 \<longleftrightarrow> (\<forall>k < 32. bit c (31 - k))"
proof
  assume "NOT c = 0"
  then have "NOT (NOT c) = NOT 0" by simp
  then have "c = - 1" by simp
  then show "\<forall>k < 32. bit c (31 - k)" by (simp add: bit_minus_1_iff)
next
  assume *: "\<forall>k < 32. bit c (31 - k)"
  show "NOT c = 0"
  proof (rule bit_word_eqI)
    fix n assume "n < LENGTH(32)"
    then show "bit (NOT c) n = bit (0 :: u32) n"
      using * [rule_format, of "31 - n"] by (simp add: bit_not_iff)
  qed
qed

lemma bv_ffz_full: "bv_ffz c < 0 \<longleftrightarrow> (\<forall>k < 32. bit c (31 - k))"
  by (simp add: bv_ffz_def NOT_eq_0_iff)

lemma bv_ffz_first:
  assumes "\<not> bv_ffz c < 0"
  obtains k where "bv_ffz c = int k" "k < 32" "\<not> bit c (31 - k)" "\<forall>j < k. bit c (31 - j)"
proof -
  let ?P = "\<lambda>i. \<not> bit (NOT c) (31 - i)"
  let ?k = "length (takeWhile ?P [0..<32])"
  have *: "j < 32 \<Longrightarrow> ?P j \<longleftrightarrow> bit c (31 - j)" for j
    by (simp add: bit_not_iff)
  from assms have ffz: "bv_ffz c = int ?k"
    by (auto simp: bv_ffz_def builtin_clz_def)
  have len: "?k \<le> 32"
    using length_takeWhile_le [of ?P "[0..<32]"] by simp
  have all: "bit c (31 - j)" if "j < ?k" for j
  proof -
    from that len have "j < 32" by simp
    have "takeWhile ?P [0..<32] ! j = j"
      using that \<open>j < 32\<close> by (simp add: takeWhile_nth)
    then have "?P j"
      using that nth_mem [of j "takeWhile ?P [0..<32]"] by (metis (no_types, lifting) set_takeWhileD)
    with * \<open>j < 32\<close> show ?thesis by simp
  qed
  have lt: "?k < 32"
  proof (rule ccontr)
    assume "\<not> ?k < 32"
    with len have "?k = 32" by simp
    with all assms show False by (simp add: bv_ffz_full)
  qed
  have "\<not> ?P ([0..<32] ! ?k)"
    by (rule nth_length_takeWhile) (use lt in simp)
  with lt * have "\<not> bit c (31 - ?k)" by simp
  with ffz lt all that show thesis by blast
qed

section \<open>The set of taken frames\<close>

definition fl_taken :: "u32 list \<Rightarrow> nat \<Rightarrow> bool" where
  "fl_taken fl i \<longleftrightarrow> i < 32 * length fl \<and> bit (fl ! (i div 32)) (31 - i mod 32)"

lemma div_mod_32_eq: "i div 32 = j div 32 \<Longrightarrow> 31 - i mod 32 = 31 - j mod 32 \<Longrightarrow> i = (j :: nat)"
proof -
  assume "i div 32 = j div 32" "31 - i mod 32 = 31 - j mod 32"
  moreover have "i mod 32 < 32" "j mod 32 < 32" by simp_all
  ultimately have "i div 32 = j div 32" "i mod 32 = j mod 32" by linarith+
  then show "i = j" by (metis div_mult_mod_eq)
qed

lemma fl_taken_set:
  assumes "p < 32 * length fl" "unat ofs = p mod 32"
  shows "fl_taken (fl[p div 32 := fl_set (fl ! (p div 32)) ofs]) i \<longleftrightarrow> fl_taken fl i \<or> i = p"
proof -
  have "p div 32 < length fl" using assms(1) by (simp add: less_mult_imp_div_less mult.commute)
  then show ?thesis
    using assms by (auto simp: fl_taken_def nth_list_update bit_fl_set dest: div_mod_32_eq)
qed

lemma fl_taken_flip:
  assumes "fl_taken fl p" "unat ofs = p mod 32"
  shows "fl_taken (fl[p div 32 := fl_flip (fl ! (p div 32)) ofs]) i \<longleftrightarrow> fl_taken fl i \<and> i \<noteq> p"
proof -
  have "p div 32 < length fl"
    using assms(1) by (simp add: fl_taken_def less_mult_imp_div_less mult.commute)
  then show ?thesis
    using assms by (auto simp: fl_taken_def nth_list_update bit_fl_flip dest: div_mod_32_eq)
qed

lemma not_fl_taken_zeros [simp]: "\<not> fl_taken (replicate n 0) i"
  by (cases "i div 32 < n") (auto simp: fl_taken_def less_mult_imp_div_less mult.commute)

lemma fl_taken_chunk:
  "j < length fl \<Longrightarrow> b < 32 \<Longrightarrow> fl_taken fl (32 * j + b) \<longleftrightarrow> bit (fl ! j) (31 - b)"
  by (auto simp: fl_taken_def)

text \<open>The frames below chunk \<open>j + 1\<close> are those below chunk \<open>j\<close> and those of chunk \<open>j\<close>.\<close>

lemma below_chunk: "i < 32 * Suc j \<longleftrightarrow> i < 32 * j \<or> (\<exists>b < 32. i = 32 * j + (b :: nat))"
  by presburger

lemma bv_ffz_chunk_full:
  "j < length fl \<Longrightarrow> bv_ffz (fl ! j) < 0 \<Longrightarrow> \<forall>i < 32 * j. fl_taken fl i \<Longrightarrow>
    \<forall>i < 32 * Suc j. fl_taken fl i"
  unfolding below_chunk by (auto simp: bv_ffz_full fl_taken_chunk)

lemma bv_ffz_chunk_free:
  assumes "j < length fl" "\<not> bv_ffz (fl ! j) < 0" "\<forall>i < 32 * j. fl_taken fl i"
  obtains k where "bv_ffz (fl ! j) = int k" "k < 32" "\<not> fl_taken fl (32 * j + k)"
    "\<forall>i < 32 * j + k. fl_taken fl i"
proof -
  obtain k where k: "bv_ffz (fl ! j) = int k" "k < 32" "\<not> bit (fl ! j) (31 - k)"
    "\<forall>b < k. bit (fl ! j) (31 - b)"
    using assms(2) by (rule bv_ffz_first)
  have "fl_taken fl i" if "i < 32 * j + k" for i
  proof (cases "i < 32 * j")
    case True
    with assms(3) show ?thesis by simp
  next
    case False
    with that have "i = 32 * j + (i - 32 * j)" "i - 32 * j < k" by simp_all
    with k(2,4) assms(1) show ?thesis by (metis fl_taken_chunk order_less_trans)
  qed
  with k assms(1) that show thesis by (simp add: fl_taken_chunk)
qed

end
