(* ===== verification/Memory.thy ===== *)
theory Memory
  imports FreeList
begin

text \<open>
  Physical memory as \<open>memory.c\<close> keeps it: the frame table, the free list and the counters,
  with the store that holds the virtual pages. A \<open>VPage*\<close> is an address of that store, so
  that the pointers to one page held by a page table, by the frame table, by a blocked
  process and by the replacement module alias as they do in the program.
\<close>

section \<open>Data\<close>

type_synonym vaddr = nat   \<comment> \<open>\<open>VPage*\<close>\<close>
type_synonym oaddr = nat   \<comment> \<open>\<open>void*\<close> to the overhead of a page\<close>

record VPage =
  vpn :: ul64
  vp_pid :: ul64
  overhead :: "oaddr option cval"
  inMemory :: bool
  currentPPN :: "ul64 cval"

record PPage =
  ppn :: ul64
  virtualPage :: "vaddr option"

text \<open>
  \<open>vheap\<close> is the heap of virtual pages, \<open>vnext\<close> an address above all that were handed out;
  \<open>zeroed\<close> says whether \<open>malloc\<close> returns zeroed memory. \<open>stderr_log\<close> collects the warnings
  written on paths that carry on.
\<close>

record mstate =
  vheap :: "vaddr \<Rightarrow> VPage option"
  vnext :: vaddr
  zeroed :: bool
  memory :: "PPage cval list"
  mem_size :: ul64
  allocated :: ul64
  freelist :: "u32 list"
  stderr_log :: "string list"

definition boot_memory :: "bool \<Rightarrow> mstate" where
  "boot_memory z = \<lparr>vheap = (\<lambda>_. None), vnext = 0, zeroed = z, memory = [], mem_size = 0,
     allocated = 0, freelist = [], stderr_log = []\<rparr>"

section \<open>Operations\<close>

text \<open>A \<open>for\<close> loop over a range of indices whose body may fault.\<close>

fun for_res :: "('i \<Rightarrow> 's \<Rightarrow> 's res) \<Rightarrow> 'i list \<Rightarrow> 's \<Rightarrow> 's res" where
  "for_res body [] s = Inr s"
| "for_res body (i # is) s = bnd (body i s) (for_res body is)"

definition Page_init :: "ul64 \<Rightarrow> mstate \<Rightarrow> mstate res" where
  "Page_init p s =
     bnd (arr_set (memory s) (unat p) (Val \<lparr>ppn = p, virtualPage = None\<rparr>)) (\<lambda>m.
     Inr (s\<lparr>memory := m\<rparr>))"

definition Memory_init :: "ul64 \<Rightarrow> mstate \<Rightarrow> mstate res" where
  "Memory_init numberOfPhysicalPages s =
     (let s1 = s\<lparr>mem_size := numberOfPhysicalPages, allocated := 0,
                 memory := replicate (unat numberOfPhysicalPages) Indet,
                 freelist := replicate (unat (numberOfPhysicalPages div 32)) 0\<rparr>
      in for_res Page_init (map of_nat [0..<unat (mem_size s1)]) s1)"

text \<open>\<open>memory[ppn]\<close>, read as a pointer to its page, and the write of a field of that page.\<close>

definition frame_at :: "mstate \<Rightarrow> ul64 \<Rightarrow> PPage res" where
  "frame_at s p = bnd (arr_get (memory s) (unat p)) rd"

definition set_frame :: "ul64 \<Rightarrow> PPage \<Rightarrow> mstate \<Rightarrow> mstate res" where
  "set_frame p f s = bnd (arr_set (memory s) (unat p) (Val f)) (\<lambda>m. Inr (s\<lparr>memory := m\<rparr>))"

definition Memory_getPPage :: "ul64 \<Rightarrow> mstate \<Rightarrow> PPage res" where
  "Memory_getPPage p s =
     (if p > mem_size s - 1 then Inl (ExitFailure ''page out of bounds'') else frame_at s p)"

definition Memory_getVPage :: "ul64 \<Rightarrow> mstate \<Rightarrow> vaddr option res" where
  "Memory_getVPage p s = bnd (frame_at s p) (\<lambda>f. Inr (virtualPage f))"

definition Memory_evictPage :: "ul64 \<Rightarrow> mstate \<Rightarrow> mstate res" where
  "Memory_evictPage p s =
     (if p > mem_size s - 1 then Inl (ExitFailure ''page out of bounds'')
      else
        bnd (frame_at s p) (\<lambda>f.
        bnd (nonnull (virtualPage f)) (\<lambda>v.
        bnd (deref (vheap s) v) (\<lambda>vp.
        let s1 = s\<lparr>vheap := (vheap s)(v \<mapsto> vp\<lparr>inMemory := False\<rparr>)\<rparr> in
        bnd (set_frame p (f\<lparr>virtualPage := None\<rparr>) s1) (\<lambda>s2.
        bnd (arr_get (freelist s2) (unat (bv_ind p))) (\<lambda>chunk.
        if fl_test chunk (bv_ofs p)
        then bnd (arr_set (freelist s2) (unat (bv_ind p)) (fl_flip chunk (bv_ofs p))) (\<lambda>fl.
             Inr (s2\<lparr>freelist := fl, allocated := allocated s2 - 1\<rparr>))
        else Inr (s2\<lparr>stderr_log := stderr_log s2 @ [''WARN: failsafe triggered'']\<rparr>)))))))"

definition Memory_loadPage :: "vaddr option \<Rightarrow> ul64 \<Rightarrow> mstate \<Rightarrow> mstate res" where
  "Memory_loadPage vptr p s =
     (if p > mem_size s - 1 then Inl (ExitFailure ''page out of bounds'')
      else
        bnd (c_assert ''virtualPage != NULL'' (vptr \<noteq> None)) (\<lambda>_.
        bnd (frame_at s p) (\<lambda>f.
        bnd (c_assert ''memory[ppn]->virtualPage == NULL'' (virtualPage f = None)) (\<lambda>_.
        bnd (set_frame p (f\<lparr>virtualPage := vptr\<rparr>) s) (\<lambda>s1.
        bnd (nonnull vptr) (\<lambda>v.
        bnd (deref (vheap s1) v) (\<lambda>vp.
        let s2 = s1\<lparr>vheap := (vheap s1)(v \<mapsto> vp\<lparr>inMemory := True, currentPPN := Val p\<rparr>)\<rparr> in
        bnd (arr_get (freelist s2) (unat (bv_ind p))) (\<lambda>chunk.
        bnd (arr_set (freelist s2) (unat (bv_ind p)) (fl_set chunk (bv_ofs p))) (\<lambda>fl.
        Inr (s2\<lparr>freelist := fl, allocated := allocated s2 + 1\<rparr>))))))))))"

function getFreePage_from :: "ul64 \<Rightarrow> mstate \<Rightarrow> ul64 res" where
  "getFreePage_from fl_ind s =
     (if fl_ind < mem_size s div 32
      then bnd (arr_get (freelist s) (unat fl_ind)) (\<lambda>chunk.
           let fz_ind = bv_ffz chunk in
           if fz_ind \<ge> 0 then Inr (fl_ind * 32 + of_int fz_ind)
           else getFreePage_from (fl_ind + 1) s)
      else Inl (ExitFailure ''no free page''))"
  by pat_completeness auto
termination
proof (relation "measure (\<lambda>(i, s). unat (mem_size s div 32) - unat i)")
  fix fl_ind :: ul64 and s :: mstate
  assume "fl_ind < mem_size s div 32"
  then have "unat fl_ind < unat (mem_size s div 32)" "unat (fl_ind + 1) = Suc (unat fl_ind)"
    by (simp_all add: word_less_nat_alt unat_plus_one_less)
  then show "((fl_ind + 1, s), fl_ind, s) \<in> measure (\<lambda>(i, s). unat (mem_size s div 32) - unat i)"
    by simp
qed simp

declare getFreePage_from.simps [simp del]

definition Memory_getFreePage :: "mstate \<Rightarrow> ul64 res" where
  "Memory_getFreePage s = getFreePage_from 0 s"

definition Memory_hasFreePage :: "mstate \<Rightarrow> bool" where
  "Memory_hasFreePage s \<longleftrightarrow> mem_size s > allocated s"

text \<open>Both return the \<open>size_t\<close> counter as an \<open>int\<close>.\<close>

definition Memory_howManyAllocPages :: "mstate \<Rightarrow> int" where
  "Memory_howManyAllocPages s = sint (ucast (allocated s) :: u32)"

definition Memory_getTotalSize :: "mstate \<Rightarrow> int" where
  "Memory_getTotalSize s = sint (ucast (mem_size s) :: u32)"

end
