(* ===== verification/MemoryInv.thy ===== *)
theory MemoryInv
  imports Memory
begin

text \<open>
  The invariant of physical memory and what each operation of \<open>memory.c\<close> does under it. The
  abstract state is the partial map \<open>frames\<close> from frame numbers to the virtual pages they
  hold; loading updates it at one frame, evicting clears it at one frame, and the free list
  and the counter are determined by its domain.
\<close>

section \<open>The abstract state and the invariant\<close>

definition frames :: "mstate \<Rightarrow> nat \<Rightarrow> vaddr option" where
  "frames s i = (if i < length (memory s)
     then (case memory s ! i of Indet \<Rightarrow> None | Val f \<Rightarrow> virtualPage f) else None)"

text \<open>The table has one initialised page per frame and one free-list bit per frame.\<close>

definition mem_shape :: "mstate \<Rightarrow> bool" where
  "mem_shape s \<longleftrightarrow>
     0 < mem_size s
     \<and> length (memory s) = unat (mem_size s)
     \<and> 32 * length (freelist s) = unat (mem_size s)
     \<and> (\<forall>i < length (memory s). \<exists>v. memory s ! i = Val \<lparr>ppn = of_nat i, virtualPage = v\<rparr>)"

text \<open>The free list and the counter agree with the frames in use.\<close>

definition mem_pool :: "mstate \<Rightarrow> bool" where
  "mem_pool s \<longleftrightarrow>
     (\<forall>i. fl_taken (freelist s) i \<longleftrightarrow> frames s i \<noteq> None)
     \<and> unat (allocated s) = card (dom (frames s))"

text \<open>A frame holds a page exactly when the page says that it is in that frame.\<close>

definition mem_links :: "mstate \<Rightarrow> bool" where
  "mem_links s \<longleftrightarrow>
     (\<forall>i v. frames s i = Some v \<longrightarrow>
        (\<exists>vp. vheap s v = Some vp \<and> inMemory vp \<and> currentPPN vp = Val (of_nat i)))
     \<and> (\<forall>v vp. vheap s v = Some vp \<and> inMemory vp \<longrightarrow> (\<exists>i. frames s i = Some v))
     \<and> (\<forall>v \<ge> vnext s. vheap s v = None)"

definition mem_inv :: "mstate \<Rightarrow> bool" where
  "mem_inv s \<longleftrightarrow> mem_shape s \<and> mem_pool s \<and> mem_links s"

lemma mem_invI: "mem_shape s \<Longrightarrow> mem_pool s \<Longrightarrow> mem_links s \<Longrightarrow> mem_inv s"
  by (simp add: mem_inv_def)

lemma mem_invD:
  assumes "mem_inv s"
  shows mem_inv_shape: "mem_shape s" and mem_inv_pool: "mem_pool s" and mem_inv_links: "mem_links s"
  using assms by (simp_all add: mem_inv_def)

lemma frames_bound: "frames s i = Some v \<Longrightarrow> i < length (memory s)"
  by (simp add: frames_def split: if_splits)

lemma dom_frames_subset: "dom (frames s) \<subseteq> {..<length (memory s)}"
  by (auto dest: frames_bound)

lemma finite_dom_frames [simp]: "finite (dom (frames s))"
  by (rule finite_subset [OF dom_frames_subset]) simp

lemma frames_cong: "memory s = memory s' \<Longrightarrow> frames s = frames s'"
  by (rule ext) (simp add: frames_def)

lemma unat_of_frame: "i < unat (n :: ul64) \<Longrightarrow> unat (of_nat i :: ul64) = i"
proof -
  assume "i < unat n"
  also have "unat n < 2 ^ LENGTH(64)" by (rule unsigned_less)
  finally show ?thesis by (simp add: unat_of_nat)
qed

lemma shape_length: "mem_shape s \<Longrightarrow> length (memory s) = unat (mem_size s)"
  by (simp add: mem_shape_def)

lemma in_range_iff:
  "mem_shape s \<Longrightarrow> p > mem_size s - 1 \<longleftrightarrow> \<not> unat p < length (memory s)"
  by (auto simp: mem_shape_def word_less_nat_alt unat_minus_one_pos)

lemma frame_at_eq:
  assumes "mem_shape s" "unat p < length (memory s)"
  shows "frame_at s p = Inr \<lparr>ppn = p, virtualPage = frames s (unat p)\<rparr>"
proof -
  obtain v where "memory s ! unat p = Val \<lparr>ppn = of_nat (unat p), virtualPage = v\<rparr>"
    using assms by (auto simp: mem_shape_def)
  with assms(2) show ?thesis by (simp add: frame_at_def frames_def)
qed

lemma fl_index:
  assumes "mem_shape s" "unat p < length (memory s)"
  shows "unat p < 32 * length (freelist s)" "unat p div 32 < length (freelist s)"
  using assms by (simp_all add: mem_shape_def less_mult_imp_div_less mult.commute)

section \<open>Loading a page into a free frame\<close>

text \<open>The state after \<open>Memory_loadPage\<close>, and after \<open>Memory_evictPage\<close>, on the paths taken.\<close>

definition loaded :: "vaddr \<Rightarrow> VPage \<Rightarrow> ul64 \<Rightarrow> mstate \<Rightarrow> mstate" where
  "loaded v vp p s = s\<lparr>
     memory := (memory s)[unat p := Val \<lparr>ppn = p, virtualPage = Some v\<rparr>],
     vheap := (vheap s)(v \<mapsto> vp\<lparr>inMemory := True, currentPPN := Val p\<rparr>),
     freelist := (freelist s)[unat p div 32 := fl_set (freelist s ! (unat p div 32)) (bv_ofs p)],
     allocated := allocated s + 1\<rparr>"

definition evicted :: "vaddr \<Rightarrow> VPage \<Rightarrow> ul64 \<Rightarrow> mstate \<Rightarrow> mstate" where
  "evicted v vp p s = s\<lparr>
     memory := (memory s)[unat p := Val \<lparr>ppn = p, virtualPage = None\<rparr>],
     vheap := (vheap s)(v \<mapsto> vp\<lparr>inMemory := False\<rparr>),
     freelist := (freelist s)[unat p div 32 := fl_flip (freelist s ! (unat p div 32)) (bv_ofs p)],
     allocated := allocated s - 1\<rparr>"

lemma loaded_sel [simp]:
  "vnext (loaded v vp p s) = vnext s" "zeroed (loaded v vp p s) = zeroed s"
  "mem_size (loaded v vp p s) = mem_size s" "allocated (loaded v vp p s) = allocated s + 1"
  "vheap (loaded v vp p s) = (vheap s)(v \<mapsto> vp\<lparr>inMemory := True, currentPPN := Val p\<rparr>)"
  "stderr_log (loaded v vp p s) = stderr_log s"
  "length (memory (loaded v vp p s)) = length (memory s)"
  by (simp_all add: loaded_def)

lemma evicted_sel [simp]:
  "vnext (evicted v vp p s) = vnext s" "zeroed (evicted v vp p s) = zeroed s"
  "mem_size (evicted v vp p s) = mem_size s" "allocated (evicted v vp p s) = allocated s - 1"
  "vheap (evicted v vp p s) = (vheap s)(v \<mapsto> vp\<lparr>inMemory := False\<rparr>)"
  "stderr_log (evicted v vp p s) = stderr_log s"
  "length (memory (evicted v vp p s)) = length (memory s)"
  by (simp_all add: evicted_def)

lemma frames_loaded:
  "unat p < length (memory s) \<Longrightarrow> frames (loaded v vp p s) = (frames s)(unat p \<mapsto> v)"
  by (rule ext) (auto simp: loaded_def frames_def nth_list_update)

lemma frames_evicted:
  "unat p < length (memory s) \<Longrightarrow> frames (evicted v vp p s) = (frames s)(unat p := None)"
  by (rule ext) (auto simp: evicted_def frames_def nth_list_update)

lemma Memory_loadPage_eq:
  assumes "mem_shape s" "unat p < length (memory s)" "frames s (unat p) = None" "vheap s v = Some vp"
  shows "Memory_loadPage (Some v) p s = Inr (loaded v vp p s)"
  using assms
  by (simp add: Memory_loadPage_def in_range_iff frame_at_eq set_frame_def fl_index loaded_def)

lemma Memory_evictPage_eq:
  assumes "mem_shape s" "mem_pool s" "unat p < length (memory s)"
    and "frames s (unat p) = Some v" "vheap s v = Some vp"
  shows "Memory_evictPage p s = Inr (evicted v vp p s)"
proof -
  have "fl_taken (freelist s) (unat p)"
    using assms(2,4) by (simp add: mem_pool_def)
  then have "fl_test (freelist s ! (unat p div 32)) (bv_ofs p)"
    by (simp add: fl_taken_def fl_test_iff)
  with assms show ?thesis
    by (simp add: Memory_evictPage_def in_range_iff frame_at_eq set_frame_def fl_index evicted_def)
qed

subsection \<open>The invariant is kept\<close>

lemma mem_shape_upd:
  assumes "mem_shape s" "unat p < length (memory s)"
  shows "mem_shape (loaded v vp p s)" "mem_shape (evicted v vp p s)"
  using assms by (auto simp: mem_shape_def loaded_def evicted_def nth_list_update)

lemma mem_pool_loaded:
  assumes "mem_shape s" "mem_pool s" "unat p < length (memory s)" "frames s (unat p) = None"
  shows "mem_pool (loaded v vp p s)"
proof -
  let ?s = "loaded v vp p s"
  have fr: "frames ?s = (frames s)(unat p \<mapsto> v)" using assms(3) by (rule frames_loaded)
  have "card (dom (frames s)) < length (memory s)"
    using psubset_card_mono [of "{..<length (memory s)}" "dom (frames s)"]
      dom_frames_subset [of s] assms(3,4) by auto
  with assms(1,2) have lt: "allocated s < mem_size s"
    by (simp add: mem_pool_def word_less_nat_alt shape_length)
  have "dom (frames ?s) = insert (unat p) (dom (frames s))" by (simp add: fr)
  then have "card (dom (frames ?s)) = Suc (card (dom (frames s)))"
    using assms(4) by (simp add: domIff)
  moreover have "unat (allocated s + 1) = Suc (unat (allocated s))"
    using lt by (rule unat_plus_one_less)
  moreover have "fl_taken (freelist ?s) i \<longleftrightarrow> fl_taken (freelist s) i \<or> i = unat p" for i
    using fl_taken_set [of "unat p" "freelist s" "bv_ofs p" i] fl_index [OF assms(1,3)]
    by (simp add: loaded_def)
  ultimately show ?thesis using assms(2) by (simp add: mem_pool_def fr)
qed

lemma mem_pool_evicted:
  assumes "mem_shape s" "mem_pool s" "unat p < length (memory s)" "frames s (unat p) = Some w"
  shows "mem_pool (evicted v vp p s)"
proof -
  let ?s = "evicted v vp p s"
  have fr: "frames ?s = (frames s)(unat p := None)" using assms(3) by (rule frames_evicted)
  have "unat p \<in> dom (frames s)" using assms(4) by auto
  then have pos: "0 < card (dom (frames s))" by (auto simp: card_gt_0_iff)
  have "dom (frames ?s) = dom (frames s) - {unat p}" by (simp add: fr)
  then have "card (dom (frames ?s)) = card (dom (frames s)) - 1"
    using \<open>unat p \<in> dom (frames s)\<close> by simp
  moreover have "unat (allocated s - 1) = unat (allocated s) - 1"
    using pos assms(2) by (intro unat_minus_one_pos) (auto simp: mem_pool_def word_less_nat_alt)
  moreover have "fl_taken (freelist s) (unat p)" using assms(2,4) by (simp add: mem_pool_def)
  then have "fl_taken (freelist ?s) i \<longleftrightarrow> fl_taken (freelist s) i \<and> i \<noteq> unat p" for i
    using fl_taken_flip [of "freelist s" "unat p" "bv_ofs p" i] by (simp add: evicted_def)
  ultimately show ?thesis using assms(2) by (auto simp: mem_pool_def fr)
qed

lemma mem_links_frame:
  "mem_links s \<Longrightarrow> frames s i = Some v \<Longrightarrow>
    \<exists>vp. vheap s v = Some vp \<and> inMemory vp \<and> currentPPN vp = Val (of_nat i)"
  by (simp add: mem_links_def)

lemma mem_links_page:
  "mem_links s \<Longrightarrow> vheap s v = Some vp \<Longrightarrow> inMemory vp \<Longrightarrow> \<exists>i. frames s i = Some v"
  by (auto simp: mem_links_def)

lemma mem_linksI:
  assumes "\<And>i v. frames s i = Some v \<Longrightarrow>
      \<exists>vp. vheap s v = Some vp \<and> inMemory vp \<and> currentPPN vp = Val (of_nat i)"
    and "\<And>v vp. vheap s v = Some vp \<Longrightarrow> inMemory vp \<Longrightarrow> \<exists>i. frames s i = Some v"
    and "\<And>v. vnext s \<le> v \<Longrightarrow> vheap s v = None"
  shows "mem_links s"
  using assms by (auto simp: mem_links_def)

lemma mem_links_fresh: "mem_links s \<Longrightarrow> vnext s \<le> v \<Longrightarrow> vheap s v = None"
  by (simp add: mem_links_def)

lemma mem_links_loaded:
  assumes "mem_links s" "unat p < length (memory s)" "frames s (unat p) = None"
    and "vheap s v = Some vp" "\<not> inMemory vp"
  shows "mem_links (loaded v vp p s)"
proof -
  have other: "frames s i = Some w \<Longrightarrow> w \<noteq> v" for i w
    using mem_links_frame [OF assms(1), of i w] assms(4,5) by auto
  have still: "\<exists>i. frames s i = Some w \<and> i \<noteq> unat p" if "vheap s w = Some x" "inMemory x" for w x
    using mem_links_page [OF assms(1) that] assms(3) by auto
  show ?thesis
  proof (rule mem_linksI, unfold frames_loaded [OF assms(2)] loaded_sel)
    fix i w assume "((frames s)(unat p \<mapsto> v)) i = Some w"
    then show "\<exists>x. ((vheap s)(v \<mapsto> vp\<lparr>inMemory := True, currentPPN := Val p\<rparr>)) w = Some x
        \<and> inMemory x \<and> currentPPN x = Val (of_nat i)"
      using mem_links_frame [OF assms(1)] other by (cases "i = unat p") auto
  next
    fix w x assume "((vheap s)(v \<mapsto> vp\<lparr>inMemory := True, currentPPN := Val p\<rparr>)) w = Some x" "inMemory x"
    then show "\<exists>i. ((frames s)(unat p \<mapsto> v)) i = Some w"
      using still [of w x] by (cases "w = v") auto
  qed (use assms(4) mem_links_fresh [OF assms(1)] in auto)
qed

lemma mem_links_inj:
  assumes "mem_links s" "mem_shape s" "frames s i = Some v" "frames s j = Some v"
  shows "i = j"
proof -
  have bounds: "i < unat (mem_size s)" "j < unat (mem_size s)"
    using frames_bound [OF assms(3)] frames_bound [OF assms(4)] assms(2)
    by (simp_all add: shape_length)
  have "(of_nat i :: ul64) = of_nat j"
    using mem_links_frame [OF assms(1,3)] mem_links_frame [OF assms(1,4)] by auto
  then have "unat (of_nat i :: ul64) = unat (of_nat j :: ul64)" by simp
  with bounds show ?thesis by (simp add: unat_of_frame)
qed

lemma mem_links_evicted:
  assumes "mem_links s" "mem_shape s" "unat p < length (memory s)"
    and "frames s (unat p) = Some v" "vheap s v = Some vp"
  shows "mem_links (evicted v vp p s)"
proof -
  have only: "frames s i = Some v \<Longrightarrow> i = unat p" for i
    by (rule mem_links_inj [OF assms(1,2) _ assms(4)])
  have still: "\<exists>i. frames s i = Some w \<and> i \<noteq> unat p"
    if "vheap s w = Some x" "inMemory x" "w \<noteq> v" for w x
    using mem_links_page [OF assms(1) that(1,2)] assms(4) that(3) by auto
  show ?thesis
  proof (rule mem_linksI, unfold frames_evicted [OF assms(3)] evicted_sel)
    fix i w assume *: "((frames s)(unat p := None)) i = Some w"
    then have "w \<noteq> v" using only by (auto split: if_splits)
    with * show "\<exists>x. ((vheap s)(v \<mapsto> vp\<lparr>inMemory := False\<rparr>)) w = Some x
        \<and> inMemory x \<and> currentPPN x = Val (of_nat i)"
      using mem_links_frame [OF assms(1), of i w] by (auto split: if_splits)
  next
    fix w x assume "((vheap s)(v \<mapsto> vp\<lparr>inMemory := False\<rparr>)) w = Some x" "inMemory x"
    then show "\<exists>i. ((frames s)(unat p := None)) i = Some w"
      using still [of w x] by (cases "w = v") auto
  qed (use assms(5) mem_links_fresh [OF assms(1)] in auto)
qed

lemma mem_inv_loaded:
  assumes "mem_inv s" "unat p < length (memory s)" "frames s (unat p) = None"
    and "vheap s v = Some vp" "\<not> inMemory vp"
  shows "mem_inv (loaded v vp p s)"
  using assms by (simp add: mem_inv_def mem_shape_upd mem_pool_loaded mem_links_loaded)

lemma mem_inv_evicted:
  assumes "mem_inv s" "unat p < length (memory s)" "frames s (unat p) = Some v" "vheap s v = Some vp"
  shows "mem_inv (evicted v vp p s)"
  using assms by (simp add: mem_inv_def mem_shape_upd mem_pool_evicted mem_links_evicted)

lemma frames_resident:
  assumes "mem_inv s" "frames s i = Some v"
  obtains vp where "vheap s v = Some vp" "inMemory vp" "currentPPN vp = Val (of_nat i)"
    "unat (of_nat i :: ul64) = i" "i < length (memory s)"
proof -
  have i: "i < length (memory s)" using assms(2) by (rule frames_bound)
  with assms(1) have "unat (of_nat i :: ul64) = i"
    by (simp add: mem_inv_def shape_length unat_of_frame)
  with i mem_links_frame [OF mem_inv_links [OF assms(1)] assms(2)] that show thesis by blast
qed

lemma resident_frame:
  assumes "mem_inv s" "vheap s v = Some vp" "inMemory vp"
  obtains p where "currentPPN vp = Val p" "frames s (unat p) = Some v" "unat p < length (memory s)"
proof -
  obtain i where "frames s i = Some v"
    using mem_links_page [OF mem_inv_links [OF assms(1)] assms(2,3)] by blast
  with assms(1) show thesis
    by (rule frames_resident) (use assms(2) that \<open>frames s i = Some v\<close> in simp)
qed

section \<open>Finding a free frame\<close>

lemma freelist_length: "mem_shape s \<Longrightarrow> unat (mem_size s div 32) = length (freelist s)"
  unfolding mem_shape_def unat_div by auto

lemma frame_number:
  fixes ind :: ul64
  assumes "mem_shape s" "unat ind < length (freelist s)" "k < 32"
  shows "unat (ind * 32 + of_nat k) = 32 * unat ind + k" "32 * unat ind + k < length (memory s)"
proof -
  show *: "32 * unat ind + k < length (memory s)"
    using assms by (simp add: mem_shape_def)
  also have "length (memory s) < 2 ^ LENGTH(64)"
    using assms(1) unsigned_less [of "mem_size s"] by (simp add: shape_length)
  finally show "unat (ind * 32 + of_nat k) = 32 * unat ind + k"
    using assms(3) by (simp add: unat_word_ariths unat_of_nat mult.commute)
qed

text \<open>The scan returns the first free frame at or behind its starting chunk.\<close>

lemma getFreePage_from_found:
  "mem_shape s \<Longrightarrow> \<not> fl_taken (freelist s) n \<Longrightarrow> n < length (memory s) \<Longrightarrow>
    \<forall>i < 32 * unat ind. fl_taken (freelist s) i \<Longrightarrow>
    \<exists>p. getFreePage_from ind s = Inr p \<and> unat p < length (memory s)
      \<and> \<not> fl_taken (freelist s) (unat p) \<and> (\<forall>i < unat p. fl_taken (freelist s) i)"
proof (induction ind s rule: getFreePage_from.induct)
  case (1 ind s)
  let ?c = "freelist s ! unat ind"
  have ind: "ind < mem_size s div 32" and len: "unat ind < length (freelist s)"
  proof -
    have "32 * unat ind \<le> n" using "1.prems"(2,4) by (meson not_le)
    with "1.prems"(1,3) show len: "unat ind < length (freelist s)" by (simp add: mem_shape_def)
    then show "ind < mem_size s div 32"
      using freelist_length [OF "1.prems"(1)] by (simp add: word_less_nat_alt)
  qed
  show ?case
  proof (cases "bv_ffz ?c < 0")
    case True
    have "unat (ind + 1) = Suc (unat ind)" using ind by (rule unat_plus_one_less)
    then have "\<forall>i < 32 * unat (ind + 1). fl_taken (freelist s) i"
      using bv_ffz_chunk_full [OF len True "1.prems"(4)] by simp
    with "1.IH" [OF ind, of ?c "bv_ffz ?c"] "1.prems" True ind len show ?thesis
      by (simp add: getFreePage_from.simps [of ind s])
  next
    case False
    then obtain k where k: "bv_ffz ?c = int k" "k < 32" "\<not> fl_taken (freelist s) (32 * unat ind + k)"
      "\<forall>i < 32 * unat ind + k. fl_taken (freelist s) i"
      using bv_ffz_chunk_free [OF len _ "1.prems"(4)] by blast
    with frame_number [OF "1.prems"(1) len, of k] ind len show ?thesis
      by (simp add: getFreePage_from.simps [of ind s])
  qed
qed

lemma hasFreePage_card:
  "mem_inv s \<Longrightarrow> Memory_hasFreePage s \<longleftrightarrow> card (dom (frames s)) < length (memory s)"
  by (simp add: Memory_hasFreePage_def mem_inv_def mem_pool_def word_less_nat_alt shape_length)

lemma hasFreePage_iff:
  assumes "mem_inv s"
  shows "Memory_hasFreePage s \<longleftrightarrow> (\<exists>i < length (memory s). frames s i = None)"
proof -
  let ?n = "length (memory s)"
  have "Memory_hasFreePage s \<longleftrightarrow> card (dom (frames s)) < ?n"
    using assms by (rule hasFreePage_card)
  also have "\<dots> \<longleftrightarrow> dom (frames s) \<noteq> {..<?n}"
    using psubset_card_mono [of "{..<?n}" "dom (frames s)"] dom_frames_subset [of s] by auto
  also have "\<dots> \<longleftrightarrow> (\<exists>i < ?n. frames s i = None)"
    using dom_frames_subset [of s] by (auto simp: domIff)
  finally show ?thesis .
qed

lemma getFreePage_eq:
  assumes "mem_inv s" "Memory_hasFreePage s"
  obtains p where "Memory_getFreePage s = Inr p" "unat p < length (memory s)"
    "frames s (unat p) = None" "\<forall>i < unat p. frames s i \<noteq> None"
proof -
  obtain n where "n < length (memory s)" "\<not> fl_taken (freelist s) n"
    using assms hasFreePage_iff by (auto simp: mem_inv_def mem_pool_def)
  with getFreePage_from_found [of s n 0] assms(1) that show thesis
    by (auto simp: Memory_getFreePage_def mem_inv_def mem_pool_def)
qed

section \<open>Initialisation\<close>

definition initialised :: "ul64 \<Rightarrow> mstate \<Rightarrow> mstate" where
  "initialised n s = s\<lparr>mem_size := n, allocated := 0,
     memory := map (\<lambda>i. Val \<lparr>ppn = of_nat i, virtualPage = None\<rparr>) [0..<unat n],
     freelist := replicate (unat (n div 32)) 0\<rparr>"

lemma for_res_append: "for_res f (xs @ ys) s = bnd (for_res f xs s) (for_res f ys)"
proof (induction xs arbitrary: s)
  case (Cons x xs)
  then show ?case by (cases "f x s") simp_all
qed simp

lemma for_res_Page_init:
  "k \<le> length (memory s) \<Longrightarrow> length (memory s) \<le> unat (n :: ul64) \<Longrightarrow>
    for_res Page_init (map of_nat [0..<k]) s = Inr (s\<lparr>memory :=
      map (\<lambda>i. Val \<lparr>ppn = of_nat i, virtualPage = None\<rparr>) [0..<k] @ drop k (memory s)\<rparr>)"
proof (induction k)
  case (Suc k)
  then have "unat (of_nat k :: ul64) = k" by (intro unat_of_frame [of k n]) simp
  with Suc show ?case
    by (simp add: for_res_append Page_init_def list_update_append Cons_nth_drop_Suc [symmetric])
qed simp

lemma Memory_init_eq: "Memory_init n s = Inr (initialised n s)"
  by (simp add: Memory_init_def for_res_Page_init [where n = n] initialised_def)

lemma frames_initialised [simp]: "frames (initialised n s) = (\<lambda>_. None)"
  by (rule ext) (simp add: frames_def initialised_def)

text \<open>
  The free list gets \<open>n / 32\<close> chunks, which is enough for all frames exactly when 32 divides
  \<open>n\<close>; this is the one condition of the invariant that initialisation does not ensure.
\<close>

lemma mem_shape_initialised_iff: "mem_shape (initialised n s) \<longleftrightarrow> 0 < n \<and> n mod 32 = 0"
proof -
  have "32 * unat (n div 32) = unat n \<longleftrightarrow> unat n mod 32 = 0"
    by (simp add: unat_div) presburger
  moreover have "unat n mod 32 = unat (n mod 32)" by (simp add: unat_mod)
  ultimately show ?thesis
    by (auto simp: mem_shape_def initialised_def unat_eq_0)
qed

lemma mem_inv_initialised:
  assumes "0 < n" "n mod 32 = 0" "vheap s = (\<lambda>_. None)"
  shows "mem_inv (initialised n s)"
proof (rule mem_invI)
  show "mem_shape (initialised n s)"
    using assms by (simp add: mem_shape_initialised_iff)
  show "mem_pool (initialised n s)"
    by (simp add: mem_pool_def) (simp add: initialised_def)
  show "mem_links (initialised n s)"
    using assms(3) by (intro mem_linksI) (simp, simp_all add: initialised_def)
qed

text \<open>
  Without that condition the frames behind the last full chunk have no bit: loading a page
  there writes outside the free list.
\<close>

lemma loadPage_beyond_freelist:
  assumes "32 * unat (n div 32) \<le> unat p" "p < n" "vheap s v = Some vp"
  shows "Memory_loadPage (Some v) p (initialised n s) = Inl OutOfBounds"
proof -
  have "unat p < unat n" using assms(2) by (simp add: word_less_nat_alt)
  moreover have "\<not> n - 1 < p" using assms(2) unat_minus_one_pos [of n]
    by (auto simp: word_less_nat_alt)
  moreover have "unat n div 32 \<le> unat p div 32"
    using assms(1) by (simp add: unat_div)
  ultimately show ?thesis
    using assms(3)
    by (simp add: Memory_loadPage_def initialised_def frame_at_def set_frame_def unat_div)
qed

lemma getFreePage_from_small: "mem_size s div 32 = 0 \<Longrightarrow>
    Memory_getFreePage s = Inl (ExitFailure ''no free page'')"
  by (simp add: Memory_getFreePage_def getFreePage_from.simps [of 0 s])

section \<open>The interface: a table of frames\<close>

text \<open>
  What the pager relies on. \<open>view\<close> is the abstract frame table; a page is loadable while it
  exists and is in no frame.
\<close>

locale frame_table =
  fixes inv :: "'s \<Rightarrow> bool"
    and cap :: "'s \<Rightarrow> nat"
    and view :: "'s \<Rightarrow> nat \<Rightarrow> 'v option"
    and loadable :: "'s \<Rightarrow> 'v \<Rightarrow> bool"
    and has_free :: "'s \<Rightarrow> bool"
    and get_free :: "'s \<Rightarrow> 'p res"
    and load :: "'v \<Rightarrow> 'p \<Rightarrow> 's \<Rightarrow> 's res"
    and evict :: "'p \<Rightarrow> 's \<Rightarrow> 's res"
    and num :: "'p \<Rightarrow> nat"
  assumes view_bound: "inv s \<Longrightarrow> view s i = Some v \<Longrightarrow> i < cap s"
    and has_free_iff: "inv s \<Longrightarrow> has_free s \<longleftrightarrow> (\<exists>i < cap s. view s i = None)"
    and get_free: "inv s \<Longrightarrow> has_free s \<Longrightarrow>
      \<exists>p. get_free s = Inr p \<and> num p < cap s \<and> view s (num p) = None \<and> (\<forall>i < num p. view s i \<noteq> None)"
    and load: "inv s \<Longrightarrow> num p < cap s \<Longrightarrow> view s (num p) = None \<Longrightarrow> loadable s v \<Longrightarrow>
      \<exists>s'. load v p s = Inr s' \<and> inv s' \<and> view s' = (view s)(num p \<mapsto> v) \<and> cap s' = cap s"
    and evict: "inv s \<Longrightarrow> view s (num p) = Some v \<Longrightarrow>
      \<exists>s'. evict p s = Inr s' \<and> inv s' \<and> view s' = (view s)(num p := None) \<and> cap s' = cap s
        \<and> loadable s' v \<and> (\<forall>w. loadable s w \<longrightarrow> loadable s' w)"
begin

lemma dom_view: "inv s \<Longrightarrow> dom (view s) \<subseteq> {..<cap s}"
  using view_bound by auto

lemma finite_view: "inv s \<Longrightarrow> finite (dom (view s))"
  using dom_view finite_subset by blast

lemma full_iff: "inv s \<Longrightarrow> \<not> has_free s \<longleftrightarrow> dom (view s) = {..<cap s}"
  using dom_view [of s] by (auto simp: has_free_iff domIff)

text \<open>Filling a free frame uses one more frame.\<close>

lemma fill:
  assumes "inv s" "has_free s" "loadable s v"
  obtains p s' where "get_free s = Inr p" "load v p s = Inr s'" "inv s'"
    "view s' = (view s)(num p \<mapsto> v)" "card (dom (view s')) = Suc (card (dom (view s)))"
proof -
  obtain p where p: "get_free s = Inr p" "num p < cap s" "view s (num p) = None"
    using get_free [OF assms(1,2)] by blast
  obtain s' where "load v p s = Inr s'" "inv s'" "view s' = (view s)(num p \<mapsto> v)"
    using load [OF assms(1) p(2,3) assms(3)] by blast
  moreover from this(3) have "card (dom (view s')) = Suc (card (dom (view s)))"
    using p(3) finite_view [OF assms(1)] by (simp add: domIff)
  ultimately show thesis using p(1) that by blast
qed

text \<open>Replacing the page of a frame keeps the number of frames in use.\<close>

lemma swap:
  assumes "inv s" "view s (num p) = Some w" "loadable s v"
  obtains s1 s' where "evict p s = Inr s1" "load v p s1 = Inr s'" "inv s'"
    "view s' = (view s)(num p \<mapsto> v)" "dom (view s') = dom (view s)"
proof -
  obtain s1 where s1: "evict p s = Inr s1" "inv s1" "view s1 = (view s)(num p := None)"
    "cap s1 = cap s" "loadable s1 v"
    using evict [OF assms(1,2)] assms(3) by blast
  have "num p < cap s1" using view_bound [OF assms(1,2)] s1(4) by simp
  moreover have "view s1 (num p) = None" by (simp add: s1(3))
  ultimately obtain s' where "load v p s1 = Inr s'" "inv s'" "view s' = (view s1)(num p \<mapsto> v)"
    using load [OF s1(2) _ _ s1(5)] by blast
  moreover from this(3) s1(3) have "view s' = (view s)(num p \<mapsto> v)" by simp
  ultimately show thesis using s1(1) that assms(2) by (metis domI dom_fun_upd insert_absorb option.discI)
qed

end

definition page_loadable :: "mstate \<Rightarrow> vaddr \<Rightarrow> bool" where
  "page_loadable s v \<longleftrightarrow> (\<exists>vp. vheap s v = Some vp \<and> \<not> inMemory vp)"

lemma loadPage_law:
  assumes "mem_inv s" "unat p < length (memory s)" "frames s (unat p) = None" "page_loadable s v"
  shows "\<exists>s'. Memory_loadPage (Some v) p s = Inr s' \<and> mem_inv s'
    \<and> frames s' = (frames s)(unat p \<mapsto> v) \<and> length (memory s') = length (memory s)"
proof -
  obtain vp where "vheap s v = Some vp" "\<not> inMemory vp"
    using assms(4) by (auto simp: page_loadable_def)
  with assms show ?thesis
    by (simp add: Memory_loadPage_eq mem_inv_loaded frames_loaded mem_inv_shape)
qed

lemma evictPage_law:
  assumes "mem_inv s" "frames s (unat p) = Some v"
  shows "\<exists>s'. Memory_evictPage p s = Inr s' \<and> mem_inv s'
    \<and> frames s' = (frames s)(unat p := None) \<and> length (memory s') = length (memory s)
    \<and> page_loadable s' v \<and> (\<forall>w. page_loadable s w \<longrightarrow> page_loadable s' w)"
proof -
  obtain vp where "vheap s v = Some vp" "unat p < length (memory s)"
    using assms by (rule frames_resident)
  with assms show ?thesis
    by (simp add: Memory_evictPage_eq mem_inv_evicted frames_evicted mem_inv_shape mem_inv_pool
        page_loadable_def)
qed

interpretation mem: frame_table mem_inv "\<lambda>s. length (memory s)" frames page_loadable
  Memory_hasFreePage Memory_getFreePage "\<lambda>v. Memory_loadPage (Some v)" Memory_evictPage unat
proof unfold_locales
  fix s assume "mem_inv s" "Memory_hasFreePage s"
  then show "\<exists>p. Memory_getFreePage s = Inr p \<and> unat p < length (memory s)
      \<and> frames s (unat p) = None \<and> (\<forall>i < unat p. frames s i \<noteq> None)"
    using getFreePage_eq [of s] by metis
qed (simp_all add: frames_bound hasFreePage_iff loadPage_law evictPage_law)

section \<open>Properties\<close>

text \<open>A small memory for the examples: 32 frames and one page, which is in no frame.\<close>

definition demo_page :: VPage where
  "demo_page = \<lparr>vpn = 7, vp_pid = 1, overhead = Val (Some 0), inMemory = False, currentPPN = Indet\<rparr>"

definition demo_memory :: mstate where
  "demo_memory = initialised 32 (boot_memory True)\<lparr>vheap := [0 \<mapsto> demo_page], vnext := 1\<rparr>"

lemma demo_memory_sel [simp]:
  "vheap demo_memory = [0 \<mapsto> demo_page]" "vnext demo_memory = 1" "zeroed demo_memory"
  "length (memory demo_memory) = 32" "frames demo_memory = (\<lambda>_. None)" "\<not> inMemory demo_page"
  "vp_pid demo_page = 1" "overhead demo_page = Val (Some 0)" "vpn demo_page = 7"
proof -
  show "frames demo_memory = (\<lambda>_. None)"
    using frames_cong [of demo_memory "initialised 32 (boot_memory True)"]
    by (simp add: demo_memory_def)
qed (simp_all add: demo_memory_def demo_page_def initialised_def boot_memory_def)

lemma demo_memory_inv: "mem_inv demo_memory"
proof -
  have shape: "mem_shape (initialised 32 (boot_memory True))" by (simp add: mem_shape_initialised_iff)
  have "mem_shape demo_memory" using shape by (simp add: demo_memory_def mem_shape_def)
  moreover have "mem_pool demo_memory"
    using not_fl_taken_zeros [of 1] by (simp add: mem_pool_def) (simp add: demo_memory_def initialised_def)
  moreover have "mem_links demo_memory" by (intro mem_linksI) (auto split: if_splits)
  ultimately show ?thesis by (rule mem_invI)
qed

lemma demo_memory_free: "Memory_hasFreePage demo_memory"
proof -
  have "0 < length (memory demo_memory) \<and> frames demo_memory 0 = None" by simp
  then show ?thesis unfolding hasFreePage_iff [OF demo_memory_inv] by blast
qed

lemma demo_memory_loaded: "mem_inv (loaded 0 demo_page 3 demo_memory)"
  "frames (loaded 0 demo_page 3 demo_memory) = [3 \<mapsto> 0]"
  using demo_memory_inv mem_inv_loaded [of demo_memory 3 0 demo_page] frames_loaded [of 3 demo_memory 0 demo_page]
  by simp_all

text \<open>
  C29: Loading a page into a free frame updates the frame table at that frame and nowhere else,
  keeps the invariant, and marks the page as in memory in that frame.
\<close>

theorem loadPage_refines:
  assumes "mem_inv s" "unat p < length (memory s)" "frames s (unat p) = None"
    and "vheap s v = Some vp" "\<not> inMemory vp"
  shows "\<exists>s'. Memory_loadPage (Some v) p s = Inr s' \<and> mem_inv s' \<and> frames s' = (frames s)(unat p \<mapsto> v)
    \<and> vheap s' = (vheap s)(v \<mapsto> vp\<lparr>inMemory := True, currentPPN := Val p\<rparr>)"
  using Memory_loadPage_eq [OF mem_inv_shape [OF assms(1)] assms(2-4)] mem_inv_loaded [OF assms]
    frames_loaded [OF assms(2), of v vp] by simp

lemma loadPage_refines_witness:
  "\<exists>s'. Memory_loadPage (Some 0) 3 demo_memory = Inr s' \<and> mem_inv s' \<and> frames s' = [3 \<mapsto> 0]"
  using loadPage_refines [of demo_memory 3 0 demo_page] demo_memory_inv by auto

text \<open>
  C30: Evicting a frame in use empties that frame and no other, keeps the invariant, and the page
  is no longer in memory; the failsafe of the code is never reached.
\<close>

theorem evictPage_refines:
  assumes "mem_inv s" "frames s (unat p) = Some v"
  shows "\<exists>s'. Memory_evictPage p s = Inr s' \<and> mem_inv s' \<and> frames s' = (frames s)(unat p := None)
    \<and> stderr_log s' = stderr_log s \<and> (\<exists>vp. vheap s' v = Some vp \<and> \<not> inMemory vp)"
proof -
  obtain vp where vp: "vheap s v = Some vp" "unat p < length (memory s)"
    using assms by (rule frames_resident)
  with assms show ?thesis
    by (simp add: Memory_evictPage_eq mem_inv_evicted frames_evicted mem_inv_shape mem_inv_pool)
qed

lemma evictPage_refines_witness:
  "\<exists>s'. Memory_evictPage 3 (loaded 0 demo_page 3 demo_memory) = Inr s' \<and> mem_inv s' \<and> frames s' = (\<lambda>_. None)"
  using evictPage_refines [of "loaded 0 demo_page 3 demo_memory" 3 0] demo_memory_loaded by auto

text \<open>
  C31: While a frame is free, \<open>Memory_getFreePage\<close> returns the free frame with the least number:
  the scan of the bit vector in chunks of 32, with \<open>bv_ffz\<close> on each, is a search of the frame table.
\<close>

theorem getFreePage_least:
  assumes "mem_inv s" "Memory_hasFreePage s"
  shows "\<exists>p. Memory_getFreePage s = Inr p \<and> unat p < length (memory s)
    \<and> frames s (unat p) = None \<and> (\<forall>i < unat p. frames s i \<noteq> None)"
  using getFreePage_eq [OF assms] by metis

lemma getFreePage_least_witness:
  "\<exists>p. Memory_getFreePage demo_memory = Inr p \<and> (\<forall>i < unat p. frames demo_memory i \<noteq> None)"
  using getFreePage_least [OF demo_memory_inv demo_memory_free] by blast

text \<open>\<open>Memory_hasFreePage\<close>, which compares two counters, tells whether a frame is free.\<close>

theorem hasFreePage_exact:
  assumes "mem_inv s"
  shows "Memory_hasFreePage s \<longleftrightarrow> (\<exists>i < length (memory s). frames s i = None)"
  using assms by (rule hasFreePage_iff)

lemma hasFreePage_exact_witness: "Memory_hasFreePage demo_memory"
proof -
  have "0 < length (memory demo_memory) \<and> frames demo_memory 0 = None" by simp
  then show ?thesis unfolding hasFreePage_exact [OF demo_memory_inv] by blast
qed

text \<open>
  C39: The free list that \<open>Memory_init\<close> allocates has a chunk for every frame exactly when the number of frames is a
  multiple of 32, as it is the number divided by 32 and rounded down; for a positive multiple of 32 and
  an empty heap of pages the memory it sets up satisfies the invariant.
\<close>

theorem init_needs_multiple_of_32:
  assumes "Memory_init n s = Inr s'"
  shows "((\<forall>p < n. unat (bv_ind p) < length (freelist s')) \<longleftrightarrow> n mod 32 = 0)
    \<and> (0 < n \<longrightarrow> n mod 32 = 0 \<longrightarrow> vheap s = (\<lambda>_. None) \<longrightarrow> mem_inv s')"
proof -
  have s': "s' = initialised n s" using assms by (simp add: Memory_init_eq)
  then have len: "length (freelist s') = unat n div 32" by (simp add: initialised_def unat_div)
  have dvd: "n mod 32 = 0 \<longleftrightarrow> unat n mod 32 = 0" by (simp add: word_unat_eq_iff unat_mod)
  have "(\<forall>p < n. unat (bv_ind p) < length (freelist s')) \<longleftrightarrow> unat n mod 32 = 0"
  proof
    assume chunks: "\<forall>p < n. unat (bv_ind p) < length (freelist s')"
    show "unat n mod 32 = 0"
    proof (cases "n = 0")
      case False
      then have "n - 1 < n" "unat (n - 1) = unat n - 1"
        using unat_minus_one_pos [of n] by (simp_all add: word_less_nat_alt unat_gt_0 word_gt_0)
      with chunks len have "(unat n - 1) div 32 < unat n div 32" by auto
      then show ?thesis by (cases "unat n") (simp_all add: div_Suc split: if_splits)
    qed simp
  next
    assume "unat n mod 32 = 0"
    then have "unat n div 32 * 32 = unat n" by (metis add.right_neutral div_mult_mod_eq)
    then have "unat p < unat n \<Longrightarrow> unat p div 32 < unat n div 32" for p :: ul64
      by (intro less_mult_imp_div_less) simp
    then show "\<forall>p < n. unat (bv_ind p) < length (freelist s')" by (simp add: len word_less_nat_alt)
  qed
  moreover have "0 < n \<longrightarrow> n mod 32 = 0 \<longrightarrow> vheap s = (\<lambda>_. None) \<longrightarrow> mem_inv s'"
    unfolding s' by (intro impI mem_inv_initialised)
  ultimately show ?thesis by (simp only: dvd simp_thms)
qed

lemma init_needs_multiple_of_32_witness:
  "\<exists>s' s''. Memory_init 100 (boot_memory True) = Inr s' \<and> (\<exists>p < 100. length (freelist s') \<le> unat (bv_ind p))
     \<and> Memory_init 64 (boot_memory True) = Inr s'' \<and> mem_inv s''"
proof -
  obtain s' s'' where "Memory_init 100 (boot_memory True) = Inr s'" "Memory_init 64 (boot_memory True) = Inr s''"
    by (simp add: Memory_init_eq)
  moreover have "(100 :: ul64) mod 32 \<noteq> 0" "(64 :: ul64) mod 32 = 0" "vheap (boot_memory True) = (\<lambda>_. None)"
    by (simp_all add: boot_memory_def)
  ultimately show ?thesis
    using init_needs_multiple_of_32 [of 100 "boot_memory True" s'] init_needs_multiple_of_32 [of 64 "boot_memory True" s'']
    by (force simp: not_less)
qed

text \<open>
  C40: A frame behind the last full chunk of 32 has no bit in the free list: loading a page into
  it writes outside the array.
\<close>

theorem load_overruns_freelist:
  assumes "32 * unat (n div 32) \<le> unat p" "p < n" "vheap s v = Some vp"
  shows "bnd (Memory_init n s) (Memory_loadPage (Some v) p) = Inl OutOfBounds"
proof -
  have "vheap s v = Some vp \<Longrightarrow> Memory_loadPage (Some v) p (initialised n s) = Inl OutOfBounds"
    using assms by (intro loadPage_beyond_freelist)
  with assms(3) show ?thesis by (simp add: Memory_init_eq)
qed

lemma load_overruns_freelist_witness:
  "bnd (Memory_init 100 (boot_memory True\<lparr>vheap := [0 \<mapsto> demo_page]\<rparr>)) (Memory_loadPage (Some 0) 97) = Inl OutOfBounds"
  using load_overruns_freelist [of 100 97 "boot_memory True\<lparr>vheap := [0 \<mapsto> demo_page]\<rparr>" 0 demo_page] by simp

text \<open>
  With fewer than 32 frames the free list is empty: \<open>Memory_hasFreePage\<close> says that there is a
  free frame, and \<open>Memory_getFreePage\<close> ends the program because it finds none.
\<close>

theorem few_frames_exit:
  assumes "0 < n" "n < 32" "Memory_init n s = Inr s'"
  shows "Memory_hasFreePage s' \<and> Memory_getFreePage s' = Inl (ExitFailure ''no free page'')"
proof -
  have s': "s' = initialised n s" using assms(3) by (simp add: Memory_init_eq)
  have "unat n < 32" using assms(2) by (simp add: word_less_nat_alt)
  then have "n div 32 = 0" by (simp add: unat_eq_0 [symmetric] unat_div del: unat_eq_0)
  with assms(1) getFreePage_from_small [of s'] show ?thesis
    by (simp add: s' Memory_hasFreePage_def initialised_def)
qed

lemma few_frames_exit_witness:
  "Memory_getFreePage (initialised 16 (boot_memory True)) = Inl (ExitFailure ''no free page'')"
  using few_frames_exit [of 16 "boot_memory True"] by (simp add: Memory_init_eq)

text \<open>
  C34: \<open>bv_ffz\<close> returns the position, from the most significant end, of the first zero bit of a
  chunk, and a negative number when there is none.
\<close>

theorem ffz_first_zero:
  "if \<exists>k < 32. \<not> bit c (31 - k)
   then bv_ffz c = int (LEAST k. k < 32 \<and> \<not> bit c (31 - k)) else bv_ffz c = -1"
proof (cases "bv_ffz c < 0")
  case True
  then have "bv_ffz c = -1" by (auto simp: bv_ffz_def split: if_splits)
  moreover have "\<forall>k < 32. bit c (31 - k)" using True by (simp only: bv_ffz_full)
  ultimately show ?thesis by auto
next
  case False
  then obtain k where k: "bv_ffz c = int k" "k < 32" "\<not> bit c (31 - k)" "\<forall>j < k. bit c (31 - j)"
    by (rule bv_ffz_first)
  then have "(LEAST k. k < 32 \<and> \<not> bit c (31 - k)) = k"
    by (intro Least_equality) (auto simp: not_less [symmetric])
  with k show ?thesis by auto
qed

end
