(* ===== verification/Replace.thy ===== *)
theory Replace
  imports MemoryInv
begin

text \<open>
  The replacement module's interface (\<open>replace.h\<close>), the constructor and destructor of virtual
  pages, which call it (\<open>memory.c\<close>), and the pager: bringing a page into memory, with an
  eviction when memory is full. A build links exactly one replacement module; the model passes
  the linked module's operations as a record.
\<close>

section \<open>The operations of a replacement module\<close>

record 'r replace_ops =
  replace_boot :: 'r
  Replace_initReplacementModule :: "int \<Rightarrow> 'r \<Rightarrow> 'r"
  Replace_initOverhead :: "vaddr \<Rightarrow> mstate \<Rightarrow> 'r \<Rightarrow> (oaddr option \<times> 'r) res"
  Replace_freeOverhead :: "oaddr option \<Rightarrow> 'r \<Rightarrow> 'r res"
  Replace_notifyPageAccess :: "oaddr option \<Rightarrow> mstate \<Rightarrow> 'r \<Rightarrow> 'r res"
  Replace_notifyPageLoad :: "oaddr option \<Rightarrow> mstate \<Rightarrow> 'r \<Rightarrow> 'r res"
  Replace_getPageToEvict :: "mstate \<Rightarrow> 'r \<Rightarrow> (ul64 \<times> 'r) res"

section \<open>Virtual pages\<close>

text \<open>The page as \<open>malloc\<close> and the first assignments leave it.\<close>

definition fresh_page :: "bool \<Rightarrow> ul64 \<Rightarrow> ul64 \<Rightarrow> VPage" where
  "fresh_page z p n = \<lparr>vpn = n, vp_pid = p, overhead = malloc_val z None,
     inMemory = False, currentPPN = Indet\<rparr>"

definition put_page :: "vaddr \<Rightarrow> VPage \<Rightarrow> mstate \<Rightarrow> mstate" where
  "put_page v vp s = s\<lparr>vheap := (vheap s)(v \<mapsto> vp), vnext := max (vnext s) (Suc v)\<rparr>"

definition drop_page :: "vaddr \<Rightarrow> mstate \<Rightarrow> mstate" where
  "drop_page v s = s\<lparr>vheap := (vheap s)(v := None)\<rparr>"

definition VPage_init ::
  "'r replace_ops \<Rightarrow> ul64 \<Rightarrow> ul64 \<Rightarrow> mstate \<Rightarrow> 'r \<Rightarrow> (vaddr \<times> mstate \<times> 'r) res" where
  "VPage_init ops p n s r =
     (let v = vnext s;
          new = fresh_page (zeroed s) p n;
          s1 = put_page v new s
      in if p \<noteq> 0
         then bnd (Replace_initOverhead ops v s1 r) (\<lambda>(ov, r').
              Inr (v, put_page v (new\<lparr>overhead := Val ov\<rparr>) s1, r'))
         else Inr (v, put_page v (new\<lparr>overhead := Val None\<rparr>) s1, r))"

definition VPage_free :: "'r replace_ops \<Rightarrow> vaddr \<Rightarrow> mstate \<Rightarrow> 'r \<Rightarrow> (mstate \<times> 'r) res" where
  "VPage_free ops v s r =
     bnd (deref (vheap s) v) (\<lambda>vp.
     bnd (if inMemory vp then bnd (rd (currentPPN vp)) (\<lambda>p. Memory_evictPage p s) else Inr s) (\<lambda>s1.
     bnd (deref (vheap s1) v) (\<lambda>vp1.
     bnd (rd (overhead vp1)) (\<lambda>ov.
     bnd (if ov \<noteq> None then Replace_freeOverhead ops ov r else Inr r) (\<lambda>r'.
     Inr (drop_page v s1, r'))))))"

text \<open>
  The part of \<open>Simulator_finishCurrentDiskIO\<close> that moves the page: into a free frame if there
  is one, else into the frame the replacement module gives up.
\<close>

definition page_in ::
  "'r replace_ops \<Rightarrow> vaddr option \<Rightarrow> mstate \<Rightarrow> 'r \<Rightarrow> (mstate \<times> 'r) res" where
  "page_in ops vptr s r =
     bnd (if Memory_hasFreePage s
          then bnd (Memory_getFreePage s) (\<lambda>p. Inr (p, s, r))
          else bnd (Replace_getPageToEvict ops s r) (\<lambda>(p, r1).
               bnd (Memory_evictPage p s) (\<lambda>s1. Inr (p, s1, r1)))) (\<lambda>(p, s1, r1).
     bnd (Memory_loadPage vptr p s1) (\<lambda>s2.
     bnd (nonnull vptr) (\<lambda>v.
     bnd (deref (vheap s2) v) (\<lambda>vp.
     bnd (rd (overhead vp)) (\<lambda>ov.
     bnd (Replace_notifyPageLoad ops ov s2 r1) (\<lambda>r2.
     Inr (s2, r2)))))))"

section \<open>Pages under management\<close>

text \<open>
  Pages of a real process have a non-zero pid; the pages with pid 0 are the queries the page
  table allocates, which the replacement module never sees.
\<close>

definition managed :: "mstate \<Rightarrow> vaddr \<Rightarrow> VPage option" where
  "managed s v = (case vheap s v of None \<Rightarrow> None | Some vp \<Rightarrow> if vp_pid vp = 0 then None else Some vp)"

text \<open>What no operation of the pager changes about a page: its identity and its overhead.\<close>

definition page_id :: "mstate \<Rightarrow> vaddr \<Rightarrow> (ul64 \<times> ul64 \<times> oaddr option cval) option" where
  "page_id s v = map_option (\<lambda>vp. (vp_pid vp, vpn vp, overhead vp)) (vheap s v)"

lemma managed_Some: "managed s v = Some vp \<longleftrightarrow> vheap s v = Some vp \<and> vp_pid vp \<noteq> 0"
  by (auto simp: managed_def split: option.splits)

lemma put_page_sel [simp]:
  "vheap (put_page v vp s) = (vheap s)(v \<mapsto> vp)"
  "vnext (put_page v vp s) = max (vnext s) (Suc v)" "zeroed (put_page v vp s) = zeroed s"
  "memory (put_page v vp s) = memory s" "mem_size (put_page v vp s) = mem_size s"
  "allocated (put_page v vp s) = allocated s" "freelist (put_page v vp s) = freelist s"
  by (simp_all add: put_page_def)

lemma put_page_twice [simp]: "put_page v y (put_page v x s) = put_page v y s"
  by (simp add: put_page_def)

lemma drop_page_sel [simp]:
  "vheap (drop_page v s) = (vheap s)(v := None)"
  "vnext (drop_page v s) = vnext s" "zeroed (drop_page v s) = zeroed s"
  "memory (drop_page v s) = memory s" "mem_size (drop_page v s) = mem_size s"
  "allocated (drop_page v s) = allocated s" "freelist (drop_page v s) = freelist s"
  by (simp_all add: drop_page_def)

lemma frames_put_page [simp]: "frames (put_page v vp s) = frames s"
  by (rule frames_cong) simp

lemma frames_drop_page [simp]: "frames (drop_page v s) = frames s"
  by (rule frames_cong) simp

lemma managed_upd:
  "managed (put_page v vp s) = (managed s)(v := if vp_pid vp = 0 then None else Some vp)"
  "managed (drop_page v s) = (managed s)(v := None)"
  by (rule ext, simp add: managed_def)+

lemma managed_loaded:
  "managed (loaded v vp p s) = (managed s)(v :=
     if vp_pid vp = 0 then None else Some (vp\<lparr>inMemory := True, currentPPN := Val p\<rparr>))"
  by (rule ext) (simp add: managed_def)

lemma managed_evicted:
  "managed (evicted v vp p s) = (managed s)(v :=
     if vp_pid vp = 0 then None else Some (vp\<lparr>inMemory := False\<rparr>))"
  by (rule ext) (simp add: managed_def)

lemma page_id_moved:
  assumes "vheap s v = Some vp"
  shows "page_id (loaded v vp p s) = page_id s" "page_id (evicted v vp p s) = page_id s"
  using assms by (auto simp: page_id_def)

lemma mem_inv_put_page:
  assumes "mem_inv s" "vheap s v = None" "\<not> inMemory vp"
  shows "mem_inv (put_page v vp s)"
proof (rule mem_invI)
  show "mem_shape (put_page v vp s)" using mem_inv_shape [OF assms(1)] by (simp add: mem_shape_def)
  show "mem_pool (put_page v vp s)" using mem_inv_pool [OF assms(1)] by (simp add: mem_pool_def)
  show "mem_links (put_page v vp s)"
  proof (rule mem_linksI)
    fix i w assume "frames (put_page v vp s) i = Some w"
    then show "\<exists>x. vheap (put_page v vp s) w = Some x \<and> inMemory x \<and> currentPPN x = Val (of_nat i)"
      using mem_links_frame [OF mem_inv_links [OF assms(1)], of i w] assms(2) by auto
  next
    fix w x assume "vheap (put_page v vp s) w = Some x" "inMemory x"
    then show "\<exists>i. frames (put_page v vp s) i = Some w"
      using mem_links_page [OF mem_inv_links [OF assms(1)], of w x] assms(3) by (auto split: if_splits)
  qed (use mem_links_fresh [OF mem_inv_links [OF assms(1)]] in auto)
qed

lemma mem_inv_drop_page:
  assumes "mem_inv s" "\<And>vp. vheap s v = Some vp \<Longrightarrow> \<not> inMemory vp"
  shows "mem_inv (drop_page v s)"
proof (rule mem_invI)
  show "mem_shape (drop_page v s)" using mem_inv_shape [OF assms(1)] by (simp add: mem_shape_def)
  show "mem_pool (drop_page v s)" using mem_inv_pool [OF assms(1)] by (simp add: mem_pool_def)
  show "mem_links (drop_page v s)"
  proof (rule mem_linksI)
    fix i w assume *: "frames (drop_page v s) i = Some w"
    then obtain x where "vheap s w = Some x" "inMemory x" "currentPPN x = Val (of_nat i)"
      using mem_links_frame [OF mem_inv_links [OF assms(1)], of i w] by auto
    with assms(2) show "\<exists>x. vheap (drop_page v s) w = Some x \<and> inMemory x \<and> currentPPN x = Val (of_nat i)"
      by auto
  next
    fix w x assume "vheap (drop_page v s) w = Some x" "inMemory x"
    then show "\<exists>i. frames (drop_page v s) i = Some w"
      using mem_links_page [OF mem_inv_links [OF assms(1)], of w x] by (auto split: if_splits)
  qed (use mem_links_fresh [OF mem_inv_links [OF assms(1)]] in auto)
qed

end
