(* ===== verification/ReplacePolicy.thy ===== *)
theory ReplacePolicy
  imports Replace
begin

text \<open>
  What the pager promises to a replacement module and what it relies on. The contract is a
  locale over the operations of the linked module; its laws say that every call made on the
  paths of the pager succeeds and keeps the module's own invariant \<open>rinv\<close>, and that the frame
  it gives up is in use. The pager's own operations are proved correct once, under it.
\<close>

section \<open>The contract of a replacement module\<close>

text \<open>The state after \<open>VPage_free\<close>: the page leaves its frame, if it has one, and the heap.\<close>

definition freed :: "vaddr \<Rightarrow> VPage \<Rightarrow> mstate \<Rightarrow> mstate" where
  "freed v vp s = drop_page v
     (case currentPPN vp of Val p \<Rightarrow> if inMemory vp then evicted v vp p s else s | Indet \<Rightarrow> s)"

locale replacement_module =
  fixes ops :: "'r replace_ops"
    and rinv :: "mstate \<Rightarrow> 'r \<Rightarrow> bool"
  assumes rinv_init: "0 < n \<Longrightarrow> unat n < 2 ^ 31 \<Longrightarrow> vheap s = (\<lambda>_. None) \<Longrightarrow>
      rinv (initialised n s) (Replace_initReplacementModule ops (int (unat n)) (replace_boot ops))"
    and rinv_frame: "rinv s r \<Longrightarrow> frames s' = frames s \<Longrightarrow> managed s' = managed s \<Longrightarrow>
      length (memory s') = length (memory s) \<Longrightarrow> rinv s' r"
    and rinv_overhead: "rinv s r \<Longrightarrow> managed s v = Some vp \<Longrightarrow> \<exists>ov. overhead vp = Val ov"
    and rinv_new: "mem_inv s \<Longrightarrow> rinv s r \<Longrightarrow> zeroed s \<Longrightarrow> vheap s v = None \<Longrightarrow> pid \<noteq> 0 \<Longrightarrow>
      new = fresh_page True pid n \<Longrightarrow>
      \<exists>ov r'. Replace_initOverhead ops v (put_page v new s) r = Inr (ov, r')
        \<and> rinv (put_page v (new\<lparr>overhead := Val ov\<rparr>) s) r'"
    and rinv_load: "mem_inv s \<Longrightarrow> rinv s r \<Longrightarrow> managed s v = Some vp \<Longrightarrow> \<not> inMemory vp \<Longrightarrow>
      unat p < length (memory s) \<Longrightarrow> frames s (unat p) = None \<Longrightarrow> overhead vp = Val ov \<Longrightarrow>
      \<exists>r'. Replace_notifyPageLoad ops ov (loaded v vp p s) r = Inr r' \<and> rinv (loaded v vp p s) r'"
    and rinv_access: "mem_inv s \<Longrightarrow> rinv s r \<Longrightarrow> managed s v = Some vp \<Longrightarrow> inMemory vp \<Longrightarrow>
      overhead vp = Val ov \<Longrightarrow>
      \<exists>r'. Replace_notifyPageAccess ops ov s r = Inr r' \<and> rinv s r'"
    and rinv_evict: "mem_inv s \<Longrightarrow> rinv s r \<Longrightarrow> \<not> Memory_hasFreePage s \<Longrightarrow>
      \<exists>p r' v vp. Replace_getPageToEvict ops s r = Inr (p, r') \<and> frames s (unat p) = Some v
        \<and> managed s v = Some vp \<and> rinv (evicted v vp p s) r'"
    and rinv_free: "mem_inv s \<Longrightarrow> rinv s r \<Longrightarrow> managed s v = Some vp \<Longrightarrow> overhead vp = Val (Some a) \<Longrightarrow>
      \<exists>r'. Replace_freeOverhead ops (Some a) r = Inr r' \<and> rinv (freed v vp s) r'"
    and rinv_free_none: "mem_inv s \<Longrightarrow> rinv s r \<Longrightarrow> managed s v = Some vp \<Longrightarrow> overhead vp = Val None \<Longrightarrow>
      rinv (freed v vp s) r"
begin

section \<open>The pager under the contract\<close>

text \<open>Allocating a page for a process.\<close>

lemma VPage_init_managed:
  assumes "mem_inv s" "rinv s r" "zeroed s" "pid \<noteq> 0"
  obtains s' r' ov where "VPage_init ops pid n s r = Inr (vnext s, s', r')"
    "s' = put_page (vnext s) \<lparr>vpn = n, vp_pid = pid, overhead = Val ov,
       inMemory = False, currentPPN = Indet\<rparr> s"
    "mem_inv s'" "rinv s' r'"
proof -
  let ?v = "vnext s" and ?new = "fresh_page True pid n"
  have fresh: "vheap s ?v = None"
    using mem_links_fresh [OF mem_inv_links [OF assms(1)]] by simp
  obtain ov r' where new: "Replace_initOverhead ops ?v (put_page ?v ?new s) r = Inr (ov, r')"
    "rinv (put_page ?v (?new\<lparr>overhead := Val ov\<rparr>) s) r'"
    using rinv_new [OF assms(1,2,3) fresh assms(4) refl] by blast
  moreover have "mem_inv (put_page ?v (?new\<lparr>overhead := Val ov\<rparr>) s)"
    using assms(1) fresh by (rule mem_inv_put_page) (simp add: fresh_page_def)
  ultimately show thesis
    using that assms(3,4) by (simp add: VPage_init_def Let_def fresh_page_def)
qed

text \<open>The query page of a lookup is invisible to the module.\<close>

lemma VPage_init_query:
  assumes "mem_inv s" "rinv s r"
  obtains s' q where "VPage_init ops 0 n s r = Inr (vnext s, s', r)"
    "s' = put_page (vnext s) q s" "vp_pid q = 0" "overhead q = Val None" "\<not> inMemory q"
    "vpn q = n" "mem_inv s'" "rinv s' r" "managed s' = managed s"
proof -
  let ?q = "fresh_page (zeroed s) 0 n\<lparr>overhead := Val None\<rparr>"
  let ?s' = "put_page (vnext s) ?q s"
  have fresh: "vheap s (vnext s) = None"
    using mem_links_fresh [OF mem_inv_links [OF assms(1)]] by simp
  then have m: "managed ?s' = managed s"
    by (simp add: managed_upd fun_upd_idem managed_def fresh_page_def)
  have "mem_inv ?s'"
    using assms(1) fresh by (rule mem_inv_put_page) (simp add: fresh_page_def)
  moreover have "rinv ?s' r" using assms(2) by (rule rinv_frame) (simp_all add: m)
  ultimately show thesis
    using that [of ?s' ?q] m by (simp add: VPage_init_def Let_def fresh_page_def)
qed

text \<open>A hit: the module is told, and memory does not change.\<close>

lemma access:
  assumes "mem_inv s" "rinv s r" "managed s v = Some vp" "inMemory vp"
  obtains ov r' where "overhead vp = Val ov" "Replace_notifyPageAccess ops ov s r = Inr r'" "rinv s r'"
  using rinv_overhead [OF assms(2,3)] rinv_access [OF assms] that by blast

text \<open>Loading into a frame that is free.\<close>

lemma load_notify:
  assumes "mem_inv s" "rinv s r" "managed s v = Some vp" "\<not> inMemory vp"
    and "unat p < length (memory s)" "frames s (unat p) = None"
  obtains ov r' where "overhead vp = Val ov" "Memory_loadPage (Some v) p s = Inr (loaded v vp p s)"
    "Replace_notifyPageLoad ops ov (loaded v vp p s) r = Inr r'"
    "mem_inv (loaded v vp p s)" "rinv (loaded v vp p s) r'"
proof -
  obtain ov where ov: "overhead vp = Val ov" using rinv_overhead [OF assms(2,3)] by blast
  from assms(3) have vp: "vheap s v = Some vp" by (simp add: managed_Some)
  show thesis
    using rinv_load [OF assms ov] Memory_loadPage_eq [OF mem_inv_shape [OF assms(1)] assms(5,6) vp]
      mem_inv_loaded [OF assms(1,5,6) vp assms(4)] ov that by blast
qed

text \<open>
  A fault is always served: whatever the module gives up is evicted, the page ends up in a
  frame, and both invariants hold again.
\<close>

lemma page_in_free:
  assumes "mem_inv s" "rinv s r" "managed s v = Some vp" "\<not> inMemory vp" "Memory_hasFreePage s"
  obtains p r' ov where "page_in ops (Some v) s r = Inr (loaded v vp p s, r')"
    "Memory_getFreePage s = Inr p" "frames s (unat p) = None" "unat p < length (memory s)"
    "overhead vp = Val ov" "Replace_notifyPageLoad ops ov (loaded v vp p s) r = Inr r'"
    "mem_inv (loaded v vp p s)" "rinv (loaded v vp p s) r'"
proof -
  obtain p where p: "Memory_getFreePage s = Inr p" "unat p < length (memory s)" "frames s (unat p) = None"
    using assms(1,5) by (rule getFreePage_eq)
  obtain ov r' where ld: "overhead vp = Val ov" "Memory_loadPage (Some v) p s = Inr (loaded v vp p s)"
    "Replace_notifyPageLoad ops ov (loaded v vp p s) r = Inr r'"
    "mem_inv (loaded v vp p s)" "rinv (loaded v vp p s) r'"
    using assms(1-4) p(2,3) by (rule load_notify)
  have "page_in ops (Some v) s r = Inr (loaded v vp p s, r')"
    using ld(1-3) p(1) assms(5) by (simp add: page_in_def)
  then show thesis using p ld that by blast
qed

lemma page_in_evict:
  assumes "mem_inv s" "rinv s r" "managed s v = Some vp" "\<not> inMemory vp" "\<not> Memory_hasFreePage s"
  obtains p w wp s1 r1 r' ov where "page_in ops (Some v) s r = Inr (loaded v vp p s1, r')"
    "Replace_getPageToEvict ops s r = Inr (p, r1)"
    "frames s (unat p) = Some w" "managed s w = Some wp" "s1 = evicted w wp p s" "w \<noteq> v"
    "managed s1 v = Some vp" "rinv s1 r1"
    "overhead vp = Val ov" "Replace_notifyPageLoad ops ov (loaded v vp p s1) r1 = Inr r'"
    "mem_inv (loaded v vp p s1)" "rinv (loaded v vp p s1) r'"
proof -
  obtain p r1 w wp where ev: "Replace_getPageToEvict ops s r = Inr (p, r1)"
    "frames s (unat p) = Some w" "managed s w = Some wp" "rinv (evicted w wp p s) r1"
    using rinv_evict [OF assms(1,2,5)] by blast
  let ?s1 = "evicted w wp p s"
  have wp: "vheap s w = Some wp" using ev(3) by (simp add: managed_Some)
  have len: "unat p < length (memory s)" using ev(2) by (rule frames_bound)
  have s1: "Memory_evictPage p s = Inr ?s1" "mem_inv ?s1"
    using Memory_evictPage_eq [OF mem_inv_shape [OF assms(1)] mem_inv_pool [OF assms(1)] len ev(2) wp]
      mem_inv_evicted [OF assms(1) len ev(2) wp] by simp_all
  have "inMemory wp"
    using mem_links_frame [OF mem_inv_links [OF assms(1)] ev(2)] wp by simp
  with assms(3,4) wp have ne: "w \<noteq> v" by (auto simp: managed_Some)
  with assms(3) have m: "managed ?s1 v = Some vp" by (simp add: managed_evicted)
  have free: "unat p < length (memory ?s1)" "frames ?s1 (unat p) = None"
    by (simp_all add: len frames_evicted [OF len])
  obtain ov r' where ld: "overhead vp = Val ov" "Memory_loadPage (Some v) p ?s1 = Inr (loaded v vp p ?s1)"
    "Replace_notifyPageLoad ops ov (loaded v vp p ?s1) r1 = Inr r'"
    "mem_inv (loaded v vp p ?s1)" "rinv (loaded v vp p ?s1) r'"
    using s1(2) ev(4) m assms(4) free by (rule load_notify)
  have "page_in ops (Some v) s r = Inr (loaded v vp p ?s1, r')"
    using ld(1-3) assms(5) ev(1) s1(1) by (simp add: page_in_def)
  then show thesis using ev ne m ld that by blast
qed

lemma page_in_ok:
  assumes "mem_inv s" "rinv s r" "managed s v = Some vp" "\<not> inMemory vp"
  obtains s' r' and p :: ul64 where "page_in ops (Some v) s r = Inr (s', r')" "mem_inv s'" "rinv s' r'"
    "frames s' (unat p) = Some v" "page_id s' = page_id s" "vnext s' = vnext s" "zeroed s' = zeroed s"
    "\<forall>i w. frames s' i = Some w \<longrightarrow> w = v \<or> frames s i = Some w"
    "length (memory s') = length (memory s)"
proof (cases "Memory_hasFreePage s")
  case True
  from assms(3) have vp: "vheap s v = Some vp" by (simp add: managed_Some)
  obtain p r' where pi: "page_in ops (Some v) s r = Inr (loaded v vp p s, r')"
    "unat p < length (memory s)" "mem_inv (loaded v vp p s)" "rinv (loaded v vp p s) r'"
    using assms True by (rule page_in_free)
  then have fr: "frames (loaded v vp p s) = (frames s)(unat p \<mapsto> v)" by (simp add: frames_loaded)
  then show thesis
    by (intro that [OF pi(1,3,4), of p]) (auto simp: page_id_moved [OF vp] split: if_splits)
next
  case False
  from assms(3) have vp: "vheap s v = Some vp" by (simp add: managed_Some)
  obtain p w wp s1 r1 r' where pi: "page_in ops (Some v) s r = Inr (loaded v vp p s1, r')"
    "frames s (unat p) = Some w" "managed s w = Some wp" "s1 = evicted w wp p s" "w \<noteq> v"
    "mem_inv (loaded v vp p s1)" "rinv (loaded v vp p s1) r'"
    using assms False by (rule page_in_evict)
  have "vheap s1 v = Some vp" using vp pi(4,5) by simp
  then have id: "page_id (loaded v vp p s1) = page_id s"
    using pi(3,4) by (simp add: page_id_moved managed_Some)
  have fr: "frames (loaded v vp p s1) = (frames s)(unat p \<mapsto> v)"
    using frames_bound [OF pi(2)] pi(4) by (simp add: frames_loaded frames_evicted)
  show thesis
    using id fr pi(4) by (intro that [OF pi(1,6,7), of p]) (auto split: if_splits)
qed

text \<open>Freeing a page of a process.\<close>

lemma VPage_free_managed:
  assumes "mem_inv s" "rinv s r" "managed s v = Some vp"
  obtains r' where "VPage_free ops v s r = Inr (freed v vp s, r')"
    "mem_inv (freed v vp s)" "rinv (freed v vp s) r'"
proof -
  obtain ov where ov: "overhead vp = Val ov" using rinv_overhead [OF assms(2,3)] by blast
  from assms(3) have vp: "vheap s v = Some vp" by (simp add: managed_Some)
  define s1 where "s1 = (if inMemory vp then evicted v vp (case currentPPN vp of Val p \<Rightarrow> p) s else s)"
  have s1: "bnd (deref (vheap s) v) (\<lambda>vp. if inMemory vp
        then bnd (rd (currentPPN vp)) (\<lambda>p. Memory_evictPage p s) else Inr s) = Inr s1
      \<and> mem_inv s1 \<and> freed v vp s = drop_page v s1
      \<and> (\<exists>vp1. vheap s1 v = Some vp1 \<and> overhead vp1 = Val ov \<and> \<not> inMemory vp1)"
  proof (cases "inMemory vp")
    case True
    obtain p where p: "currentPPN vp = Val p" "frames s (unat p) = Some v" "unat p < length (memory s)"
      using assms(1) vp True by (rule resident_frame)
    with True vp ov assms(1) show ?thesis
      by (simp add: s1_def freed_def mem_inv_evicted mem_inv_shape mem_inv_pool Memory_evictPage_eq)
  next
    case False
    with vp ov assms(1) show ?thesis by (simp add: s1_def freed_def split: cval.split)
  qed
  then have inv: "mem_inv (freed v vp s)" by (auto intro: mem_inv_drop_page)
  obtain r' where "(if ov \<noteq> None then Replace_freeOverhead ops ov r else Inr r) = Inr r'"
    "rinv (freed v vp s) r'"
    using rinv_free [OF assms] rinv_free_none [OF assms] ov by (cases ov) auto
  with s1 inv vp that show thesis by (auto simp: VPage_free_def)
qed

lemma VPage_free_query:
  assumes "vheap s v = Some q" "vp_pid q = 0" "overhead q = Val None" "\<not> inMemory q"
    and "mem_inv s" "rinv s r"
  shows "VPage_free ops v s r = Inr (drop_page v s, r) \<and> mem_inv (drop_page v s) \<and> rinv (drop_page v s) r"
proof -
  have "mem_inv (drop_page v s)" using assms by (intro mem_inv_drop_page) auto
  moreover have "managed (drop_page v s) = managed s"
    using assms(1,2) by (simp add: managed_upd fun_upd_idem managed_def)
  then have "rinv (drop_page v s) r" using rinv_frame [OF assms(6)] by simp
  ultimately show ?thesis using assms by (simp add: VPage_free_def)
qed

end

section \<open>References\<close>

text \<open>
  What the simulator does to memory for one reference to a page: on a hit it tells the module
  (\<open>simulator.c\<close>, line 212), on a miss the page is brought in (lines 64-75).
\<close>

definition reference :: "'r replace_ops \<Rightarrow> vaddr \<Rightarrow> mstate \<Rightarrow> 'r \<Rightarrow> (mstate \<times> 'r) res" where
  "reference ops v s r =
     bnd (deref (vheap s) v) (\<lambda>vp.
     if inMemory vp
     then bnd (rd (overhead vp)) (\<lambda>ov.
          bnd (Replace_notifyPageAccess ops ov s r) (\<lambda>r'. Inr (s, r')))
     else page_in ops (Some v) s r)"

fun references :: "'r replace_ops \<Rightarrow> vaddr list \<Rightarrow> mstate \<Rightarrow> 'r \<Rightarrow> (mstate \<times> 'r) res" where
  "references ops [] s r = Inr (s, r)"
| "references ops (v # vs) s r = bnd (reference ops v s r) (\<lambda>(s', r'). references ops vs s' r')"

lemma managed_page_id: "page_id s' = page_id s \<Longrightarrow> managed s' v = None \<longleftrightarrow> managed s v = None"
proof -
  assume "page_id s' = page_id s"
  then have "page_id s' v = page_id s v" by simp
  then show ?thesis
    by (cases "vheap s v"; cases "vheap s' v") (auto simp: page_id_def managed_def)
qed

section \<open>Modules that keep the pages in an order\<close>

text \<open>
  FIFO and LRU keep the pages in memory in a list whose head is the next to go; they differ in
  what an access does to it, the parameter \<open>touch\<close>. The abstract pager below is a bounded
  queue; \<open>page_in\<close> implements it.
\<close>

definition queue_reference :: "('a \<Rightarrow> 'a list \<Rightarrow> 'a list) \<Rightarrow> nat \<Rightarrow> 'a \<Rightarrow> 'a list \<Rightarrow> 'a list" where
  "queue_reference touch n v q =
     (if v \<in> set q then touch v q else (if length q < n then q else tl q) @ [v])"

definition queue_page_in :: "nat \<Rightarrow> 'a \<Rightarrow> 'a list \<Rightarrow> 'a list" where
  "queue_page_in n v q = (if length q < n then q else tl q) @ [v]"

text \<open>The faults of a sequence of references, from the queue \<open>q\<close>.\<close>

primrec faults :: "('a \<Rightarrow> 'a list \<Rightarrow> 'a list) \<Rightarrow> nat \<Rightarrow> 'a list \<Rightarrow> 'a list \<Rightarrow> nat" where
  "faults touch n q [] = 0"
| "faults touch n q (v # vs) = (if v \<in> set q then 0 else 1) + faults touch n (queue_reference touch n v q) vs"

lemma queue_page_in_map: "map f (queue_page_in n v q) = queue_page_in n (f v) (map f q)"
  by (simp add: queue_page_in_def map_tl)

lemma queue_reference_fault: "v \<notin> set q \<Longrightarrow> queue_reference touch n v q = queue_page_in n v q"
  by (simp add: queue_reference_def queue_page_in_def)

lemma faults_le: "faults touch n q vs \<le> length vs"
proof (induction vs arbitrary: q)
  case (Cons v vs)
  have "faults touch n (queue_reference touch n v q) vs \<le> length vs" by (rule Cons.IH)
  then show ?case by (simp add: le_SucI)
qed simp

locale ordered_module = replacement_module ops rinv
  for ops :: "'r replace_ops" and rinv :: "mstate \<Rightarrow> 'r \<Rightarrow> bool" +
  fixes order :: "'r \<Rightarrow> vaddr list"
    and touch :: "vaddr \<Rightarrow> vaddr list \<Rightarrow> vaddr list"
  assumes order_set: "rinv s r \<Longrightarrow> v \<in> set (order r) \<longleftrightarrow> (\<exists>vp. managed s v = Some vp \<and> inMemory vp)"
    and order_distinct: "rinv s r \<Longrightarrow> distinct (order r)"
    and order_length: "rinv s r \<Longrightarrow> length (order r) = card (dom (frames s))"
    and order_load: "rinv s r \<Longrightarrow> managed s v = Some vp \<Longrightarrow> \<not> inMemory vp \<Longrightarrow> overhead vp = Val ov \<Longrightarrow>
      Replace_notifyPageLoad ops ov s' r = Inr r' \<Longrightarrow> order r' = order r @ [v]"
    and order_new: "rinv s r \<Longrightarrow> Replace_initOverhead ops v s' r = Inr (ov, r') \<Longrightarrow> order r' = order r"
    and order_access: "rinv s r \<Longrightarrow> managed s v = Some vp \<Longrightarrow> inMemory vp \<Longrightarrow> overhead vp = Val ov \<Longrightarrow>
      Replace_notifyPageAccess ops ov s' r = Inr r' \<Longrightarrow> order r' = touch v (order r)"
    and order_evict: "mem_inv s \<Longrightarrow> rinv s r \<Longrightarrow> \<not> Memory_hasFreePage s \<Longrightarrow>
      Replace_getPageToEvict ops s r = Inr (p, r') \<Longrightarrow>
      \<exists>v. order r = v # order r' \<and> frames s (unat p) = Some v"
    and order_free: "rinv s r \<Longrightarrow> managed s v = Some vp \<Longrightarrow> overhead vp = Val (Some a) \<Longrightarrow>
      Replace_freeOverhead ops (Some a) r = Inr r' \<Longrightarrow> order r' = remove1 v (order r)"
begin

lemma full_iff_order:
  assumes "mem_inv s" "rinv s r"
  shows "Memory_hasFreePage s \<longleftrightarrow> length (order r) < length (memory s)"
  by (simp add: hasFreePage_card [OF assms(1)] order_length [OF assms(2)])

text \<open>The pager's step is the step of the bounded queue.\<close>

lemma page_in_order:
  assumes "mem_inv s" "rinv s r" "managed s v = Some vp" "\<not> inMemory vp"
    and run: "page_in ops (Some v) s r = Inr (s', r')"
  shows "order r' = queue_page_in (length (memory s)) v (order r)"
proof (cases "Memory_hasFreePage s")
  case True
  obtain p r2 ov where "page_in ops (Some v) s r = Inr (loaded v vp p s, r2)" "overhead vp = Val ov"
    "Replace_notifyPageLoad ops ov (loaded v vp p s) r = Inr r2"
    using assms(1-4) True by (rule page_in_free)
  with run order_load [OF assms(2-4)] True full_iff_order [OF assms(1,2)] show ?thesis
    by (simp add: queue_page_in_def)
next
  case False
  obtain p w wp s1 r1 r2 ov where pi: "page_in ops (Some v) s r = Inr (loaded v vp p s1, r2)"
    "Replace_getPageToEvict ops s r = Inr (p, r1)" "managed s1 v = Some vp" "rinv s1 r1"
    "overhead vp = Val ov" "Replace_notifyPageLoad ops ov (loaded v vp p s1) r1 = Inr r2"
    using assms(1-4) False by (rule page_in_evict)
  obtain u where "order r = u # order r1"
    using order_evict [OF assms(1,2) False pi(2)] by blast
  with run pi(1) order_load [OF pi(4,3) assms(4) pi(5,6)] False full_iff_order [OF assms(1,2)]
  show ?thesis by (simp add: queue_page_in_def)
qed

text \<open>Any sequence of references, on the pager and on the queue.\<close>

lemma reference_order:
  assumes "mem_inv s" "rinv s r" "managed s v \<noteq> None"
  obtains s' r' where "reference ops v s r = Inr (s', r')" "mem_inv s'" "rinv s' r'"
    "order r' = queue_reference touch (length (memory s)) v (order r)"
    "length (memory s') = length (memory s)" "\<forall>w. managed s' w = None \<longleftrightarrow> managed s w = None"
proof -
  obtain vp where vp: "managed s v = Some vp" using assms(3) by blast
  then have heap: "vheap s v = Some vp" by (simp add: managed_Some)
  have iff: "v \<in> set (order r) \<longleftrightarrow> inMemory vp" using order_set [OF assms(2), of v] vp by simp
  show thesis
  proof (cases "inMemory vp")
    case True
    obtain ov r' where "overhead vp = Val ov" "Replace_notifyPageAccess ops ov s r = Inr r'" "rinv s r'"
      using assms(1,2) vp True by (rule access)
    moreover from this have "order r' = touch v (order r)"
      using order_access [OF assms(2) vp True] by blast
    ultimately show thesis
      using heap True iff assms(1) by (intro that [of s r']) (simp_all add: reference_def queue_reference_def)
  next
    case False
    obtain s' r' and p :: ul64 where pin: "page_in ops (Some v) s r = Inr (s', r')" "mem_inv s'" "rinv s' r'"
      "frames s' (unat p) = Some v" "page_id s' = page_id s" "vnext s' = vnext s" "zeroed s' = zeroed s"
      "\<forall>i w. frames s' i = Some w \<longrightarrow> w = v \<or> frames s i = Some w" "length (memory s') = length (memory s)"
      using assms(1,2) vp False by (rule page_in_ok)
    have "order r' = queue_page_in (length (memory s)) v (order r)"
      using assms(1,2) vp False pin(1) by (rule page_in_order)
    with iff False have ord: "order r' = queue_reference touch (length (memory s)) v (order r)"
      by (simp add: queue_reference_def queue_page_in_def)
    have run: "reference ops v s r = Inr (s', r')"
      using heap False pin(1) by (simp add: reference_def)
    show thesis
      by (rule that [OF run pin(2,3) ord pin(9)]) (simp add: managed_page_id [OF pin(5)])
  qed
qed

lemma references_order:
  assumes "mem_inv s" "rinv s r" "\<forall>v \<in> set vs. managed s v \<noteq> None"
  obtains s' r' where "references ops vs s r = Inr (s', r')" "mem_inv s'" "rinv s' r'"
    "order r' = fold (queue_reference touch (length (memory s))) vs (order r)"
  using assms
proof (induction vs arbitrary: s r thesis)
  case Nil
  then show ?case by simp
next
  case (Cons v vs)
  have v: "managed s v \<noteq> None" using Cons.prems(4) by simp
  obtain s1 r1 where one: "reference ops v s r = Inr (s1, r1)" "mem_inv s1" "rinv s1 r1"
    "order r1 = queue_reference touch (length (memory s)) v (order r)"
    "length (memory s1) = length (memory s)" "\<forall>w. managed s1 w = None \<longleftrightarrow> managed s w = None"
    using Cons.prems(2,3) v by (rule reference_order)
  have "\<forall>w \<in> set vs. managed s1 w \<noteq> None" using Cons.prems(4) one(6) by simp
  then obtain s' r' where "references ops vs s1 r1 = Inr (s', r')" "mem_inv s'" "rinv s' r'"
    "order r' = fold (queue_reference touch (length (memory s1))) vs (order r1)"
    using Cons.IH [OF _ one(2,3)] by blast
  with one show ?case by (intro Cons.prems(1) [of s' r']) simp_all
qed

end

text \<open>
  The order by page numbers: \<open>vtouch\<close> does to the numbers what \<open>touch\<close> does to the pages, and
  leaves a page that was just loaded where it is.
\<close>

locale numbered_module = ordered_module ops rinv order touch
  for ops :: "'r replace_ops" and rinv :: "mstate \<Rightarrow> 'r \<Rightarrow> bool"
    and order :: "'r \<Rightarrow> vaddr list" and touch :: "vaddr \<Rightarrow> vaddr list \<Rightarrow> vaddr list" +
  fixes vtouch :: "ul64 \<Rightarrow> ul64 list \<Rightarrow> ul64 list"
  assumes touch_map: "inj_on f (insert v (set q)) \<Longrightarrow> map f (touch v q) = vtouch (f v) (map f q)"
    and touch_last: "w \<notin> set u \<Longrightarrow> vtouch w (u @ [w]) = u @ [w]"

end
