(* ===== verification/IntervalTree.thy ===== *)
theory IntervalTree
  imports Prelude
begin

text \<open>
  The interval tree of \<open>intervaltree.c\<close>: an unbalanced binary search tree on the low end of
  the intervals, each node augmented with the largest high end of its subtree and with the
  file position at which the interval starts. A pointer to a node is the subtree below it.
\<close>

section \<open>Data and operations\<close>

datatype IntervalNode =
    NULLI
  | INode (low: ul64) (high: ul64) (imax: ul64) (fpos_start: "fpos cval")
          (ileft: IntervalNode) (iright: IntervalNode)

definition it_initnode :: "ul64 \<Rightarrow> ul64 \<Rightarrow> IntervalNode" where
  "it_initnode l h = INode l h h Indet NULLI NULLI"

definition it_contains :: "ul64 \<Rightarrow> ul64 \<Rightarrow> ul64 \<Rightarrow> bool" where
  "it_contains l h x \<longleftrightarrow> l \<le> x \<and> x \<le> h"

fun it_insert_recursive :: "IntervalNode \<Rightarrow> IntervalNode \<Rightarrow> IntervalNode" where
  "it_insert_recursive NULLI new = new"
| "it_insert_recursive (INode l h m f lt rt) new =
     (let lt' = (if low new < l then it_insert_recursive lt new else lt);
          rt' = (if low new < l then rt else it_insert_recursive rt new);
          m' = (if high new > m then high new else m)
      in INode l h m' f lt' rt')"

definition it_insert :: "IntervalNode \<Rightarrow> IntervalNode \<Rightarrow> IntervalNode res" where
  "it_insert root new =
     bnd (c_assert ''it_insert: null'' (root \<noteq> NULLI \<and> new \<noteq> NULLI)) (\<lambda>_.
     Inr (it_insert_recursive root new))"

fun it_find_bool :: "IntervalNode \<Rightarrow> ul64 \<Rightarrow> bool" where
  "it_find_bool NULLI x = False"
| "it_find_bool (INode l h m f lt rt) x =
     (if x > m then False
      else if it_contains l h x then True
      else if lt \<noteq> NULLI \<and> imax lt \<ge> x then it_find_bool lt x
      else it_find_bool rt x)"

fun it_find :: "IntervalNode \<Rightarrow> ul64 \<Rightarrow> IntervalNode" where
  "it_find NULLI x = NULLI"
| "it_find (INode l h m f lt rt) x =
     (if x > m then NULLI
      else if it_contains l h x then INode l h m f lt rt
      else if lt \<noteq> NULLI \<and> imax lt \<ge> x then it_find lt x
      else it_find rt x)"

text \<open>\<open>it_print\<close> writes one record per node; the model returns them in the order written.\<close>

fun it_print :: "IntervalNode \<Rightarrow> (ul64 \<times> fpos cval \<times> ul64) list" where
  "it_print NULLI = []"
| "it_print (INode l h m f lt rt) = (l, f, h) # it_print lt @ it_print rt"

fun it_giveNext :: "IntervalNode \<Rightarrow> ul64 \<Rightarrow> ul64" where
  "it_giveNext NULLI current = 0"
| "it_giveNext (INode l h m f lt rt) current =
     (if current \<ge> m then 0
      else if l \<le> current \<and> current < h then current + 1
      else if lt \<noteq> NULLI \<and> imax lt > current then it_giveNext lt current
      else it_giveNext rt current)"

fun it_setFpos :: "IntervalNode \<Rightarrow> fpos \<Rightarrow> IntervalNode res" where
  "it_setFpos NULLI p = Inl NullDeref"
| "it_setFpos (INode l h m f lt rt) p = Inr (INode l h m (Val p) lt rt)"

fun it_getFpos :: "IntervalNode \<Rightarrow> fpos res" where
  "it_getFpos NULLI = Inl NullDeref"
| "it_getFpos (INode l h m f lt rt) = rd f"

section \<open>What the tree represents\<close>

text \<open>The intervals of a tree in order, and the invariant that insertion keeps.\<close>

definition is_max :: "'a::linorder \<Rightarrow> 'a set \<Rightarrow> bool" where
  "is_max m S \<longleftrightarrow> m \<in> S \<and> (\<forall>x \<in> S. x \<le> m)"

lemma is_max_insert: "is_max m S \<Longrightarrow> is_max (if h > m then h else m) (insert h S)"
  by (auto simp: is_max_def intro: less_imp_le order.trans)

lemma is_max_single [simp]: "is_max m {h} \<longleftrightarrow> m = h"
  by (auto simp: is_max_def)

fun it_list :: "IntervalNode \<Rightarrow> (ul64 \<times> ul64) list" where
  "it_list NULLI = []"
| "it_list (INode l h m f lt rt) = it_list lt @ (l, h) # it_list rt"

fun it_inv :: "IntervalNode \<Rightarrow> bool" where
  "it_inv NULLI = True"
| "it_inv (INode l h m f lt rt) =
     (it_inv lt \<and> it_inv rt
      \<and> (\<forall>iv \<in> set (it_list lt). fst iv < l)
      \<and> (\<forall>iv \<in> set (it_list rt). l \<le> fst iv)
      \<and> is_max m (snd ` set (it_list (INode l h m f lt rt))))"

text \<open>A node fresh from \<open>it_initnode\<close>, with or without its file position.\<close>

fun it_single :: "IntervalNode \<Rightarrow> bool" where
  "it_single NULLI = False"
| "it_single (INode l h m f lt rt) = (m = h \<and> lt = NULLI \<and> rt = NULLI)"

text \<open>Insertion into the list of intervals: behind those with the same low end.\<close>

fun ivl_insort :: "ul64 \<times> ul64 \<Rightarrow> (ul64 \<times> ul64) list \<Rightarrow> (ul64 \<times> ul64) list" where
  "ivl_insort iv [] = [iv]"
| "ivl_insort iv (x # xs) = (if fst iv < fst x then iv # x # xs else x # ivl_insort iv xs)"

lemma set_ivl_insort [simp]: "set (ivl_insort iv xs) = insert iv (set xs)"
  by (induction xs) auto

lemma ivl_insort_left:
  "fst iv < l \<Longrightarrow> ivl_insort iv (xs @ (l, h) # ys) = ivl_insort iv xs @ (l, h) # ys"
  by (induction xs) auto

lemma ivl_insort_right:
  "\<forall>x \<in> set xs. fst x \<le> l \<Longrightarrow> \<not> fst iv < l \<Longrightarrow>
    ivl_insort iv (xs @ (l, h) # ys) = xs @ (l, h) # ivl_insort iv ys"
  by (induction xs) auto

lemma ivl_insort_last:
  "\<forall>x \<in> set xs. fst x \<le> fst iv \<Longrightarrow> ivl_insort iv xs = xs @ [iv]"
  by (induction xs) auto

lemma it_single_initnode [simp]: "it_single (it_initnode l h)"
  by (simp add: it_initnode_def)

lemma it_single_setFpos: "it_single n \<Longrightarrow> it_setFpos n p = Inr n' \<Longrightarrow> it_single n'"
  by (cases n) auto

lemma it_singleD:
  "it_single n \<Longrightarrow> \<exists>f. n = INode (low n) (high n) (high n) f NULLI NULLI"
  by (cases n) auto

lemma it_list_single [simp]: "it_single n \<Longrightarrow> it_list n = [(low n, high n)]"
  by (cases n) auto

lemma it_list_Nil [simp]: "it_list t = [] \<longleftrightarrow> t = NULLI"
  by (cases t) auto

section \<open>Insertion\<close>

lemma it_list_insert_recursive:
  assumes "it_single n"
  shows "it_inv t \<Longrightarrow>
    it_list (it_insert_recursive t n) = ivl_insort (low n, high n) (it_list t)"
proof (induction t)
  case NULLI
  then show ?case using assms by simp
next
  case (INode l h m f lt rt)
  show ?case
  proof (cases "low n < l")
    case True
    with INode show ?thesis by (simp add: ivl_insort_left)
  next
    case False
    with INode show ?thesis by (auto simp: ivl_insort_right less_imp_le)
  qed
qed

lemma it_insert_recursive_ne [simp]: "n \<noteq> NULLI \<Longrightarrow> it_insert_recursive t n \<noteq> NULLI"
  by (cases t) (auto simp: Let_def)

lemma it_inv_insert_recursive:
  assumes "it_single n"
  shows "it_inv t \<Longrightarrow> it_inv (it_insert_recursive t n)"
proof (induction t)
  case NULLI
  then show ?case using assms by (cases n) auto
next
  case (INode l h m f lt rt)
  let ?S = "snd ` set (it_list (INode l h m f lt rt))"
  let ?t' = "it_insert_recursive (INode l h m f lt rt) n"
  from INode.prems have sub: "it_inv lt" "it_inv rt" and "is_max m ?S" by simp_all
  note lists = it_list_insert_recursive [OF assms sub(1)] it_list_insert_recursive [OF assms sub(2)]
  have "snd ` set (it_list ?t') = insert (high n) ?S"
    using it_list_insert_recursive [OF assms INode.prems] by (simp del: it_list.simps)
  with \<open>is_max m ?S\<close> have "is_max (if high n > m then high n else m) (snd ` set (it_list ?t'))"
    by (simp only: is_max_insert)
  with INode show ?case by (auto simp: lists Let_def)
qed

section \<open>Search\<close>

definition it_span :: "IntervalNode \<Rightarrow> ul64 set" where
  "it_span t = {x. \<exists>iv \<in> set (it_list t). it_contains (fst iv) (snd iv) x}"

lemma it_span_simps [simp]:
  "it_span NULLI = {}"
  "it_span (INode l h m f lt rt) = {x. it_contains l h x} \<union> it_span lt \<union> it_span rt"
  by (auto simp: it_span_def)

lemma imax_is_max: "it_inv t \<Longrightarrow> t \<noteq> NULLI \<Longrightarrow> is_max (imax t) (snd ` set (it_list t))"
  by (cases t) auto

lemma it_span_le_max: "it_inv t \<Longrightarrow> x \<in> it_span t \<Longrightarrow> x \<le> imax t"
  using imax_is_max [of t]
  by (cases "t = NULLI") (auto simp: it_span_def is_max_def it_contains_def)

text \<open>
  The step that makes the search correct: when the left subtree reaches up to \<open>x\<close>, either it
  holds an interval around \<open>x\<close>, or one that starts behind \<open>x\<close>, and then nothing to the right
  can hold \<open>x\<close>.
\<close>

lemma left_reaches:
  assumes "it_inv (INode l h m f lt rt)" "lt \<noteq> NULLI" "x \<le> imax lt" "x \<notin> it_span lt"
  shows "x \<notin> it_span rt"
proof
  assume "x \<in> it_span rt"
  then obtain iv where iv: "iv \<in> set (it_list rt)" "fst iv \<le> x"
    by (auto simp: it_span_def it_contains_def)
  obtain jv where jv: "jv \<in> set (it_list lt)" "snd jv = imax lt"
    using imax_is_max [of lt] assms(1,2) by (auto simp: is_max_def)
  with assms(3,4) have "x < fst jv"
    by (auto simp: it_span_def it_contains_def not_le)
  moreover have "fst jv < l" "l \<le> fst iv"
    using assms(1) iv(1) jv(1) by auto
  ultimately show False using iv(2) by order
qed

lemma it_find_bool_span: "it_inv t \<Longrightarrow> it_find_bool t x \<longleftrightarrow> x \<in> it_span t"
proof (induction t)
  case NULLI
  then show ?case by simp
next
  case (INode l h m f lt rt)
  let ?t = "INode l h m f lt rt"
  have le: "x \<in> it_span ?t \<Longrightarrow> x \<le> m"
    using it_span_le_max [OF INode.prems, of x] by simp
  have sub: "it_inv lt" "it_inv rt"
    using INode.prems by simp_all
  show ?case
  proof (cases "lt \<noteq> NULLI \<and> x \<le> imax lt")
    case True
    with left_reaches [OF INode.prems, of x] INode.IH sub le show ?thesis
      by (auto simp: not_less it_contains_def)
  next
    case False
    then have "x \<notin> it_span lt"
      using it_span_le_max [OF sub(1), of x] by auto
    with False INode.IH sub le show ?thesis
      by (auto simp: not_less)
  qed
qed

lemma it_find_sound:
  "it_find t x \<noteq> NULLI \<Longrightarrow> it_contains (low (it_find t x)) (high (it_find t x)) x
     \<and> (low (it_find t x), high (it_find t x)) \<in> set (it_list t)"
  by (induction t) (auto split: if_splits)

lemma it_find_ne_iff: "it_find t x \<noteq> NULLI \<longleftrightarrow> it_find_bool t x"
  by (induction t) auto

subsection \<open>The next line of a process\<close>

lemma giveNext_none: "current \<ge> imax t \<Longrightarrow> it_giveNext t current = 0"
  by (cases t) auto

text \<open>Some interval of the tree holds \<open>c\<close> and a line behind it.\<close>

definition it_continues :: "IntervalNode \<Rightarrow> ul64 \<Rightarrow> bool" where
  "it_continues t c \<longleftrightarrow> (\<exists>iv \<in> set (it_list t). fst iv \<le> c \<and> c < snd iv)"

lemma it_continues_simps [simp]:
  "\<not> it_continues NULLI c"
  "it_continues (INode l h m f lt rt) c \<longleftrightarrow>
     l \<le> c \<and> c < h \<or> it_continues lt c \<or> it_continues rt c"
  by (auto simp: it_continues_def)

lemma it_continues_max: "it_inv t \<Longrightarrow> it_continues t c \<Longrightarrow> c < imax t"
  using imax_is_max [of t]
  by (cases "t = NULLI") (force simp: is_max_def it_continues_def)+

lemma left_continues:
  assumes "it_inv (INode l h m f lt rt)" "lt \<noteq> NULLI" "c < imax lt" "\<not> it_continues lt c"
  shows "c < l \<and> \<not> it_continues rt c"
proof -
  obtain jv where jv: "jv \<in> set (it_list lt)" "snd jv = imax lt"
    using imax_is_max [of lt] assms(1,2) by (auto simp: is_max_def)
  with assms(3,4) have "c < fst jv"
    by (auto simp: it_continues_def not_le)
  with jv(1) assms(1) have "c < l" by force
  moreover have "\<forall>iv \<in> set (it_list rt). l \<le> fst iv" using assms(1) by simp
  ultimately show ?thesis by (force simp: it_continues_def)
qed

lemma it_giveNext_eq:
  "it_inv t \<Longrightarrow> it_giveNext t c = (if it_continues t c then c + 1 else 0)"
proof (induction t)
  case NULLI
  then show ?case by simp
next
  case (INode l h m f lt rt)
  have sub: "it_inv lt" "it_inv rt"
    using INode.prems by simp_all
  have max: "it_continues (INode l h m f lt rt) c \<Longrightarrow> c < m"
    using it_continues_max [OF INode.prems, of c] by simp
  show ?case
  proof (cases "lt \<noteq> NULLI \<and> c < imax lt")
    case True
    then have "it_continues lt c \<or> c < l \<and> \<not> it_continues rt c"
      using left_continues [OF INode.prems, of c] by blast
    with True INode.IH sub max show ?thesis
      by (auto simp: not_less)
  next
    case False
    then have "\<not> it_continues lt c"
      using it_continues_max [OF sub(1), of c] by auto
    with False INode.IH sub max show ?thesis
      by (auto simp: not_less)
  qed
qed

section \<open>Chains of intervals\<close>

text \<open>
  The simulator walks the intervals of a process by following \<open>right\<close> pointers from the root.
  \<open>it_chain\<close> is what that walk visits; it is the whole tree when no node has a left child.
\<close>

fun it_chain :: "IntervalNode \<Rightarrow> (ul64 \<times> ul64 \<times> fpos cval) list" where
  "it_chain NULLI = []"
| "it_chain (INode l h m f lt rt) = (l, h, f) # it_chain rt"

fun it_spine :: "IntervalNode \<Rightarrow> bool" where
  "it_spine NULLI = True"
| "it_spine (INode l h m f lt rt) = (lt = NULLI \<and> it_spine rt)"

fun it_height :: "IntervalNode \<Rightarrow> nat" where
  "it_height NULLI = 0"
| "it_height (INode l h m f lt rt) = Suc (max (it_height lt) (it_height rt))"

lemma it_chain_insert:
  "it_single n \<Longrightarrow> \<forall>c \<in> set (it_chain t). fst c \<le> low n \<Longrightarrow>
    it_chain (it_insert_recursive t n) = it_chain t @ [(low n, high n, fpos_start n)]"
proof (induction t)
  case NULLI
  then show ?case by (cases n) auto
next
  case (INode l h m f lt rt)
  then show ?case by (auto simp: not_less [symmetric])
qed

lemma it_spine_insert:
  "it_single n \<Longrightarrow> \<forall>c \<in> set (it_chain t). fst c \<le> low n \<Longrightarrow> it_spine t \<Longrightarrow>
    it_spine (it_insert_recursive t n)"
proof (induction t)
  case NULLI
  then show ?case by (cases n) auto
next
  case (INode l h m f lt rt)
  then show ?case by (auto simp: not_less [symmetric])
qed

lemma it_spine_list: "it_spine t \<Longrightarrow> it_list t = map (\<lambda>(l, h, f). (l, h)) (it_chain t)"
  by (induction t) auto

lemma it_spine_print:
  "it_spine t \<Longrightarrow> it_print t = map (\<lambda>(l, h, f). (l, f, h)) (it_chain t)"
  by (induction t) auto

lemma it_spine_height: "it_spine t \<Longrightarrow> it_height t = length (it_chain t)"
  by (induction t) auto

section \<open>The interface: an index of spans\<close>

text \<open>
  What a client of the tree relies on: entries can be added in any order, and a query says
  whether some added entry covers the point.
\<close>

locale span_index =
  fixes ins :: "'t \<Rightarrow> 'n \<Rightarrow> 't"
    and hit :: "'t \<Rightarrow> 'x \<Rightarrow> bool"
    and inv :: "'t \<Rightarrow> bool"
    and entry :: "'n \<Rightarrow> bool"
    and span :: "'n \<Rightarrow> 'x set"
    and spans :: "'t \<Rightarrow> 'x set"
  assumes inv_ins: "inv t \<Longrightarrow> entry n \<Longrightarrow> inv (ins t n)"
    and spans_ins: "inv t \<Longrightarrow> entry n \<Longrightarrow> spans (ins t n) = spans t \<union> span n"
    and hit_iff: "inv t \<Longrightarrow> hit t x \<longleftrightarrow> x \<in> spans t"
begin

lemma inv_foldl: "inv t \<Longrightarrow> \<forall>n \<in> set ns. entry n \<Longrightarrow> inv (foldl ins t ns)"
  by (induction ns arbitrary: t) (auto simp: inv_ins)

lemma spans_foldl:
  "inv t \<Longrightarrow> \<forall>n \<in> set ns. entry n \<Longrightarrow> spans (foldl ins t ns) = spans t \<union> (\<Union>n \<in> set ns. span n)"
  by (induction ns arbitrary: t) (auto simp: inv_ins spans_ins)

lemma hit_foldl:
  "inv t \<Longrightarrow> \<forall>n \<in> set ns. entry n \<Longrightarrow>
    hit (foldl ins t ns) x \<longleftrightarrow> x \<in> spans t \<or> (\<exists>n \<in> set ns. x \<in> span n)"
  by (simp add: hit_iff inv_foldl spans_foldl)

end

lemma it_span_insert:
  assumes "it_inv t" "it_single n"
  shows "it_span (it_insert_recursive t n) = it_span t \<union> it_span n"
  using assms by (auto simp: it_span_def it_list_insert_recursive)

interpretation itree: span_index it_insert_recursive it_find_bool it_inv it_single it_span it_span
  by unfold_locales (simp_all add: it_inv_insert_recursive it_span_insert it_find_bool_span)

section \<open>Properties\<close>

text \<open>
  Whatever intervals are inserted behind a root, in whatever order, \<open>it_find_bool\<close> finds a
  point exactly when the root's interval or one of the inserted ones holds it.
\<close>

theorem find_bool_after_inserts:
  assumes "it_single root" "\<forall>n \<in> set ns. it_single n"
  shows "it_find_bool (foldl it_insert_recursive root ns) x \<longleftrightarrow>
    it_contains (low root) (high root) x \<or> (\<exists>n \<in> set ns. it_contains (low n) (high n) x)"
proof -
  have span: "it_span n = {x. it_contains (low n) (high n) x}" if "it_single n" for n
    using that by (simp add: it_span_def)
  have "it_inv root" using it_inv_insert_recursive [OF assms(1), of NULLI] by simp
  then have "it_find_bool (foldl it_insert_recursive root ns) x \<longleftrightarrow> x \<in> it_span root \<or> (\<exists>n \<in> set ns. x \<in> it_span n)"
    using assms(2) by (rule itree.hit_foldl)
  with span assms show ?thesis by auto
qed

lemma find_bool_after_inserts_witness:
  "it_find_bool (foldl it_insert_recursive (it_initnode 5 9) [it_initnode 1 2, it_initnode 12 20]) 15
    \<longleftrightarrow> it_contains 5 9 15 \<or> it_contains 1 2 15 \<or> it_contains 12 20 15"
  using find_bool_after_inserts [of "it_initnode 5 9" "[it_initnode 1 2, it_initnode 12 20]" 15]
  by (simp add: it_initnode_def)

text \<open>
  C32: \<open>it_insert\<close> of a fresh node keeps the search-tree order and the maxima, and the intervals
  in order are those before with the new one inserted behind the equal ones.
\<close>

theorem insert_is_sorted_insertion:
  assumes "it_inv t" "t \<noteq> NULLI" "it_single n"
  shows "\<exists>t'. it_insert t n = Inr t' \<and> it_inv t' \<and> it_list t' = ivl_insort (low n, high n) (it_list t)"
proof -
  have "n \<noteq> NULLI" using assms(3) by auto
  with assms show ?thesis
    by (simp add: it_insert_def it_inv_insert_recursive it_list_insert_recursive)
qed

lemma insert_is_sorted_insertion_witness:
  "\<exists>t'. it_insert (it_initnode 5 9) (it_initnode 1 2) = Inr t' \<and> it_inv t' \<and> it_list t' = [(1, 2), (5, 9)]"
  using insert_is_sorted_insertion [of "it_initnode 5 9" "it_initnode 1 2"]
  by (simp add: it_initnode_def)

text \<open>
  \<open>it_giveNext\<close> returns the next line exactly when one interval holds the current line and
  the next one. It returns 0 also between two intervals and at the end of an inner one, not
  only behind the whole tree as its comment says.
\<close>

theorem giveNext_exact:
  assumes "it_inv t"
  shows "it_giveNext t c = (if \<exists>iv \<in> set (it_list t). fst iv \<le> c \<and> c < snd iv then c + 1 else 0)"
  using it_giveNext_eq [OF assms, of c] unfolding it_continues_def .

lemma giveNext_exact_witness:
  "it_giveNext (INode 1 3 9 Indet NULLI (INode 7 9 9 Indet NULLI NULLI)) 3 = 0"
  using giveNext_exact [of "INode 1 3 9 Indet NULLI (INode 7 9 9 Indet NULLI NULLI)" 3]
  by (simp add: is_max_def)

text \<open>
  C33: \<open>it_find\<close> returns a node of the tree whose interval holds the point, and a null pointer
  only when no interval of the tree holds it.
\<close>

theorem find_correct:
  assumes "it_inv t"
  shows "if x \<in> it_span t
    then it_contains (low (it_find t x)) (high (it_find t x)) x
      \<and> (low (it_find t x), high (it_find t x)) \<in> set (it_list t)
    else it_find t x = NULLI"
proof (cases "x \<in> it_span t")
  case True
  then have "it_find t x \<noteq> NULLI"
    using it_find_bool_span [OF assms] it_find_ne_iff by blast
  from it_find_sound [OF this] True show ?thesis by simp
next
  case False
  then show ?thesis using it_find_bool_span [OF assms] it_find_ne_iff by (metis (full_types))
qed

lemma find_correct_witness:
  "it_find (INode 5 9 9 Indet (INode 1 2 2 Indet NULLI NULLI) NULLI) 3 = NULLI"
  using find_correct [of "INode 5 9 9 Indet (INode 1 2 2 Indet NULLI NULLI) NULLI" 3]
  by (simp add: is_max_def it_contains_def)

text \<open>
  Inserting nodes in ascending order, as the first pass does, makes the tree a list: no node
  has a left child and the height is the number of intervals. The header calls the tree
  balancing; it is not.
\<close>

theorem ascending_inserts_degenerate:
  assumes "it_single root" "\<forall>n \<in> set ns. it_single n" "sorted (low root # map low ns)"
  shows "it_spine (foldl it_insert_recursive root ns)
    \<and> it_height (foldl it_insert_recursive root ns) = Suc (length ns)"
proof -
  have "it_spine (foldl it_insert_recursive root ns)
      \<and> map fst (it_chain (foldl it_insert_recursive root ns)) = low root # map low ns"
    using assms(2,3)
  proof (induction ns rule: rev_induct)
    case Nil
    then show ?case using it_singleD [OF assms(1)] by (cases root) auto
  next
    case (snoc n ns)
    let ?t = "foldl it_insert_recursive root ns"
    have IH: "it_spine ?t" "map fst (it_chain ?t) = low root # map low ns"
      using snoc by (simp_all add: sorted_append)
    have "\<forall>l \<in> set (map fst (it_chain ?t)). l \<le> low n"
      unfolding IH(2) using snoc.prems(2) by (auto simp: sorted_append)
    then have le: "\<forall>c \<in> set (it_chain ?t). fst c \<le> low n" by simp
    have single: "it_single n" using snoc.prems(1) by simp
    show ?case
      using it_chain_insert [OF single le] it_spine_insert [OF single le IH(1)] IH(2) by simp
  qed
  then show ?thesis using it_spine_height by (metis length_Cons length_map)
qed

lemma ascending_inserts_degenerate_witness:
  "it_height (foldl it_insert_recursive (it_initnode 1 2) [it_initnode 3 4, it_initnode 5 6]) = 3"
  using ascending_inserts_degenerate [of "it_initnode 1 2" "[it_initnode 3 4, it_initnode 5 6]"]
  by (simp add: it_initnode_def)

end
