(* ===== verification/Stat.thy ===== *)
theory Stat
  imports Memory
begin

text \<open>
  The statistics of a run, \<open>stat.c\<close>. The counters are \<open>unsigned long\<close> and wrap; the number of
  allocated pages is read through the \<open>int\<close> that \<open>Memory_howManyAllocPages\<close> returns. Whether a
  process is runnable is an argument: the module asks \<open>Process_existsWithStatus(RUNNABLE)\<close>.
\<close>

section \<open>Operations\<close>

record stat_t =
  tmu :: ul64
  trp :: ul64
  tmr :: ul64
  tpi :: ul64

definition Stat_init :: stat_t where
  "Stat_init = \<lparr>tmu = 0, trp = 0, tmr = 0, tpi = 0\<rparr>"

definition Stat_default :: "ul64 \<Rightarrow> mstate \<Rightarrow> bool \<Rightarrow> stat_t \<Rightarrow> stat_t" where
  "Stat_default numTicks s runnable st =
     st\<lparr>tmu := tmu st + of_int (Memory_howManyAllocPages s) * numTicks,
        trp := trp st + of_bool runnable * numTicks\<rparr>"

definition Stat_hit :: "stat_t \<Rightarrow> stat_t" where
  "Stat_hit st = st\<lparr>tmr := tmr st + 1\<rparr>"

definition Stat_miss :: "stat_t \<Rightarrow> stat_t" where
  "Stat_miss st = st\<lparr>tpi := tpi st + 1\<rparr>"

definition Stat_tmr_so_far :: "stat_t \<Rightarrow> ul64" where
  "Stat_tmr_so_far st = tmr st"

section \<open>What they do\<close>

lemma Stat_default_sel [simp]:
  "tmr (Stat_default n s b st) = tmr st" "tpi (Stat_default n s b st) = tpi st"
  by (simp_all add: Stat_default_def)

lemma Stat_hit_sel [simp]:
  "tmr (Stat_hit st) = tmr st + 1" "tpi (Stat_hit st) = tpi st"
  "tmu (Stat_hit st) = tmu st" "trp (Stat_hit st) = trp st"
  by (simp_all add: Stat_hit_def)

lemma Stat_miss_sel [simp]:
  "tmr (Stat_miss st) = tmr st" "tpi (Stat_miss st) = tpi st + 1"
  "tmu (Stat_miss st) = tmu st" "trp (Stat_miss st) = trp st"
  by (simp_all add: Stat_miss_def)

text \<open>Charging \<open>m + n\<close> ticks at once is charging \<open>m\<close> and then \<open>n\<close>: the jump of the simulator
  over the ticks in which every process waits accounts for each of them.\<close>

lemma Stat_default_add:
  "Stat_default (m + n) s b st = Stat_default n s b (Stat_default m s b st)"
  by (simp add: Stat_default_def algebra_simps)

lemma Stat_default_0 [simp]: "Stat_default 0 s b st = st"
  by (simp add: Stat_default_def)

text \<open>The \<open>int\<close> is the number of pages while there are fewer than \<open>2 ^ 31\<close> frames.\<close>

lemma sint_below: "unat (w :: u32) < 2 ^ 31 \<Longrightarrow> sint w = uint w"
proof -
  assume "unat w < 2 ^ 31"
  then have "int (unat w) < int (2 ^ 31)" by (simp only: of_nat_less_iff)
  then have "uint w < 2 ^ 31" by (simp only: uint_nat of_nat_power of_nat_numeral)
  moreover have "- (2 ^ 31) \<le> uint w" by (rule order_trans [of _ 0]) simp_all
  ultimately show ?thesis
    by (simp add: sint_uint signed_take_bit_int_eq_self)
qed

lemma howManyAllocPages_eq:
  assumes "unat (allocated s) < 2 ^ 31"
  shows "Memory_howManyAllocPages s = int (unat (allocated s))"
proof -
  from assms have "unat (ucast (allocated s) :: u32) = unat (allocated s)"
    by (simp add: unsigned_ucast_eq take_bit_nat_eq_self)
  with assms show ?thesis
    unfolding Memory_howManyAllocPages_def by (subst sint_below) (metis, metis uint_nat)
qed

end
