(* ===== verification/TraceFile.thy ===== *)
theory TraceFile
  imports Prelude
begin

text \<open>
  The trace file as the program reads it: \<open>fscanf\<close> with the formats \<open>"%lu %lu"\<close>
  (\<open>trace_parser.c\<close>) and \<open>"%lu %lu\<newline>"\<close> (\<open>simulator.c\<close>), \<open>ftell\<close> and \<open>fseek\<close>, on the bytes of a
  regular file; and the text format of a trace with the proof that reading inverts it.
\<close>

section \<open>Scanning\<close>

definition isspace :: "char \<Rightarrow> bool" where
  "isspace c \<longleftrightarrow> of_char c = (32::nat) \<or> 9 \<le> (of_char c :: nat) \<and> of_char c \<le> (13::nat)"

definition isdigit :: "char \<Rightarrow> bool" where
  "isdigit c \<longleftrightarrow> 48 \<le> (of_char c :: nat) \<and> of_char c \<le> (57::nat)"

definition dec_val :: "string \<Rightarrow> nat" where
  "dec_val = foldl (\<lambda>v c. 10 * v + (of_char c - 48)) 0"

text \<open>The value \<open>strtoul\<close> gives to the digits: it saturates, and a minus sign negates in the type.\<close>

definition strtoul :: "bool \<Rightarrow> string \<Rightarrow> ul64" where
  "strtoul neg ds = (if dec_val ds \<ge> 2 ^ 64 then -1
     else if neg then - of_nat (dec_val ds) else of_nat (dec_val ds))"

definition scan_sign :: "string \<Rightarrow> bool \<times> string" where
  "scan_sign cs = (case cs of [] \<Rightarrow> (False, [])
     | c # cs' \<Rightarrow> if of_char c = (45::nat) then (True, cs')
                 else if of_char c = (43::nat) then (False, cs') else (False, cs))"

text \<open>One \<open>%lu\<close>: an input failure, a matching failure with the input left, or a number.\<close>

datatype scan = ScanEof | ScanFail string | ScanOk ul64 string

definition scan_lu :: "string \<Rightarrow> scan" where
  "scan_lu cs =
     (let cs1 = dropWhile isspace cs in
      if cs1 = [] then ScanEof
      else let (neg, cs2) = scan_sign cs1; ds = takeWhile isdigit cs2 in
           if ds = [] then ScanFail cs2 else ScanOk (strtoul neg ds) (dropWhile isdigit cs2))"

text \<open>
  The result of the call: end of file, or how many of the two numbers were read. The variables
  that were not assigned stay indeterminate.
\<close>

datatype line_read = LEof | LNone | LOne ul64 | LPair ul64 ul64

definition scan_pair :: "bool \<Rightarrow> string \<Rightarrow> line_read \<times> string" where
  "scan_pair nl cs =
     (case scan_lu cs of
        ScanEof \<Rightarrow> (LEof, [])
      | ScanFail rest \<Rightarrow> (LNone, rest)
      | ScanOk p rest \<Rightarrow>
          (case scan_lu rest of
             ScanEof \<Rightarrow> (LOne p, [])
           | ScanFail rest2 \<Rightarrow> (LOne p, rest2)
           | ScanOk v rest2 \<Rightarrow> (LPair p v, if nl then dropWhile isspace rest2 else rest2)))"

fun fscanf_result :: "line_read \<Rightarrow> int" where
  "fscanf_result LEof = -1"
| "fscanf_result LNone = 0"
| "fscanf_result (LOne p) = 1"
| "fscanf_result (LPair p v) = 2"

section \<open>Files\<close>

record FILE =
  contents :: string
  offset :: nat

definition ftell :: "FILE \<Rightarrow> fpos" where
  "ftell f = offset f"

definition fseek :: "FILE \<Rightarrow> fpos \<Rightarrow> FILE" where
  "fseek f p = f\<lparr>offset := p\<rparr>"

definition fscanf :: "bool \<Rightarrow> FILE \<Rightarrow> line_read \<times> FILE" where
  "fscanf nl f =
     (let cs = drop (offset f) (contents f); (r, rest) = scan_pair nl cs
      in (r, f\<lparr>offset := offset f + (length cs - length rest)\<rparr>))"

lemma ftell_fseek [simp]: "ftell (fseek f p) = p"
  by (simp add: ftell_def fseek_def)

lemma fseek_contents [simp]: "contents (fseek f p) = contents f"
  by (simp add: fseek_def)

lemma fscanf_contents: "fscanf nl f = (r, f') \<Longrightarrow> contents f' = contents f"
  by (auto simp: fscanf_def Let_def split: prod.splits)

section \<open>The text of a trace\<close>

definition digit :: "nat \<Rightarrow> char" where
  "digit d = char_of (48 + d)"

fun show_nat :: "nat \<Rightarrow> string" where
  "show_nat n = (if n < 10 then [digit n] else show_nat (n div 10) @ [digit (n mod 10)])"

declare show_nat.simps [simp del]

lemma show_nat_digit: "n < 10 \<Longrightarrow> show_nat n = [digit n]"
  by (subst show_nat.simps) simp

definition trace_line :: "ul64 \<times> ul64 \<Rightarrow> string" where
  "trace_line ln = show_nat (unat (fst ln)) @ '' '' @ show_nat (unat (snd ln)) @ [CHR 10]"

definition trace_text :: "(ul64 \<times> ul64) list \<Rightarrow> string" where
  "trace_text ls = concat (map trace_line ls)"

text \<open>The offset of line \<open>i\<close>.\<close>

definition line_pos :: "(ul64 \<times> ul64) list \<Rightarrow> nat \<Rightarrow> fpos" where
  "line_pos ls i = length (trace_text (take i ls))"

lemma of_char_digit [simp]: "d < 10 \<Longrightarrow> of_char (digit d) = 48 + d"
  by (simp add: digit_def)

lemma isdigit_digit [simp]: "d < 10 \<Longrightarrow> isdigit (digit d)"
  by (simp add: isdigit_def)

lemma isspace_not_digit: "isspace c \<Longrightarrow> \<not> isdigit c"
  by (auto simp: isspace_def isdigit_def)

lemma show_nat_digits: "c \<in> set (show_nat n) \<Longrightarrow> isdigit c"
proof (induction n rule: show_nat.induct)
  case (1 n)
  then show ?case by (subst (asm) (2) show_nat.simps) (auto split: if_splits)
qed

lemma show_nat_ne [simp]: "show_nat n \<noteq> []"
  by (subst show_nat.simps) simp

lemma dec_val_show_nat [simp]: "dec_val (show_nat n) = n"
proof (induction n rule: show_nat.induct)
  case (1 n)
  then show ?case by (subst show_nat.simps) (auto simp: dec_val_def)
qed

text \<open>Scanning a number that was printed, behind white space and before a non-digit.\<close>

lemma scan_lu_show:
  assumes "\<forall>c \<in> set ws. isspace c" "rest = [] \<or> \<not> isdigit (hd rest)"
  shows "scan_lu (ws @ show_nat (unat x) @ rest) = ScanOk x rest"
proof -
  obtain d ds where s: "show_nat (unat x) = d # ds" by (cases "show_nat (unat x)") auto
  with show_nat_digits have d: "isdigit d" by (metis list.set_intros(1))
  then have "\<not> isspace d" using isspace_not_digit by blast
  then have skip: "dropWhile isspace (ws @ show_nat (unat x) @ rest) = show_nat (unat x) @ rest"
    using assms(1) s by (simp add: dropWhile_append3)
  have nosign: "scan_sign (show_nat (unat x) @ rest) = (False, show_nat (unat x) @ rest)"
    using d by (auto simp: s scan_sign_def isdigit_def)
  have all: "\<forall>c \<in> set (show_nat (unat x)). isdigit c" using show_nat_digits by blast
  have "takeWhile isdigit (show_nat (unat x) @ rest) = show_nat (unat x)"
    "dropWhile isdigit (show_nat (unat x) @ rest) = rest"
    using assms(2) all by (cases rest; auto simp: takeWhile_append2 dropWhile_append2)+
  moreover have "strtoul False (show_nat (unat x)) = x"
    using unsigned_less [of x, where 'a = nat] by (simp add: strtoul_def)
  ultimately show ?thesis by (simp add: scan_lu_def skip nosign)
qed

lemma scan_lu_spaces: "\<forall>c \<in> set ws. isspace c \<Longrightarrow> scan_lu ws = ScanEof"
  by (simp add: scan_lu_def)

lemma isspace_nl [simp]: "isspace (CHR 10)" "isspace (CHR 32)"
  by (simp_all add: isspace_def)

lemma scan_pair_line:
  assumes "\<forall>c \<in> set ws. isspace c"
  shows "scan_pair nl (ws @ trace_line (p, v) @ rest)
    = (LPair p v, if nl then dropWhile isspace rest else CHR 10 # rest)"
proof -
  have digit: "\<not> isdigit (CHR 32)" "\<not> isdigit (CHR 10)" by (simp_all add: isdigit_def)
  have 1: "scan_lu (ws @ show_nat (unat p) @ CHR 32 # show_nat (unat v) @ CHR 10 # rest)
      = ScanOk p (CHR 32 # show_nat (unat v) @ CHR 10 # rest)"
    using assms digit by (intro scan_lu_show) auto
  have 2: "scan_lu ([CHR 32] @ show_nat (unat v) @ CHR 10 # rest) = ScanOk v (CHR 10 # rest)"
    using digit by (intro scan_lu_show) auto
  show ?thesis using 1 2 by (simp add: scan_pair_def trace_line_def)
qed

lemma trace_text_simps [simp]:
  "trace_text [] = []" "trace_text (l # ls) = trace_line l @ trace_text ls"
  "trace_text (ls @ ms) = trace_text ls @ trace_text ms"
  by (simp_all add: trace_text_def)

lemma trace_text_no_space: "dropWhile isspace (trace_text ls) = trace_text ls"
proof (cases ls)
  case (Cons l ls')
  obtain d ds where s: "show_nat (unat (fst l)) = d # ds" by (cases "show_nat (unat (fst l))") auto
  with show_nat_digits have "isdigit d" by (metis list.set_intros(1))
  then have "\<not> isspace d" using isspace_not_digit by blast
  with Cons s show ?thesis by (simp add: trace_line_def)
qed simp

lemma line_pos_0 [simp]: "line_pos ls 0 = 0"
  by (simp add: line_pos_def)

lemma line_pos_Suc: "i < length ls \<Longrightarrow> line_pos ls (Suc i) = line_pos ls i + length (trace_line (ls ! i))"
  by (simp add: line_pos_def take_Suc_conv_app_nth)

lemma length_trace_line: "0 < length (trace_line l)"
  by (simp add: trace_line_def)

lemma trace_text_length: "length ls \<le> length (trace_text ls)"
proof (induction ls)
  case (Cons l ls)
  have "Suc 0 \<le> length (trace_line l)" using length_trace_line [of l] by (rule Suc_leI)
  from add_mono [OF this Cons.IH] show ?case by (simp add: add.commute)
qed simp

lemma show_nat_length: "n < 10 ^ Suc k \<Longrightarrow> length (show_nat n) \<le> Suc k"
proof (induction k arbitrary: n)
  case 0
  then show ?case by (simp add: show_nat_digit)
next
  case (Suc k)
  show ?case
  proof (cases "n < 10")
    case False
    have "n div 10 < 10 ^ Suc k" using Suc.prems by (simp add: div_less_iff_less_mult)
    from Suc.IH [OF this] False show ?thesis by (subst show_nat.simps) simp
  qed (simp add: show_nat_digit)
qed

lemma trace_text_bound: "length (trace_text ls) \<le> 42 * length ls"
proof (induction ls)
  case (Cons l ls)
  have "length (show_nat (unat x)) \<le> 20" for x :: ul64
  proof -
    have "unat x < 10 ^ Suc 19" using unsigned_less [of x, where 'a = nat] by simp
    then show ?thesis using show_nat_length [of "unat x" 19] by simp
  qed
  then have "length (show_nat (unat (fst l))) \<le> 20" "length (show_nat (unat (snd l))) \<le> 20" by simp_all
  with Cons.IH show ?case by (simp add: trace_line_def)
qed simp

lemma line_pos_mono: "i \<le> j \<Longrightarrow> line_pos ls i \<le> line_pos ls j"
proof -
  assume "i \<le> j"
  then have "take i ls = take i (take j ls)" by (simp add: min_def)
  then have "trace_text (take j ls) = trace_text (take i ls) @ trace_text (drop i (take j ls))"
    by (metis append_take_drop_id trace_text_simps(3))
  then show ?thesis by (simp add: line_pos_def)
qed

lemma drop_line_pos: "drop (line_pos ls i) (trace_text ls) = trace_text (drop i ls)"
proof -
  have "trace_text ls = trace_text (take i ls) @ trace_text (drop i ls)"
    by (metis append_take_drop_id trace_text_simps(3))
  then show ?thesis by (simp add: line_pos_def)
qed

text \<open>Reading line \<open>i\<close> from its offset.\<close>

lemma fscanf_line:
  assumes "contents f = trace_text ls" "offset f = line_pos ls i" "i < length ls"
  shows "fscanf True f = (LPair (fst (ls ! i)) (snd (ls ! i)), f\<lparr>offset := line_pos ls (Suc i)\<rparr>)"
proof -
  have cs: "drop (offset f) (contents f) = trace_line (ls ! i) @ trace_text (drop (Suc i) ls)"
    using assms by (simp add: drop_line_pos flip: Cons_nth_drop_Suc)
  have "scan_pair True (trace_line (ls ! i) @ trace_text (drop (Suc i) ls))
      = (LPair (fst (ls ! i)) (snd (ls ! i)), trace_text (drop (Suc i) ls))"
    using scan_pair_line [of "[]" True "fst (ls ! i)" "snd (ls ! i)"]
    by (simp add: trace_text_no_space)
  with assms cs show ?thesis by (simp add: fscanf_def line_pos_Suc)
qed

text \<open>
  The first pass leaves the line break unread, so from the second line on it reads from the
  byte before the line.
\<close>

definition gap_pos :: "(ul64 \<times> ul64) list \<Rightarrow> nat \<Rightarrow> fpos" where
  "gap_pos ls i = line_pos ls i - (if i = 0 then 0 else 1)"

lemma trace_text_ends: "ls \<noteq> [] \<Longrightarrow> \<exists>t. trace_text ls = t @ [CHR 10]"
  by (induction ls rule: rev_induct) (auto simp: trace_line_def)

lemma drop_gap_pos:
  assumes "i \<le> length ls"
  shows "drop (gap_pos ls i) (trace_text ls) = (if i = 0 then [] else [CHR 10]) @ trace_text (drop i ls)"
proof (cases "i = 0")
  case False
  with assms have "take i ls \<noteq> []" by auto
  then obtain t where t: "trace_text (take i ls) = t @ [CHR 10]" using trace_text_ends by blast
  have "trace_text ls = trace_text (take i ls) @ trace_text (drop i ls)"
    by (metis append_take_drop_id trace_text_simps(3))
  with t False show ?thesis by (simp add: gap_pos_def line_pos_def)
qed (simp add: gap_pos_def)

lemma fscanf_gap:
  assumes "contents f = trace_text ls" "offset f = gap_pos ls i" "i < length ls"
  shows "fscanf False f = (LPair (fst (ls ! i)) (snd (ls ! i)), f\<lparr>offset := gap_pos ls (Suc i)\<rparr>)"
    and "fscanf True f = (LPair (fst (ls ! i)) (snd (ls ! i)), f\<lparr>offset := line_pos ls (Suc i)\<rparr>)"
proof -
  let ?ws = "if i = 0 then [] else [CHR 10]" and ?rest = "trace_text (drop (Suc i) ls)"
  have ws: "\<forall>c \<in> set ?ws. isspace c" by simp
  have cs: "drop (offset f) (contents f) = ?ws @ trace_line (fst (ls ! i), snd (ls ! i)) @ ?rest"
    using assms drop_gap_pos [of i ls] by (simp flip: Cons_nth_drop_Suc)
  have pos: "line_pos ls i = gap_pos ls i + length ?ws"
  proof (cases "i = 0")
    case False
    then have "line_pos ls 1 \<le> line_pos ls i" by (intro line_pos_mono) simp
    moreover have "0 < line_pos ls 1"
      using assms(3) line_pos_Suc [of 0 ls] length_trace_line [of "ls ! 0"] by fastforce
    ultimately show ?thesis using False by (simp add: gap_pos_def)
  qed (simp add: gap_pos_def)
  have len: "line_pos ls (Suc i) = gap_pos ls i + length ?ws + length (trace_line (ls ! i))"
    using assms(3) pos by (simp add: line_pos_Suc)
  obtain m where m: "length (trace_line (ls ! i)) = Suc m"
    using length_trace_line [of "ls ! i"] by (auto simp: gr0_conv_Suc)
  note sp = scan_pair_line [OF ws, of _ "fst (ls ! i)" "snd (ls ! i)" ?rest]
  show "fscanf False f = (LPair (fst (ls ! i)) (snd (ls ! i)), f\<lparr>offset := gap_pos ls (Suc i)\<rparr>)"
    unfolding fscanf_def Let_def cs sp using assms(2) len m
    by (simp add: gap_pos_def [of ls "Suc i"])
  show "fscanf True f = (LPair (fst (ls ! i)) (snd (ls ! i)), f\<lparr>offset := line_pos ls (Suc i)\<rparr>)"
    unfolding fscanf_def Let_def cs sp using assms(2) len
    by (simp add: trace_text_no_space)
qed

lemma fscanf_end:
  assumes "contents f = trace_text ls" "offset f = gap_pos ls (length ls)"
  shows "\<exists>f'. fscanf False f = (LEof, f')"
  using assms drop_gap_pos [of "length ls" ls]
  by (auto simp: fscanf_def scan_pair_def scan_lu_spaces split: if_splits)

end
