(* ===== verification/Process.thy ===== *)
theory Process
  imports ReplacePolicy IntervalTree Stat TraceFile
begin

text \<open>
  Processes, their page tables and the queues they wait on, \<open>process.c\<close>. A \<open>Process*\<close> is an
  address of a heap of processes, so that a queue, the simulator's current process and a pid
  map alias as in the program; a queue is the list of the addresses on it. All state that the
  modules of the program keep in static variables is gathered in one record, the machine.
\<close>

section \<open>Data\<close>

type_synonym paddr = nat   \<comment> \<open>\<open>Process*\<close>\<close>

datatype ProcessStatus = RUNNABLE | BLOCKED | FINISHED

text \<open>
  \<open>currInterval\<close> points into \<open>lineIntervals\<close> and is only ever moved to the right child, so it is
  the number of steps to the right from the root: insertion never moves a node, and the pointer
  keeps denoting the same node. \<open>pageTable\<close> is the root that the table points to: the pages of
  the search tree, and indeterminate while nobody wrote it.
\<close>

record Process =
  pid :: ul64
  status :: ProcessStatus
  firstline :: ul64
  currentline :: ul64
  lastline :: ul64
  currentPos :: fpos
  currInterval :: nat
  lineIntervals :: IntervalNode
  waitTime :: ul64
  waitingOnPage :: "vaddr option"
  pageTable :: "vaddr list cval"

record 'r machine =
  ms :: mstate
  rep :: 'r
  procs :: "paddr \<Rightarrow> Process option"
  pnext :: paddr
  pq :: "ProcessStatus \<Rightarrow> paddr list"
  stats :: stat_t
  tracefile :: FILE
  log :: "string list"

text \<open>
  What the program is linked with and runs on: the replacement module, the order in which
  \<open>tdestroy\<close> visits the entries of a tree, and whether a write to memory that was freed goes
  unnoticed (with \<open>False\<close> it is the fault \<open>UseAfterFree\<close>).
\<close>

record 'r env =
  linked :: "'r replace_ops"
  destroy_order :: "vaddr list \<Rightarrow> vaddr list"
  freed_writable :: bool

definition upd_proc :: "paddr \<Rightarrow> (Process \<Rightarrow> Process) \<Rightarrow> 'r machine \<Rightarrow> 'r machine res" where
  "upd_proc p f s = bnd (deref (procs s) p) (\<lambda>pp. Inr (s\<lparr>procs := (procs s)(p \<mapsto> f pp)\<rparr>))"

section \<open>Queues\<close>

definition ProcessQueues_init :: "'r machine \<Rightarrow> 'r machine" where
  "ProcessQueues_init s = s\<lparr>pq := (\<lambda>_. [])\<rparr>"

text \<open>The walk of \<open>ProcessQueue_enqueuePriority\<close>, with the insertion at the place it finds.\<close>

fun ProcessQueue_enqueuePriority ::
  "(paddr \<Rightarrow> Process option) \<Rightarrow> paddr \<Rightarrow> Process \<Rightarrow> paddr list \<Rightarrow> paddr list res" where
  "ProcessQueue_enqueuePriority h p pp [] = Inr [p]"
| "ProcessQueue_enqueuePriority h p pp (c # q) =
     bnd (deref h c) (\<lambda>cp.
     bnd (c_assert ''curr->pid != p->pid'' (pid cp \<noteq> pid pp)) (\<lambda>_.
     if currentPos cp > currentPos pp then Inr (p # c # q)
     else bnd (ProcessQueue_enqueuePriority h p pp q) (\<lambda>q'. Inr (c # q'))))"

text \<open>\<open>STAILQ_INSERT_TAIL\<close> writes the link of the element that was last.\<close>

definition stailq_insert_tail ::
  "bool \<Rightarrow> (paddr \<Rightarrow> Process option) \<Rightarrow> paddr \<Rightarrow> paddr list \<Rightarrow> paddr list res" where
  "stailq_insert_tail writable h p q =
     (if q \<noteq> [] \<and> h (last q) = None \<and> \<not> writable then Inl UseAfterFree else Inr (q @ [p]))"

definition ProcessQueue_enqueue ::
  "'r env \<Rightarrow> paddr \<Rightarrow> ProcessStatus \<Rightarrow> 'r machine \<Rightarrow> 'r machine res" where
  "ProcessQueue_enqueue env p st s =
     bnd (if st = RUNNABLE
          then bnd (deref (procs s) p) (\<lambda>pp. ProcessQueue_enqueuePriority (procs s) p pp (pq s st))
          else stailq_insert_tail (freed_writable env) (procs s) p (pq s st)) (\<lambda>q.
     Inr (s\<lparr>pq := (pq s)(st := q)\<rparr>))"

definition Process_peek :: "ProcessStatus \<Rightarrow> 'r machine \<Rightarrow> paddr option" where
  "Process_peek st s = tailq_first (pq s st)"

definition Process_existsWithStatus :: "ProcessStatus \<Rightarrow> 'r machine \<Rightarrow> bool" where
  "Process_existsWithStatus st s \<longleftrightarrow> pq s st \<noteq> []"

definition Process_setStatus ::
  "'r env \<Rightarrow> paddr \<Rightarrow> ProcessStatus \<Rightarrow> 'r machine \<Rightarrow> 'r machine res" where
  "Process_setStatus env p st s =
     bnd (deref (procs s) p) (\<lambda>pp.
     bnd (tailq_remove p (pq s (status pp))) (\<lambda>q.
     let s1 = s\<lparr>pq := (pq s)(status pp := q), procs := (procs s)(p \<mapsto> pp\<lparr>status := st\<rparr>)\<rparr> in
     ProcessQueue_enqueue env p st s1))"

definition Process_switchStatus ::
  "'r env \<Rightarrow> ProcessStatus \<Rightarrow> ProcessStatus \<Rightarrow> 'r machine \<Rightarrow> (paddr option \<times> 'r machine) res" where
  "Process_switchStatus env s1 s2 s =
     (case pq s s1 of
        [] \<Rightarrow> Inr (None, s\<lparr>log := log s @ [''WARN: Impossible switch, no process on source queue.'']\<rparr>)
      | p # q \<Rightarrow>
          bnd (upd_proc p (\<lambda>pp. pp\<lparr>status := s2\<rparr>) (s\<lparr>pq := (pq s)(s1 := q)\<rparr>)) (\<lambda>s'.
          bnd (ProcessQueue_enqueue env p s2 s') (\<lambda>s''. Inr (Some p, s''))))"

section \<open>Page tables\<close>

definition PageTable_init :: "mstate \<Rightarrow> vaddr list cval" where
  "PageTable_init s = malloc_val (zeroed s) []"

definition PageTable_compare :: "VPage \<Rightarrow> VPage \<Rightarrow> int" where
  "PageTable_compare vp1 vp2 = (if vpn vp1 < vpn vp2 then -1 else if vpn vp1 > vpn vp2 then 1 else 0)"

text \<open>\<open>tfind\<close> and \<open>tsearch\<close> of the C library, on the pages of a tree.\<close>

fun tfind :: "mstate \<Rightarrow> VPage \<Rightarrow> vaddr list \<Rightarrow> vaddr option res" where
  "tfind s key [] = Inr None"
| "tfind s key (w # ws) =
     bnd (deref (vheap s) w) (\<lambda>wp.
     if PageTable_compare key wp = 0 then Inr (Some w) else tfind s key ws)"

definition tsearch :: "mstate \<Rightarrow> vaddr \<Rightarrow> vaddr list \<Rightarrow> (vaddr \<times> vaddr list) res" where
  "tsearch s new ws =
     bnd (deref (vheap s) new) (\<lambda>key.
     bnd (tfind s key ws) (\<lambda>res.
     case res of Some w \<Rightarrow> Inr (w, ws) | None \<Rightarrow> Inr (new, ws @ [new])))"

definition PageTable_get ::
  "'r replace_ops \<Rightarrow> vaddr list cval \<Rightarrow> ul64 \<Rightarrow> mstate \<Rightarrow> 'r \<Rightarrow> (vaddr option \<times> mstate \<times> 'r) res" where
  "PageTable_get ops pt n s r =
     bnd (VPage_init ops 0 n s r) (\<lambda>(q, s1, r1).
     bnd (deref (vheap s1) q) (\<lambda>key.
     bnd (rd pt) (\<lambda>ws.
     bnd (tfind s1 key ws) (\<lambda>res.
     case res of
       None \<Rightarrow> bnd (VPage_free ops q s1 r1) (\<lambda>(s2, r2). Inr (None, s2, r2))
     | Some w \<Rightarrow> Inr (Some w, s1, r1)))))"

definition PageTable_add ::
  "vaddr list cval \<Rightarrow> vaddr \<Rightarrow> mstate \<Rightarrow> (int \<times> vaddr list cval) res" where
  "PageTable_add pt new s =
     bnd (rd pt) (\<lambda>ws.
     bnd (tsearch s new ws) (\<lambda>(w, ws').
     Inr (if w \<noteq> new then 1 else 0, Val ws')))"

section \<open>Processes\<close>

text \<open>The node \<open>k\<close> steps to the right; \<open>NULLI\<close> where the pointer is null.\<close>

fun it_walk :: "nat \<Rightarrow> IntervalNode \<Rightarrow> IntervalNode" where
  "it_walk 0 t = t"
| "it_walk (Suc k) NULLI = NULLI"
| "it_walk (Suc k) (INode l h m f lt rt) = it_walk k rt"

definition interval_of :: "Process \<Rightarrow> IntervalNode" where
  "interval_of p = it_walk (currInterval p) (lineIntervals p)"

definition curr_node :: "Process \<Rightarrow> IntervalNode res" where
  "curr_node p = (if interval_of p = NULLI then Inl NullDeref else Inr (interval_of p))"

definition Process_init ::
  "'r env \<Rightarrow> ul64 \<Rightarrow> ul64 \<Rightarrow> ul64 \<Rightarrow> IntervalNode \<Rightarrow> 'r machine \<Rightarrow> (paddr \<times> 'r machine) res" where
  "Process_init env p l0 l1 tree s =
     bnd (it_getFpos tree) (\<lambda>fp.
     let a = pnext s;
         pp = \<lparr>pid = p, status = RUNNABLE, firstline = l0, currentline = l0, lastline = l1,
               currentPos = fp, currInterval = 0, lineIntervals = tree, waitTime = 0,
               waitingOnPage = None, pageTable = PageTable_init (ms s)\<rparr> in
     bnd (stailq_insert_tail (freed_writable env) (procs s) a (pq s RUNNABLE)) (\<lambda>q.
     Inr (a, s\<lparr>procs := (procs s)(a \<mapsto> pp), pnext := Suc a, pq := (pq s)(RUNNABLE := q)\<rparr>)))"

definition Process_hasLinesRemainingInFile :: "Process \<Rightarrow> bool" where
  "Process_hasLinesRemainingInFile p \<longleftrightarrow> currentline p < lastline p"

definition Process_hasLinesRemainingInInterval :: "Process \<Rightarrow> bool res" where
  "Process_hasLinesRemainingInInterval p = bnd (curr_node p) (\<lambda>n. Inr (currentline p < high n))"

definition Process_linesRemainingInInterval :: "Process \<Rightarrow> ul64 res" where
  "Process_linesRemainingInInterval p = bnd (curr_node p) (\<lambda>n. Inr (high n - currentline p))"

definition Process_onLastLineInInterval :: "Process \<Rightarrow> bool res" where
  "Process_onLastLineInInterval p = bnd (curr_node p) (\<lambda>n. Inr (high n = currentline p))"

definition Process_hasIntervalsRemaining :: "Process \<Rightarrow> bool res" where
  "Process_hasIntervalsRemaining p = bnd (curr_node p) (\<lambda>n. Inr (iright n \<noteq> NULLI))"

definition Process_jumpToNextInterval :: "paddr option \<Rightarrow> 'r machine \<Rightarrow> 'r machine res" where
  "Process_jumpToNextInterval p s =
     (case p of
        None \<Rightarrow> Inr (s\<lparr>log := log s @ [''Tried to jump to next interval when none existed'']\<rparr>)
      | Some a \<Rightarrow>
          bnd (deref (procs s) a) (\<lambda>pp.
          if interval_of pp \<noteq> NULLI
          then let pp1 = pp\<lparr>currInterval := Suc (currInterval pp)\<rparr> in
               bnd (curr_node pp1) (\<lambda>n.
               bnd (it_getFpos n) (\<lambda>fp.
               Inr (s\<lparr>procs := (procs s)(a \<mapsto> pp1\<lparr>currentline := low n, currentPos := fp\<rparr>)\<rparr>)))
          else Inr (s\<lparr>log := log s @ [''Tried to jump to next interval when none existed'']\<rparr>)))"

text \<open>Run an operation of the pager on the machine.\<close>

definition on_pager ::
  "(mstate \<Rightarrow> 'r \<Rightarrow> ('a \<times> mstate \<times> 'r) res) \<Rightarrow> 'r machine \<Rightarrow> ('a \<times> 'r machine) res" where
  "on_pager f s = bnd (f (ms s) (rep s)) (\<lambda>(x, m, r). Inr (x, s\<lparr>ms := m, rep := r\<rparr>))"

definition Process_allocVirtualPage ::
  "'r env \<Rightarrow> paddr \<Rightarrow> ul64 \<Rightarrow> 'r machine \<Rightarrow> (vaddr \<times> 'r machine) res" where
  "Process_allocVirtualPage env p n s =
     bnd (deref (procs s) p) (\<lambda>pp.
     bnd (on_pager (VPage_init (linked env) (pid pp) n) s) (\<lambda>(v, s1).
     bnd (PageTable_add (pageTable pp) v (ms s1)) (\<lambda>(added, pt).
     Inr (v, s1\<lparr>procs := (procs s1)(p \<mapsto> pp\<lparr>pageTable := pt\<rparr>)\<rparr>))))"

definition Process_getVirtualPage ::
  "'r env \<Rightarrow> paddr \<Rightarrow> ul64 \<Rightarrow> 'r machine \<Rightarrow> (vaddr option \<times> 'r machine) res" where
  "Process_getVirtualPage env p n s =
     bnd (deref (procs s) p) (\<lambda>pp. on_pager (PageTable_get (linked env) (pageTable pp) n) s)"

definition Process_virtualPageInMemory ::
  "'r env \<Rightarrow> paddr \<Rightarrow> ul64 \<Rightarrow> 'r machine \<Rightarrow> (bool \<times> 'r machine) res" where
  "Process_virtualPageInMemory env p n s =
     bnd (deref (procs s) p) (\<lambda>pp.
     bnd (on_pager (PageTable_get (linked env) (pageTable pp) n) s) (\<lambda>(res, s1).
     case res of
       None \<Rightarrow> Inr (False, s1)
     | Some v \<Rightarrow> bnd (deref (vheap (ms s1)) v) (\<lambda>vp. Inr (inMemory vp, s1))))"

text \<open>\<open>tdestroy\<close> with \<open>PageTable_free_destroyVPage\<close>.\<close>

fun tdestroy :: "'r replace_ops \<Rightarrow> vaddr list \<Rightarrow> mstate \<Rightarrow> 'r \<Rightarrow> (mstate \<times> 'r) res" where
  "tdestroy ops [] s r = Inr (s, r)"
| "tdestroy ops (v # vs) s r = bnd (VPage_free ops v s r) (\<lambda>(s1, r1). tdestroy ops vs s1 r1)"

definition Process_free :: "paddr \<Rightarrow> 'r machine \<Rightarrow> 'r machine" where
  "Process_free p s = s\<lparr>procs := (procs s)(p := None)\<rparr>"

definition Process_quit :: "'r env \<Rightarrow> paddr \<Rightarrow> 'r machine \<Rightarrow> 'r machine res" where
  "Process_quit env p s =
     bnd (deref (procs s) p) (\<lambda>pp.
     bnd (rd (pageTable pp)) (\<lambda>ws.
     bnd (tdestroy (linked env) (destroy_order env ws) (ms s) (rep s)) (\<lambda>(m, r).
     Inr (Process_free p (s\<lparr>ms := m, rep := r\<rparr>)))))"

end
