(* ===== verification/TraceParser.thy ===== *)
theory TraceParser
  imports Process
begin

text \<open>
  The first pass over the trace, \<open>trace_parser.c\<close>: consecutive lines of one pid form an
  interval; the intervals of a pid are collected in the tree of its process. The pid map is a
  \<open>tsearch\<close> tree over the pid converted to \<open>int\<close>.
\<close>

section \<open>The pid map\<close>

type_synonym pidmap = "(u32 \<times> paddr) list"

definition pidmap_compare :: "u32 \<Rightarrow> u32 \<Rightarrow> int" where
  "pidmap_compare l r = (if sint l < sint r then -1 else if sint l > sint r then 1 else 0)"

definition make_PidMap :: "ul64 \<Rightarrow> u32" where
  "make_PidMap p = ucast p"

fun pidmap_find :: "u32 \<Rightarrow> pidmap \<Rightarrow> paddr option" where
  "pidmap_find key [] = None"
| "pidmap_find key ((k, a) # m) = (if pidmap_compare key k = 0 then Some a else pidmap_find key m)"

section \<open>The pass\<close>

record 'r parse =
  pmach :: "'r machine"
  last_pid :: ul64   \<comment> \<open>the variable \<open>pid\<close>\<close>
  start_line_number :: ul64
  curr_line_number :: ul64
  start_fpos :: fpos
  search_tree :: pidmap

text \<open>The run of lines that ended before the current line becomes an interval (lines 106-147).\<close>

definition close_run :: "'r env \<Rightarrow> fpos \<Rightarrow> 'r parse \<Rightarrow> 'r parse res" where
  "close_run env curr_fpos P =
     (let key = make_PidMap (last_pid P); s = pmach P;
          l0 = start_line_number P; l1 = curr_line_number P - 1 in
      bnd (it_setFpos (it_initnode l0 l1) (start_fpos P)) (\<lambda>node.
      bnd (case pidmap_find key (search_tree P) of
             Some a \<Rightarrow>
               bnd (deref (procs s) a) (\<lambda>ow.
               bnd (it_insert (lineIntervals ow) node) (\<lambda>t.
               Inr (search_tree P, s\<lparr>procs := (procs s)(a \<mapsto>
                 ow\<lparr>lastline := (if lastline ow < l1 then l1 else lastline ow), lineIntervals := t\<rparr>)\<rparr>)))
           | None \<Rightarrow>
               bnd (Process_init env (last_pid P) l0 l1 node s) (\<lambda>(a, s1).
               Inr (search_tree P @ [(key, a)], s1))) (\<lambda>(m, s2).
      Inr (P\<lparr>pmach := s2, search_tree := m, start_fpos := curr_fpos,
             start_line_number := curr_line_number P\<rparr>))))"

text \<open>
  The body of the loop for the outcome of its \<open>fscanf\<close>. When nothing was read \<open>curr_pid\<close> is
  indeterminate: at the end of the file neither test depends on it, after a matching failure
  the first test does.
\<close>

definition first_pass_body :: "'r env \<Rightarrow> fpos \<Rightarrow> line_read \<Rightarrow> 'r parse \<Rightarrow> (bool \<times> 'r parse) res" where
  "first_pass_body env curr_fpos line P =
     (let curr_pid = (case line of LOne p \<Rightarrow> Val p | LPair p v \<Rightarrow> Val p | _ \<Rightarrow> Indet) in
      bnd (if fscanf_result line \<ge> 0 then bnd (rd curr_pid) (\<lambda>p. Inr (p = 0)) else Inr False) (\<lambda>bad.
      if bad then Inl (ExitFailure ''ERROR: Invalid trace file format'')
      else
        bnd (if last_pid P \<noteq> 0 \<and> (fscanf_result line \<le> 0 \<or> curr_pid \<noteq> Val (last_pid P))
             then close_run env curr_fpos P else Inr P) (\<lambda>P1.
        Inr (fscanf_result line > 0,
             P1\<lparr>last_pid := (case curr_pid of Val p \<Rightarrow> p | Indet \<Rightarrow> last_pid P1),
                curr_line_number := curr_line_number P1 + 1\<rparr>))))"

definition first_pass_turn :: "'r env \<Rightarrow> 'r parse \<Rightarrow> (bool \<times> 'r parse) res" where
  "first_pass_turn env P =
     (let curr_fpos = ftell (tracefile (pmach P)); (line, f) = fscanf False (tracefile (pmach P))
      in first_pass_body env curr_fpos line (P\<lparr>pmach := (pmach P)\<lparr>tracefile := f\<rparr>\<rparr>))"

subsection \<open>The loop ends\<close>

lemma length_dropWhile_less: "takeWhile P cs \<noteq> [] \<Longrightarrow> length (dropWhile P cs) < length cs"
  by (metis append_Nil length_append length_greater_0_conv less_add_same_cancel2 takeWhile_dropWhile_id)

lemma scan_sign_length: "length (snd (scan_sign cs)) \<le> length cs"
  by (auto simp: scan_sign_def split: list.split)

lemma scan_lu_shorter: "scan_lu cs = ScanOk p rest \<Longrightarrow> length rest < length cs"
proof -
  assume *: "scan_lu cs = ScanOk p rest"
  let ?cs1 = "dropWhile isspace cs" and ?cs2 = "snd (scan_sign (dropWhile isspace cs))"
  from * have "takeWhile isdigit ?cs2 \<noteq> []" "rest = dropWhile isdigit ?cs2"
    by (auto simp: scan_lu_def Let_def split: if_splits prod.splits)
  then have "length rest < length ?cs2" by (simp add: length_dropWhile_less)
  also have "\<dots> \<le> length ?cs1" by (rule scan_sign_length)
  also have "\<dots> \<le> length cs" by (rule length_dropWhile_le)
  finally show ?thesis .
qed

lemma scan_lu_fail: "scan_lu cs = ScanFail rest \<Longrightarrow> length rest \<le> length cs"
proof -
  assume *: "scan_lu cs = ScanFail rest"
  then have "rest = snd (scan_sign (dropWhile isspace cs))"
    by (auto simp: scan_lu_def Let_def split: if_splits prod.splits)
  then show ?thesis
    using scan_sign_length [of "dropWhile isspace cs"] length_dropWhile_le [of isspace cs] by simp
qed

lemma scan_sign_suffix: "\<exists>pre. cs = pre @ snd (scan_sign cs)"
  by (cases cs) (auto simp: scan_sign_def)

lemma dropWhile_suffix: "\<exists>pre. cs = pre @ dropWhile P cs"
  by (metis takeWhile_dropWhile_id)

lemma scan_lu_suffix:
  "scan_lu cs = ScanOk p rest \<Longrightarrow> \<exists>pre. cs = pre @ rest" "scan_lu cs = ScanFail rest \<Longrightarrow> \<exists>pre. cs = pre @ rest"
  using dropWhile_suffix [of cs isspace] scan_sign_suffix [of "dropWhile isspace cs"]
    dropWhile_suffix [of "snd (scan_sign (dropWhile isspace cs))" isdigit]
  by (auto simp: scan_lu_def Let_def split: if_splits prod.splits)

lemma scan_pair_suffix:
  assumes "scan_pair nl cs = (line, rest)"
  shows "\<exists>pre. cs = pre @ rest"
proof (cases "scan_lu cs")
  case (ScanOk p r1)
  then obtain a where a: "cs = a @ r1" using scan_lu_suffix(1) by blast
  show ?thesis
  proof (cases "scan_lu r1")
    case (ScanOk v r2)
    then obtain b where "r1 = b @ r2" using scan_lu_suffix(1) by blast
    moreover obtain c where "r2 = c @ dropWhile isspace r2" using dropWhile_suffix by blast
    ultimately show ?thesis
      using assms a ScanOk \<open>scan_lu cs = _\<close> by (auto simp: scan_pair_def) (metis append.assoc)
  next
    case (ScanFail r2)
    then obtain b where "r1 = b @ r2" using scan_lu_suffix(2) by blast
    then show ?thesis using assms a ScanFail \<open>scan_lu cs = _\<close> by (auto simp: scan_pair_def)
  qed (use assms \<open>scan_lu cs = _\<close> in \<open>auto simp: scan_pair_def\<close>)
next
  case (ScanFail r1)
  then show ?thesis using assms scan_lu_suffix(2) by (auto simp: scan_pair_def)
qed (use assms in \<open>auto simp: scan_pair_def\<close>)

lemma scan_pair_shorter:
  assumes "scan_pair nl cs = (line, rest)" "fscanf_result line > 0"
  shows "length rest < length cs"
proof (cases "scan_lu cs")
  case (ScanOk p r1)
  have "length rest \<le> length r1"
  proof (cases "scan_lu r1")
    case (ScanOk v r2)
    with assms(1) \<open>scan_lu cs = _\<close> have "rest = (if nl then dropWhile isspace r2 else r2)"
      by (simp add: scan_pair_def)
    then have "length rest \<le> length r2" by (simp add: length_dropWhile_le)
    with scan_lu_shorter [OF ScanOk] show ?thesis by simp
  next
    case (ScanFail r2)
    with assms(1) \<open>scan_lu cs = _\<close> scan_lu_fail [OF ScanFail] show ?thesis
      by (simp add: scan_pair_def)
  qed (use assms(1) \<open>scan_lu cs = _\<close> in \<open>simp add: scan_pair_def\<close>)
  with scan_lu_shorter [OF ScanOk] show ?thesis by simp
qed (use assms in \<open>auto simp: scan_pair_def\<close>)

text \<open>The bytes that are left to read.\<close>

definition unread :: "FILE \<Rightarrow> nat" where
  "unread f = length (contents f) - offset f"

lemma fscanf_progress:
  assumes "fscanf nl f = (line, f')" "fscanf_result line > 0"
  shows "unread f' < unread f"
proof -
  obtain rest where rest: "scan_pair nl (drop (offset f) (contents f)) = (line, rest)"
    "f' = f\<lparr>offset := offset f + (length (drop (offset f) (contents f)) - length rest)\<rparr>"
    using assms(1) by (auto simp: fscanf_def Let_def split: prod.splits)
  with assms(2) have "length rest < length (drop (offset f) (contents f))"
    using scan_pair_shorter by blast
  with rest(2) show ?thesis by (simp add: unread_def)
qed

lemma close_run_tracefile:
  "close_run env cf P = Inr P' \<Longrightarrow> tracefile (pmach P') = tracefile (pmach P)"
  by (auto simp: close_run_def Process_init_def Let_def bnd_eq_Inr split: option.splits)

lemma first_pass_turn_progress:
  assumes "first_pass_turn env P = Inr (True, P')"
  shows "unread (tracefile (pmach P')) < unread (tracefile (pmach P))"
proof -
  obtain line f where read: "fscanf False (tracefile (pmach P)) = (line, f)" by fastforce
  with assms have "fscanf_result line > 0" "tracefile (pmach P') = f"
    by (auto simp: first_pass_turn_def first_pass_body_def Let_def bnd_eq_Inr
        dest!: close_run_tracefile split: if_splits)
  with fscanf_progress [OF read] show ?thesis by simp
qed

function first_pass_loop :: "'r env \<Rightarrow> 'r parse \<Rightarrow> 'r parse res" where
  "first_pass_loop env P =
     bnd (first_pass_turn env P) (\<lambda>(more, P').
     if more then first_pass_loop env P' else Inr P')"
  by pat_completeness auto
termination
  by (relation "measure (\<lambda>(env, P). unread (tracefile (pmach P)))")
     (auto dest: first_pass_turn_progress)

declare first_pass_loop.simps [simp del]

definition first_pass :: "'r env \<Rightarrow> 'r machine \<Rightarrow> 'r machine res" where
  "first_pass env s =
     bnd (first_pass_loop env \<lparr>pmach = s, last_pid = 0, start_line_number = 1, curr_line_number = 1,
            start_fpos = ftell (tracefile s), search_tree = []\<rparr>) (\<lambda>P. Inr (pmach P))"

end
