(* ===== verification/Simulator.thy ===== *)
theory Simulator
  imports Process
begin

text \<open>
  The simulation, \<open>simulator.c\<close>: one turn of the loop as a function, the loop as a partial
  function (it need not end), and the step relation whose paths are the runs.
\<close>

section \<open>Helpers\<close>

definition CLOCK_TICK :: ul64 where
  "CLOCK_TICK = 1"

definition DISK_PENALTY :: ul64 where
  "DISK_PENALTY = 2000000"

text \<open>The static assertions of the file, which the compiler checks.\<close>

definition static_asserts :: bool where
  "static_asserts \<longleftrightarrow> CLOCK_TICK > 0 \<and> DISK_PENALTY > 0 \<and> DISK_PENALTY mod CLOCK_TICK = 0"

lemma static_asserts_hold: static_asserts
  by (simp add: static_asserts_def CLOCK_TICK_def DISK_PENALTY_def)

definition Simulator_notDone :: "'r machine \<Rightarrow> bool" where
  "Simulator_notDone s \<longleftrightarrow> Process_existsWithStatus RUNNABLE s \<or> Process_existsWithStatus BLOCKED s"

text \<open>\<open>ftell\<close> is a \<open>long\<close> for the wrapper; the positions of a regular file are never \<open>-1\<close>.\<close>

definition safe_ftell :: "FILE \<Rightarrow> int res" where
  "safe_ftell f =
     (let fpos = int (ftell f) in
      if fpos = -1 then Inl (ExitFailure ''Error finding current line in trace file.'') else Inr fpos)"

lemma safe_ftell_ok [simp]: "safe_ftell f = Inr (int (ftell f))"
  by (simp add: safe_ftell_def)

definition Simulator_seekSavedLine :: "paddr \<Rightarrow> 'r machine \<Rightarrow> 'r machine res" where
  "Simulator_seekSavedLine p s =
     bnd (deref (procs s) p) (\<lambda>pp.
     bnd (c_assert ''p->status != FINISHED'' (status pp \<noteq> FINISHED)) (\<lambda>_.
     let f = fseek (tracefile s) (currentPos pp) in
     bnd (safe_ftell f) (\<lambda>fp.
     if fp \<noteq> int (currentPos pp) then Inl (ExitFailure ''Seek to position within tracefile failed.'')
     else Inr (s\<lparr>tracefile := f\<rparr>))))"

definition Simulator_finishCurrentDiskIO :: "'r env \<Rightarrow> 'r machine \<Rightarrow> 'r machine res" where
  "Simulator_finishCurrentDiskIO env s =
     bnd (nonnull (Process_peek BLOCKED s)) (\<lambda>p.
     bnd (deref (procs s) p) (\<lambda>pp.
     bnd (c_assert ''p->status == BLOCKED'' (status pp = BLOCKED)) (\<lambda>_.
     bnd (c_assert ''p->waitTime == 0'' (waitTime pp = 0)) (\<lambda>_.
     bnd (c_assert ''p->waitingOnPage != NULL'' (waitingOnPage pp \<noteq> None)) (\<lambda>_.
     bnd (page_in (linked env) (waitingOnPage pp) (ms s) (rep s)) (\<lambda>(m, r).
     upd_proc p (\<lambda>pp. pp\<lparr>waitingOnPage := None\<rparr>) (s\<lparr>ms := m, rep := r\<rparr>)))))))"

definition Simulator_safelySwitchStatus ::
  "'r env \<Rightarrow> paddr \<Rightarrow> ProcessStatus \<Rightarrow> fpos \<Rightarrow> 'r machine \<Rightarrow> 'r machine res" where
  "Simulator_safelySwitchStatus env p new fp s =
     bnd (deref (procs s) p) (\<lambda>pp.
     let old = status pp in
     bnd (c_assert ''not at head of queue'' (Process_peek old s = Some p)) (\<lambda>_.
     bnd (case old of
            RUNNABLE \<Rightarrow> upd_proc p (\<lambda>pp. pp\<lparr>currentPos := fp\<rparr>) s
          | BLOCKED \<Rightarrow> bnd (c_assert ''Cannot resume blocked process prematurely.'' (waitTime pp = 0)) (\<lambda>_. Inr s)
          | FINISHED \<Rightarrow> Inl (ExitFailure ''ERROR: Attempted to resume already-finished process.'')) (\<lambda>s1.
     bnd (Process_switchStatus env old new s1) (\<lambda>(moved, s2).
     if moved \<noteq> Some p then Inl (ExitFailure ''ERROR: Corruption in process queue.'')
     else
       bnd (deref (procs s2) p) (\<lambda>pp2.
       case new of
         RUNNABLE \<Rightarrow> Simulator_seekSavedLine p s2
       | BLOCKED \<Rightarrow> bnd (c_assert ''Set block timer in order to block process.'' (waitTime pp2 = DISK_PENALTY)) (\<lambda>_.
                    Inr s2)
       | FINISHED \<Rightarrow> bnd (c_assert ''Cannot mark process as finished with lines left to run.''
                            (\<not> Process_hasLinesRemainingInFile pp2)) (\<lambda>_.
                     Process_quit env p s2))))))"

section \<open>One turn of the loop\<close>

definition tick :: "ul64 \<Rightarrow> 'r machine \<Rightarrow> 'r machine" where
  "tick n s = s\<lparr>stats := Stat_default n (ms s) (Process_existsWithStatus RUNNABLE s) (stats s)\<rparr>"

text \<open>The lookup of the page that the line names, with its creation (lines 200-207).\<close>

definition find_page :: "'r env \<Rightarrow> paddr \<Rightarrow> ul64 \<Rightarrow> 'r machine \<Rightarrow> (vaddr \<times> 'r machine) res" where
  "find_page env p n s =
     bnd (Process_getVirtualPage env p n s) (\<lambda>(found, s1).
     case found of
       Some v \<Rightarrow> Inr (v, s1)
     | None \<Rightarrow>
         bnd (Process_allocVirtualPage env p n s1) (\<lambda>(v, s2).
         bnd (Process_getVirtualPage env p n s2) (\<lambda>(again, s3).
         bnd (c_assert ''Process_getVirtualPage(p, vpn) == v'' (again = Some v)) (\<lambda>_.
         Inr (v, s3)))))"

text \<open>After a hit (lines 211-230). The result also holds the loop's variable \<open>p\<close>.\<close>

definition advance :: "'r env \<Rightarrow> paddr \<Rightarrow> 'r machine \<Rightarrow> ('r machine \<times> paddr option) res" where
  "advance env p s =
     bnd (deref (procs s) p) (\<lambda>pp.
     bnd (Process_onLastLineInInterval pp) (\<lambda>onLast.
     bnd (if onLast then Process_hasIntervalsRemaining pp else Inr False) (\<lambda>jump.
     if jump
     then bnd (Process_jumpToNextInterval (Some p) s) (\<lambda>s1.
          bnd (Simulator_seekSavedLine p s1) (\<lambda>s2.
          bnd (Process_switchStatus env RUNNABLE RUNNABLE s2) (\<lambda>(moved, s3).
          Inr (s3, Some p))))
     else
       bnd (Process_hasLinesRemainingInInterval pp) (\<lambda>more.
       if more
       then bnd (upd_proc p (\<lambda>pp. pp\<lparr>currentline := currentline pp + 1\<rparr>) s) (\<lambda>s1. Inr (s1, Some p))
       else bnd (Simulator_safelySwitchStatus env p FINISHED 0 s) (\<lambda>s1. Inr (s1, None))))))"

definition hit_page :: "'r env \<Rightarrow> vaddr \<Rightarrow> 'r machine \<Rightarrow> 'r machine res" where
  "hit_page env v s =
     bnd (deref (vheap (ms s)) v) (\<lambda>vp.
     bnd (rd (overhead vp)) (\<lambda>ov.
     bnd (Replace_notifyPageAccess (linked env) ov (ms s) (rep s)) (\<lambda>r.
     Inr (s\<lparr>rep := r, stats := Stat_hit (stats s)\<rparr>))))"

definition miss_page :: "'r env \<Rightarrow> paddr \<Rightarrow> vaddr \<Rightarrow> fpos \<Rightarrow> 'r machine \<Rightarrow> 'r machine res" where
  "miss_page env p v fp s =
     bnd (upd_proc p (\<lambda>pp. pp\<lparr>waitTime := DISK_PENALTY, waitingOnPage := Some v\<rparr>)
            (s\<lparr>stats := Stat_miss (stats s)\<rparr>)) (\<lambda>s1.
     Simulator_safelySwitchStatus env p BLOCKED fp s1)"

text \<open>One memory reference of the process at the head of the queue (lines 178-236).\<close>

definition run_line :: "'r env \<Rightarrow> paddr \<Rightarrow> 'r machine \<Rightarrow> ('r machine \<times> paddr option) res" where
  "run_line env p s =
     bnd (deref (procs s) p) (\<lambda>pp.
     bnd (c_assert ''p->currInterval != NULL'' (interval_of pp \<noteq> NULLI)) (\<lambda>_.
     let fp = ftell (tracefile s); (line, f) = fscanf True (tracefile s) in
     case line of
       LPair lpid n \<Rightarrow>
         let s1 = s\<lparr>tracefile := f, log := log s @
                (if lpid \<noteq> pid pp then [''ERROR: Wrong line in tracefile recieved.''] else [])\<rparr> in
         bnd (find_page env p n s1) (\<lambda>(v, s2).
         bnd (Process_virtualPageInMemory env p n s2) (\<lambda>(hit, s3).
         if hit
         then bnd (hit_page env v s3) (advance env p)
         else bnd (miss_page env p v fp s3) (\<lambda>s4. Inr (s4, Some p))))
     | _ \<Rightarrow> Inl (ExitFailure ''Error reading from trace file.'')))"

record 'r sim =
  mach :: "'r machine"
  time :: ul64
  cur :: "paddr option"   \<comment> \<open>the local variable \<open>p\<close>\<close>

text \<open>The steps of the loop body: the tick, the disk, the jump, the switch, the line.\<close>

definition disk_done :: "'r env \<Rightarrow> 'r machine \<Rightarrow> 'r machine res" where
  "disk_done env s =
     bnd (Simulator_finishCurrentDiskIO env s) (\<lambda>s1.
     bnd (nonnull (Process_peek BLOCKED s1)) (\<lambda>p.
     Simulator_safelySwitchStatus env p RUNNABLE 0 s1))"

definition skip_wait :: "'r sim \<Rightarrow> 'r sim res" where
  "skip_wait \<sigma> =
     bnd (nonnull (Process_peek BLOCKED (mach \<sigma>))) (\<lambda>b.
     bnd (deref (procs (mach \<sigma>)) b) (\<lambda>bp.
     bnd (c_assert ''waitTime != 0'' (waitTime bp \<noteq> 0)) (\<lambda>_.
     let skip = CLOCK_TICK * (waitTime bp - 1) in
     bnd (upd_proc b (\<lambda>bp. bp\<lparr>waitTime := waitTime bp - skip\<rparr>) (tick skip (mach \<sigma>))) (\<lambda>s1.
     bnd (deref (procs s1) b) (\<lambda>bp1.
     bnd (c_assert ''waitTime == 1'' (waitTime bp1 = 1)) (\<lambda>_.
     Inr (\<sigma>\<lparr>mach := s1, time := time \<sigma> + skip\<rparr>)))))))"

definition run_head :: "'r env \<Rightarrow> 'r sim \<Rightarrow> 'r sim res" where
  "run_head env \<sigma> =
     bnd (nonnull (Process_peek RUNNABLE (mach \<sigma>))) (\<lambda>p.
     bnd (if cur \<sigma> \<noteq> Some p
          then bnd (deref (procs (mach \<sigma>)) p) (\<lambda>pp.
               if currentPos pp \<noteq> ftell (tracefile (mach \<sigma>)) then Simulator_seekSavedLine p (mach \<sigma>)
               else Inr (mach \<sigma>))
          else Inr (mach \<sigma>)) (\<lambda>s1.
     bnd (run_line env p s1) (\<lambda>(s2, c).
     Inr (\<sigma>\<lparr>mach := s2, cur := c\<rparr>))))"

definition sim_step :: "'r env \<Rightarrow> 'r sim \<Rightarrow> 'r sim res" where
  "sim_step env \<sigma> =
     (let s0 = tick CLOCK_TICK (mach \<sigma>);
          \<sigma>0 = \<sigma>\<lparr>mach := s0, time := time \<sigma> + CLOCK_TICK\<rparr> in
      bnd (case Process_peek BLOCKED s0 of
             None \<Rightarrow> Inr (s0, False)
           | Some b \<Rightarrow>
               bnd (upd_proc b (\<lambda>bp. bp\<lparr>waitTime := waitTime bp - CLOCK_TICK\<rparr>) s0) (\<lambda>s1.
               bnd (deref (procs s1) b) (\<lambda>bp.
               Inr (s1, waitTime bp = 0)))) (\<lambda>(s1, ready).
      let \<sigma>1 = \<sigma>0\<lparr>mach := s1\<rparr> in
      if ready then bnd (disk_done env s1) (\<lambda>s2. Inr (\<sigma>1\<lparr>mach := s2\<rparr>))
      else if \<not> Process_existsWithStatus RUNNABLE s1 then skip_wait \<sigma>1
      else run_head env \<sigma>1))"

section \<open>The loop\<close>

partial_function (option) sim_loop :: "'r env \<Rightarrow> 'r sim \<Rightarrow> 'r sim res option" where
  "sim_loop env \<sigma> =
     (if Simulator_notDone (mach \<sigma>)
      then (case sim_step env \<sigma> of Inl e \<Rightarrow> Some (Inl e) | Inr \<sigma>' \<Rightarrow> sim_loop env \<sigma>')
      else Some (Inr \<sigma>))"

definition sim_start :: "'r machine \<Rightarrow> 'r sim" where
  "sim_start s = \<lparr>mach = s\<lparr>tracefile := fseek (tracefile s) 0\<rparr>, time = 0, cur = Process_peek RUNNABLE s\<rparr>"

definition Simulator_runSimulation :: "'r env \<Rightarrow> 'r machine \<Rightarrow> (ul64 \<times> 'r machine) res option" where
  "Simulator_runSimulation env s =
     map_option (\<lambda>out. bnd out (\<lambda>\<sigma>. Inr (time \<sigma>, mach \<sigma>))) (sim_loop env (sim_start s))"

text \<open>The runs as paths of a step relation.\<close>

inductive steps :: "'r env \<Rightarrow> 'r sim \<Rightarrow> 'r sim \<Rightarrow> bool" for env where
  steps_refl: "steps env \<sigma> \<sigma>"
| steps_step: "Simulator_notDone (mach \<sigma>) \<Longrightarrow> sim_step env \<sigma> = Inr \<sigma>' \<Longrightarrow> steps env \<sigma>' \<sigma>'' \<Longrightarrow> steps env \<sigma> \<sigma>''"

inductive_cases steps_cases: "steps env \<sigma> \<sigma>'"

end
