(* ===== verification/MachineInv.thy ===== *)
theory MachineInv
  imports Simulator
begin

text \<open>
  The invariant of the machine: what a process, its page table and the queues satisfy between
  two turns of the simulation, and how the operations on the queues act under it.
\<close>

section \<open>The lines of a process\<close>

lemma it_chain_Nil [simp]: "it_chain t = [] \<longleftrightarrow> t = NULLI"
  by (cases t) auto

lemma it_walk_chain:
  "k < length (it_chain t) \<Longrightarrow> \<exists>m lt rt.
    it_walk k t = INode (fst (it_chain t ! k)) (fst (snd (it_chain t ! k))) m (snd (snd (it_chain t ! k))) lt rt
    \<and> it_chain rt = drop (Suc k) (it_chain t)"
proof (induction k arbitrary: t)
  case 0
  then show ?case by (cases t) auto
next
  case (Suc k)
  then show ?case by (cases t) auto
qed

text \<open>
  The current interval exists and holds the current line, the last one ends with the last line
  of the process, and every interval of the chain is non-empty and knows its position.
\<close>

definition lines_ok :: "Process \<Rightarrow> bool" where
  "lines_ok pp \<longleftrightarrow>
     currInterval pp < length (it_chain (lineIntervals pp))
     \<and> currentline pp \<le> fst (snd (it_chain (lineIntervals pp) ! currInterval pp))
     \<and> fst (snd (last (it_chain (lineIntervals pp)))) = lastline pp
     \<and> (\<forall>c \<in> set (it_chain (lineIntervals pp)). fst c \<le> fst (snd c) \<and> snd (snd c) \<noteq> Indet)"

lemma lines_ok_node:
  assumes "lines_ok pp"
  obtains l h m f lt rt where "interval_of pp = INode l h m f lt rt" "currentline pp \<le> h"
    "rt = NULLI \<longrightarrow> h = lastline pp" "rt = NULLI \<longleftrightarrow> Suc (currInterval pp) = length (it_chain (lineIntervals pp))"
    "h = fst (snd (it_chain (lineIntervals pp) ! currInterval pp))"
proof -
  let ?c = "it_chain (lineIntervals pp)" and ?k = "currInterval pp"
  have k: "?k < length ?c" using assms by (simp add: lines_ok_def)
  obtain m lt rt where n: "interval_of pp = INode (fst (?c ! ?k)) (fst (snd (?c ! ?k))) m (snd (snd (?c ! ?k))) lt rt"
    "it_chain rt = drop (Suc ?k) ?c"
    using it_walk_chain [OF k] by (auto simp: interval_of_def)
  have rt: "rt = NULLI \<longleftrightarrow> Suc ?k = length ?c"
    using n(2) k by (metis it_chain_Nil drop_eq_Nil le_antisym less_eq_Suc_le)
  have "rt = NULLI \<Longrightarrow> fst (snd (?c ! ?k)) = lastline pp"
  proof -
    assume "rt = NULLI"
    then have "last ?c = ?c ! ?k" using rt k by (metis diff_Suc_1 last_conv_nth list.size(3) not_less_zero)
    then show ?thesis using assms by (simp add: lines_ok_def)
  qed
  with n(1) rt assms that show thesis by (simp add: lines_ok_def)
qed

lemma lines_ok_interval: "lines_ok pp \<Longrightarrow> interval_of pp \<noteq> NULLI"
  by (elim lines_ok_node) simp

lemma lines_ok_jump:
  assumes "lines_ok pp" "Suc (currInterval pp) < length (it_chain (lineIntervals pp))"
  obtains l h m fp lt rt where
    "interval_of (pp\<lparr>currInterval := Suc (currInterval pp)\<rparr>) = INode l h m (Val fp) lt rt"
    "lines_ok (pp\<lparr>currInterval := Suc (currInterval pp), currentline := l, currentPos := fp\<rparr>)"
    "l = fst (it_chain (lineIntervals pp) ! Suc (currInterval pp))"
    "it_chain (lineIntervals pp) ! Suc (currInterval pp) = (l, h, Val fp)"
proof -
  let ?c = "it_chain (lineIntervals pp)" and ?k = "Suc (currInterval pp)"
  have "?c ! ?k \<in> set ?c" using assms(2) by simp
  then have mem: "fst (?c ! ?k) \<le> fst (snd (?c ! ?k))" "snd (snd (?c ! ?k)) \<noteq> Indet"
    using assms(1) unfolding lines_ok_def by blast+
  have lines: "lines_ok (pp\<lparr>currInterval := ?k, currentline := fst (?c ! ?k), currentPos := fp\<rparr>)" for fp
    unfolding lines_ok_def using assms mem(1) by (simp add: lines_ok_def del: nth_mem)
  obtain fp where "snd (snd (?c ! ?k)) = Val fp" using mem(2) by (cases "snd (snd (?c ! ?k))") auto
  moreover obtain m lt rt where
    "it_walk ?k (lineIntervals pp) = INode (fst (?c ! ?k)) (fst (snd (?c ! ?k))) m (snd (snd (?c ! ?k))) lt rt"
    using it_walk_chain [OF assms(2)] by blast
  ultimately show thesis
    using lines by (intro that) (simp_all add: interval_of_def prod_eq_iff)
qed

section \<open>The pages of a process\<close>

definition page_key :: "mstate \<Rightarrow> vaddr \<Rightarrow> (ul64 \<times> ul64) option" where
  "page_key m w = map_option (\<lambda>vp. (vp_pid vp, vpn vp)) (vheap m w)"

lemma page_key_Some: "page_key m w = Some (i, n) \<longleftrightarrow> (\<exists>vp. vheap m w = Some vp \<and> vp_pid vp = i \<and> vpn vp = n)"
  by (auto simp: page_key_def)

lemma page_key_id: "page_id m' = page_id m \<Longrightarrow> page_key m' = page_key m"
proof
  fix w assume "page_id m' = page_id m"
  then have "page_id m' w = page_id m w" by simp
  then show "page_key m' w = page_key m w"
    by (cases "vheap m w"; cases "vheap m' w") (auto simp: page_id_def page_key_def)
qed

text \<open>The table lists pages of the process, at most one per page number.\<close>

definition pages_ok :: "mstate \<Rightarrow> Process \<Rightarrow> bool" where
  "pages_ok m pp \<longleftrightarrow> pid pp \<noteq> 0 \<and> (\<exists>ws. pageTable pp = Val ws \<and> distinct (map (page_key m) ws)
     \<and> (\<forall>w \<in> set ws. \<exists>n. page_key m w = Some (pid pp, n)))"

lemma pages_okE:
  assumes "pages_ok m pp"
  obtains ws where "pageTable pp = Val ws" "distinct ws" "distinct (map (page_key m) ws)"
    "\<forall>w \<in> set ws. \<exists>vp. managed m w = Some vp \<and> vp_pid vp = pid pp" "pid pp \<noteq> 0"
proof -
  from assms obtain ws where ws: "pid pp \<noteq> 0" "pageTable pp = Val ws" "distinct (map (page_key m) ws)"
    "\<forall>w \<in> set ws. \<exists>n. page_key m w = Some (pid pp, n)"
    unfolding pages_ok_def by blast
  then have "\<exists>vp. managed m w = Some vp \<and> vp_pid vp = pid pp" if "w \<in> set ws" for w
    using that by (fastforce simp: page_key_Some managed_Some)
  with ws that show thesis by (simp add: distinct_map)
qed

lemma pages_ok_live:
  assumes "pages_ok m pp" "pageTable pp = Val ws"
  shows "pid pp \<noteq> 0" "\<forall>w \<in> set ws. vheap m w \<noteq> None"
proof -
  from assms have "pid pp \<noteq> 0" "\<forall>w \<in> set ws. \<exists>n. page_key m w = Some (pid pp, n)"
    unfolding pages_ok_def by auto
  then show "pid pp \<noteq> 0" "\<forall>w \<in> set ws. vheap m w \<noteq> None"
    by (fastforce simp: page_key_Some)+
qed

lemma pages_ok_keep:
  assumes "pages_ok m pp" "\<And>w n. page_key m w = Some (pid pp, n) \<Longrightarrow> page_key m' w = Some (pid pp, n)"
  shows "pages_ok m' pp"
proof -
  from assms(1) obtain ws where ws: "pid pp \<noteq> 0" "pageTable pp = Val ws" "distinct (map (page_key m) ws)"
    "\<forall>w \<in> set ws. \<exists>n. page_key m w = Some (pid pp, n)"
    unfolding pages_ok_def by blast
  with assms(2) have "\<forall>w \<in> set ws. page_key m' w = page_key m w" by metis
  then have "map (page_key m') ws = map (page_key m) ws" by simp
  with ws assms(2) show ?thesis unfolding pages_ok_def by metis
qed

text \<open>A blocked process waits, for a page of its table that is not in memory.\<close>

definition blocked_ok :: "mstate \<Rightarrow> Process \<Rightarrow> bool" where
  "blocked_ok m pp \<longleftrightarrow> 0 < waitTime pp \<and> (\<exists>v ws vp. waitingOnPage pp = Some v
     \<and> pageTable pp = Val ws \<and> v \<in> set ws \<and> vheap m v = Some vp \<and> \<not> inMemory vp)"

definition proc_ok :: "mstate \<Rightarrow> Process \<Rightarrow> bool" where
  "proc_ok m pp \<longleftrightarrow> lines_ok pp \<and> pages_ok m pp \<and> (status pp = BLOCKED \<longrightarrow> blocked_ok m pp)"

section \<open>The queues\<close>

definition sched_ok :: "(paddr \<Rightarrow> Process option) \<Rightarrow> paddr list \<Rightarrow> paddr list \<Rightarrow> bool" where
  "sched_ok h R B \<longleftrightarrow>
     distinct (R @ B) \<and> dom h = set (R @ B)
     \<and> (\<forall>p pp. h p = Some pp \<longrightarrow> status pp = (if p \<in> set R then RUNNABLE else BLOCKED))
     \<and> (\<forall>p q pp qq. h p = Some pp \<longrightarrow> h q = Some qq \<longrightarrow> pid pp = pid qq \<longrightarrow> p = q)"

lemma sched_okD:
  assumes "sched_ok h R B"
  shows sched_ok_distinct: "distinct (R @ B)" and sched_ok_dom: "dom h = set (R @ B)"
    and sched_ok_status: "\<And>p pp. h p = Some pp \<Longrightarrow> status pp = (if p \<in> set R then RUNNABLE else BLOCKED)"
    and sched_ok_pid: "\<And>p q pp qq. h p = Some pp \<Longrightarrow> h q = Some qq \<Longrightarrow> pid pp = pid qq \<Longrightarrow> p = q"
  using assms unfolding sched_ok_def by (blast, blast, blast, metis)

lemma sched_ok_upd:
  assumes "sched_ok h R B" "h p = Some pp" "pid pp' = pid pp"
    and "distinct (R' @ B')" "set (R' @ B') = set (R @ B)"
    and "\<And>q. q \<noteq> p \<Longrightarrow> q \<in> set R' \<longleftrightarrow> q \<in> set R"
    and "status pp' = (if p \<in> set R' then RUNNABLE else BLOCKED)"
  shows "sched_ok (h(p \<mapsto> pp')) R' B'"
proof -
  have "p \<in> set (R @ B)" using assms(1,2) sched_ok_dom by blast
  then have "dom (h(p \<mapsto> pp')) = set (R' @ B')"
    using sched_ok_dom [OF assms(1)] assms(5) by (simp add: insert_absorb)
  moreover have "status qq = (if q \<in> set R' then RUNNABLE else BLOCKED)" if "(h(p \<mapsto> pp')) q = Some qq" for q qq
    using that sched_ok_status [OF assms(1), of q qq] assms(6) [of q] assms(7) by (cases "q = p") auto
  moreover have "a = b" if "(h(p \<mapsto> pp')) a = Some aa" "(h(p \<mapsto> pp')) b = Some bb" "pid aa = pid bb" for a b aa bb
    using that assms(2,3) sched_ok_pid [OF assms(1)] by (metis fun_upd_apply option.inject)
  ultimately show ?thesis using assms(4) unfolding sched_ok_def by blast
qed

lemma sched_ok_del:
  assumes "sched_ok h (p # R) B"
  shows "sched_ok (h(p := None)) R B"
proof -
  have "p \<notin> set (R @ B)" "distinct (R @ B)" using sched_ok_distinct [OF assms] by auto
  moreover from this(1) have "dom (h(p := None)) = set (R @ B)"
    using sched_ok_dom [OF assms] by auto
  ultimately show ?thesis
    using sched_ok_status [OF assms] sched_ok_pid [OF assms] unfolding sched_ok_def
    by (auto split: if_splits)
qed

lemma sched_ok_runnable:
  assumes "sched_ok h R B" "p \<in> set R"
  obtains pp where "h p = Some pp" "status pp = RUNNABLE"
proof -
  from assms have "p \<in> dom h" using sched_ok_dom by fastforce
  then obtain pp where "h p = Some pp" by blast
  with sched_ok_status [OF assms(1) this] assms(2) that show thesis by simp
qed

lemma sched_ok_blocked:
  assumes "sched_ok h R B" "p \<in> set B"
  obtains pp where "h p = Some pp" "status pp = BLOCKED"
proof -
  from assms have "p \<in> dom h" using sched_ok_dom by fastforce
  then obtain pp where "h p = Some pp" by blast
  moreover have "p \<notin> set R" using sched_ok_distinct [OF assms(1)] assms(2) by auto
  ultimately show thesis using sched_ok_status [OF assms(1)] that by simp
qed

lemma sched_ok_other:
  assumes "sched_ok h R B" "h p = Some pp" "c \<in> set (R @ B)" "c \<noteq> p"
  shows "\<exists>cp. h c = Some cp \<and> pid cp \<noteq> pid pp"
proof -
  have "c \<in> dom h" using assms(3) sched_ok_dom [OF assms(1)] by simp
  then obtain cp where "h c = Some cp" by blast
  with sched_ok_pid [OF assms(1) this assms(2)] assms(4) show ?thesis by blast
qed

subsection \<open>The priority queue\<close>

definition saved_pos :: "(paddr \<Rightarrow> Process option) \<Rightarrow> paddr \<Rightarrow> fpos" where
  "saved_pos h p = (case h p of None \<Rightarrow> 0 | Some pp \<Rightarrow> currentPos pp)"

definition place :: "(paddr \<Rightarrow> Process option) \<Rightarrow> paddr \<Rightarrow> fpos \<Rightarrow> paddr list \<Rightarrow> paddr list" where
  "place h p x q = takeWhile (\<lambda>c. saved_pos h c \<le> x) q @ p # dropWhile (\<lambda>c. saved_pos h c \<le> x) q"

lemma enqueuePriority_eq:
  "\<forall>c \<in> set q. \<exists>cp. h c = Some cp \<and> pid cp \<noteq> pid pp \<Longrightarrow>
    ProcessQueue_enqueuePriority h p pp q = Inr (place h p (currentPos pp) q)"
  by (induction q) (auto simp: place_def saved_pos_def)

lemma place_set [simp]: "set (place h p x q) = insert p (set q)"
  unfolding place_def by (metis (no_types) Un_insert_right list.simps(15) set_append takeWhile_dropWhile_id)

lemma place_distinct [simp]: "distinct (place h p x q) \<longleftrightarrow> p \<notin> set q \<and> distinct q"
proof -
  let ?t = "takeWhile (\<lambda>c. saved_pos h c \<le> x) q" and ?d = "dropWhile (\<lambda>c. saved_pos h c \<le> x) q"
  have "distinct (t @ p # d) \<longleftrightarrow> p \<notin> set (t @ d) \<and> distinct (t @ d)" for t d by auto
  from this [of ?t ?d] show ?thesis by (simp only: place_def takeWhile_dropWhile_id)
qed

lemma place_sorted:
  assumes "sorted (map (saved_pos h) q)" "saved_pos h p = x"
  shows "sorted (map (saved_pos h) (place h p x q))"
  using assms
proof (induction q)
  case (Cons c q)
  show ?case
  proof (cases "saved_pos h c \<le> x")
    case True
    then have "place h p x (c # q) = c # place h p x q" by (simp add: place_def)
    with Cons True show ?thesis by simp
  next
    case False
    then have "place h p x (c # q) = p # c # q" by (simp add: place_def)
    with Cons.prems False show ?thesis by fastforce
  qed
qed (simp add: place_def)

lemma saved_pos_upd [simp]:
  "saved_pos (h(p \<mapsto> pp)) c = (if c = p then currentPos pp else saved_pos h c)"
  by (simp add: saved_pos_def)

lemma place_cong: "p \<notin> set q \<Longrightarrow> place (h(p \<mapsto> pp)) p x q = place h p x q"
  unfolding place_def by (intro arg_cong2 [where f = append] arg_cong2 [where f = Cons] takeWhile_cong dropWhile_cong refl) auto

subsection \<open>Moving between the queues\<close>

lemma switch_to_runnable:
  assumes "pq s a = p # q" "procs s p = Some pp" "R = (if a = RUNNABLE then q else pq s RUNNABLE)"
    and "p \<notin> set R" "\<forall>c \<in> set R. \<exists>cp. procs s c = Some cp \<and> pid cp \<noteq> pid pp"
  shows "Process_switchStatus env a RUNNABLE s = Inr (Some p,
    s\<lparr>pq := (pq s)(a := q, RUNNABLE := place (procs s) p (currentPos pp) R),
      procs := (procs s)(p \<mapsto> pp\<lparr>status := RUNNABLE\<rparr>)\<rparr>)"
proof -
  let ?h = "(procs s)(p \<mapsto> pp\<lparr>status := RUNNABLE\<rparr>)"
  have "\<forall>c \<in> set R. \<exists>cp. ?h c = Some cp \<and> pid cp \<noteq> pid (pp\<lparr>status := RUNNABLE\<rparr>)"
    using assms(4,5) by auto
  then have "ProcessQueue_enqueuePriority ?h p (pp\<lparr>status := RUNNABLE\<rparr>) R
      = Inr (place (procs s) p (currentPos pp) R)"
    using assms(4) by (simp add: enqueuePriority_eq place_cong)
  with assms(1-3) show ?thesis
    by (cases "a = RUNNABLE") (simp_all add: Process_switchStatus_def upd_proc_def ProcessQueue_enqueue_def)
qed

lemma switch_to_tail:
  assumes "pq s a = p # q" "procs s p = Some pp" "b \<noteq> RUNNABLE" "a \<noteq> b"
    and "freed_writable env \<or> set (pq s b) \<subseteq> dom (procs s)"
  shows "Process_switchStatus env a b s = Inr (Some p,
    s\<lparr>pq := (pq s)(a := q, b := pq s b @ [p]), procs := (procs s)(p \<mapsto> pp\<lparr>status := b\<rparr>)\<rparr>)"
proof -
  have "\<not> (pq s b \<noteq> [] \<and> ((procs s)(p \<mapsto> pp\<lparr>status := b\<rparr>)) (last (pq s b)) = None \<and> \<not> freed_writable env)"
    using assms(5) last_in_set [of "pq s b"] by (metis domIff fun_upd_other fun_upd_same in_mono option.discI)
  then have "stailq_insert_tail (freed_writable env) ((procs s)(p \<mapsto> pp\<lparr>status := b\<rparr>)) p (pq s b)
      = Inr (pq s b @ [p])"
    unfolding stailq_insert_tail_def by (rule if_not_P)
  with assms(1-4) show ?thesis
    by (simp add: Process_switchStatus_def upd_proc_def ProcessQueue_enqueue_def)
qed

section \<open>Looking up a page\<close>

lemma PageTable_compare_0 [simp]: "PageTable_compare a b = 0 \<longleftrightarrow> vpn a = vpn b"
  by (auto simp: PageTable_compare_def)

definition lookup_page :: "mstate \<Rightarrow> ul64 \<Rightarrow> vaddr list \<Rightarrow> vaddr option" where
  "lookup_page m n ws = find (\<lambda>w. map_option vpn (vheap m w) = Some n) ws"

lemma tfind_eq: "\<forall>w \<in> set ws. vheap m w \<noteq> None \<Longrightarrow> tfind m key ws = Inr (lookup_page m (vpn key) ws)"
  by (induction ws) (auto simp: lookup_page_def)

lemma lookup_page_Some:
  "lookup_page m n ws = Some v \<Longrightarrow> v \<in> set ws \<and> (\<exists>vp. vheap m v = Some vp \<and> vpn vp = n)"
  by (auto simp: lookup_page_def find_Some_iff)

lemma lookup_page_None: "lookup_page m n ws = None \<Longrightarrow> w \<in> set ws \<Longrightarrow> page_key m w \<noteq> Some (i, n)"
  by (auto simp: lookup_page_def find_None_iff page_key_Some)

lemma lookup_page_append:
  "lookup_page m n (ws @ vs) = (case lookup_page m n ws of None \<Rightarrow> lookup_page m n vs | Some w \<Rightarrow> Some w)"
  by (induction ws) (auto simp: lookup_page_def)

text \<open>Memory that only gained pages, outside the frames.\<close>

definition grows :: "mstate \<Rightarrow> mstate \<Rightarrow> bool" where
  "grows m m' \<longleftrightarrow> (\<forall>w wp. vheap m w = Some wp \<longrightarrow> vheap m' w = Some wp)
     \<and> zeroed m' = zeroed m \<and> frames m' = frames m \<and> length (memory m') = length (memory m)"

lemma growsD:
  assumes "grows m m'"
  shows grows_heap: "\<And>w wp. vheap m w = Some wp \<Longrightarrow> vheap m' w = Some wp"
    and grows_zeroed: "zeroed m' = zeroed m" and grows_frames: "frames m' = frames m"
    and grows_length: "length (memory m') = length (memory m)"
  using assms by (simp_all add: grows_def)

lemma grows_key: "grows m m' \<Longrightarrow> page_key m w = Some k \<Longrightarrow> page_key m' w = Some k"
  by (auto simp: grows_def page_key_def)

lemma grows_trans: "grows m m1 \<Longrightarrow> grows m1 m2 \<Longrightarrow> grows m m2"
  by (simp add: grows_def)

lemma lookup_page_grows:
  assumes "grows m m'" "\<forall>w \<in> set ws. vheap m w \<noteq> None"
  shows "lookup_page m' n ws = lookup_page m n ws"
  unfolding lookup_page_def
proof (rule find_cong [OF refl])
  fix w assume "w \<in> set ws"
  with assms(2) obtain wp where "vheap m w = Some wp" by blast
  with grows_heap [OF assms(1) this]
  show "(map_option vpn (vheap m' w) = Some n) = (map_option vpn (vheap m w) = Some n)" by simp
qed

lemma grows_put: "vheap m v = None \<Longrightarrow> grows m (put_page v vp m)"
  by (auto simp: grows_def)

section \<open>The invariant\<close>

text \<open>
  Every page in a frame is in the page table of a process (\<open>owned_ok\<close>). \<open>core_inv\<close> holds at every point where a queue is touched; \<open>machine_inv\<close> adds the order of the
  runnable processes, which a turn breaks and restores.
\<close>

definition owned_ok :: "mstate \<Rightarrow> (paddr \<Rightarrow> Process option) \<Rightarrow> bool" where
  "owned_ok m h \<longleftrightarrow> (\<forall>i v. frames m i = Some v \<longrightarrow> (\<exists>p pp ws. h p = Some pp \<and> pageTable pp = Val ws \<and> v \<in> set ws))"

definition core_inv :: "(mstate \<Rightarrow> 'r \<Rightarrow> bool) \<Rightarrow> 'r machine \<Rightarrow> bool" where
  "core_inv rinv s \<longleftrightarrow> mem_inv (ms s) \<and> rinv (ms s) (rep s) \<and> zeroed (ms s)
     \<and> sched_ok (procs s) (pq s RUNNABLE) (pq s BLOCKED)
     \<and> (\<forall>p pp. procs s p = Some pp \<longrightarrow> proc_ok (ms s) pp) \<and> owned_ok (ms s) (procs s)"

definition run_sorted :: "'r machine \<Rightarrow> bool" where
  "run_sorted s \<longleftrightarrow> sorted (map (saved_pos (procs s)) (pq s RUNNABLE))"

definition machine_inv :: "(mstate \<Rightarrow> 'r \<Rightarrow> bool) \<Rightarrow> 'r machine \<Rightarrow> bool" where
  "machine_inv rinv s \<longleftrightarrow> core_inv rinv s \<and> run_sorted s"

lemma owned_ok_upd:
  assumes "owned_ok m h" "h p = Some pp" "\<And>ws. pageTable pp = Val ws \<Longrightarrow> \<exists>us. pageTable pp' = Val us \<and> set ws \<subseteq> set us"
  shows "owned_ok m (h(p \<mapsto> pp'))"
  unfolding owned_ok_def
proof (intro allI impI)
  fix i v assume "frames m i = Some v"
  then obtain q qq ws where q: "h q = Some qq" "pageTable qq = Val ws" "v \<in> set ws"
    using assms(1) unfolding owned_ok_def by blast
  show "\<exists>q qq ws. (h(p \<mapsto> pp')) q = Some qq \<and> pageTable qq = Val ws \<and> v \<in> set ws"
  proof (cases "q = p")
    case True
    with q assms(2) obtain us where "pageTable pp' = Val us" "v \<in> set us" using assms(3) [of ws] by auto
    then show ?thesis by (intro exI [of _ p]) auto
  next
    case False
    with q show ?thesis by (intro exI [of _ q]) auto
  qed
qed

lemma owned_ok_frames:
  "owned_ok m h \<Longrightarrow> (\<And>i v. frames m' i = Some v \<Longrightarrow> \<exists>j. frames m j = Some v) \<Longrightarrow> owned_ok m' h"
  unfolding owned_ok_def by blast

lemma owned_ok_load:
  assumes "owned_ok m0 h" "\<forall>i w. frames m i = Some w \<longrightarrow> w = v \<or> frames m0 i = Some w"
    and "h p = Some pp" "pageTable pp = Val ws" "v \<in> set ws"
  shows "owned_ok m h"
  unfolding owned_ok_def
proof (intro allI impI)
  fix i w assume w: "frames m i = Some w"
  show "\<exists>p pp ws. h p = Some pp \<and> pageTable pp = Val ws \<and> w \<in> set ws"
  proof (cases "w = v")
    case False
    with w assms(2) have "frames m0 i = Some w" by blast
    with assms(1) show ?thesis unfolding owned_ok_def by blast
  qed (use assms(3-5) in blast)
qed

lemma core_invI:
  "mem_inv (ms s) \<Longrightarrow> rinv (ms s) (rep s) \<Longrightarrow> zeroed (ms s) \<Longrightarrow>
    sched_ok (procs s) (pq s RUNNABLE) (pq s BLOCKED) \<Longrightarrow>
    (\<And>p pp. procs s p = Some pp \<Longrightarrow> proc_ok (ms s) pp) \<Longrightarrow> owned_ok (ms s) (procs s) \<Longrightarrow> core_inv rinv s"
  by (simp add: core_inv_def)

lemma core_invD:
  assumes "core_inv rinv s"
  shows core_mem: "mem_inv (ms s)" and core_rinv: "rinv (ms s) (rep s)" and core_zeroed: "zeroed (ms s)"
    and core_sched: "sched_ok (procs s) (pq s RUNNABLE) (pq s BLOCKED)"
    and core_proc: "\<And>p pp. procs s p = Some pp \<Longrightarrow> proc_ok (ms s) pp" and core_owned: "owned_ok (ms s) (procs s)"
  using assms unfolding core_inv_def by blast+

lemma core_inv_upd [simp]:
  "core_inv rinv (s\<lparr>stats := x\<rparr>) = core_inv rinv s"
  "core_inv rinv (s\<lparr>tracefile := f\<rparr>) = core_inv rinv s"
  "core_inv rinv (s\<lparr>log := l\<rparr>) = core_inv rinv s"
  by (simp_all add: core_inv_def)

lemma run_sorted_upd [simp]:
  "run_sorted (s\<lparr>stats := x\<rparr>) = run_sorted s"
  "run_sorted (s\<lparr>tracefile := f\<rparr>) = run_sorted s"
  "run_sorted (s\<lparr>log := l\<rparr>) = run_sorted s"
  "run_sorted (s\<lparr>ms := m, rep := r\<rparr>) = run_sorted s"
  by (simp_all add: run_sorted_def)

lemma machine_inv_upd [simp]:
  "machine_inv rinv (s\<lparr>stats := x\<rparr>) = machine_inv rinv s"
  "machine_inv rinv (s\<lparr>tracefile := f\<rparr>) = machine_inv rinv s"
  "machine_inv rinv (s\<lparr>log := l\<rparr>) = machine_inv rinv s"
  by (simp_all add: machine_inv_def)

lemma machine_inv_core: "machine_inv rinv s \<Longrightarrow> core_inv rinv s"
  by (simp add: machine_inv_def)

lemma machine_inv_sorted: "machine_inv rinv s \<Longrightarrow> run_sorted s"
  by (simp add: machine_inv_def)

lemma machine_invI: "core_inv rinv s \<Longrightarrow> run_sorted s \<Longrightarrow> machine_inv rinv s"
  by (simp add: machine_inv_def)

text \<open>Changing a process in place.\<close>

lemma core_inv_proc:
  assumes "core_inv rinv s" "procs s p = Some pp" "proc_ok (ms s) pp'" "pid pp' = pid pp" "status pp' = status pp"
    and "\<And>ws. pageTable pp = Val ws \<Longrightarrow> \<exists>us. pageTable pp' = Val us \<and> set ws \<subseteq> set us"
  shows "core_inv rinv (s\<lparr>procs := (procs s)(p \<mapsto> pp')\<rparr>)"
proof (rule core_invI)
  note sched = core_sched [OF assms(1)]
  have "sched_ok ((procs s)(p \<mapsto> pp')) (pq s RUNNABLE) (pq s BLOCKED)"
    using sched assms(2,4) sched_ok_distinct [OF sched] sched_ok_status [OF sched assms(2)] assms(5)
    by (intro sched_ok_upd) auto
  then show "sched_ok (procs (s\<lparr>procs := (procs s)(p \<mapsto> pp')\<rparr>)) (pq (s\<lparr>procs := (procs s)(p \<mapsto> pp')\<rparr>) RUNNABLE)
      (pq (s\<lparr>procs := (procs s)(p \<mapsto> pp')\<rparr>) BLOCKED)" by simp
  show "owned_ok (ms (s\<lparr>procs := (procs s)(p \<mapsto> pp')\<rparr>)) (procs (s\<lparr>procs := (procs s)(p \<mapsto> pp')\<rparr>))"
    using owned_ok_upd [OF core_owned [OF assms(1)] assms(2,6)] by simp
qed (use assms core_invD [OF assms(1)] in \<open>auto split: if_splits\<close>)

lemma run_sorted_proc:
  assumes "run_sorted s" "procs s p = Some pp" "currentPos pp' = currentPos pp"
  shows "run_sorted (s\<lparr>procs := (procs s)(p \<mapsto> pp')\<rparr>)"
proof -
  have "saved_pos ((procs s)(p \<mapsto> pp')) = saved_pos (procs s)"
    using assms(2,3) by (intro ext) (simp add: saved_pos_def)
  with assms(1) show ?thesis unfolding run_sorted_def by (simp del: saved_pos_upd)
qed

lemma machine_inv_proc:
  "machine_inv rinv s \<Longrightarrow> procs s p = Some pp \<Longrightarrow> proc_ok (ms s) pp' \<Longrightarrow> pid pp' = pid pp \<Longrightarrow>
    status pp' = status pp \<Longrightarrow> currentPos pp' = currentPos pp \<Longrightarrow> pageTable pp' = pageTable pp \<Longrightarrow>
    machine_inv rinv (s\<lparr>procs := (procs s)(p \<mapsto> pp')\<rparr>)"
  by (simp add: machine_inv_def core_inv_proc run_sorted_proc)

text \<open>Moving a process between the queues.\<close>

lemma core_inv_move:
  assumes "core_inv rinv s" "procs s p = Some pp" "proc_ok (ms s) pp'" "pid pp' = pid pp"
    and "pageTable pp' = pageTable pp" and "ms s' = ms s" "rep s' = rep s" "procs s' = (procs s)(p \<mapsto> pp')"
    and "distinct (pq s' RUNNABLE @ pq s' BLOCKED)"
    and "set (pq s' RUNNABLE @ pq s' BLOCKED) = set (pq s RUNNABLE @ pq s BLOCKED)"
    and "\<And>q. q \<noteq> p \<Longrightarrow> q \<in> set (pq s' RUNNABLE) \<longleftrightarrow> q \<in> set (pq s RUNNABLE)"
    and "status pp' = (if p \<in> set (pq s' RUNNABLE) then RUNNABLE else BLOCKED)"
  shows "core_inv rinv s'"
proof (rule core_invI)
  show "sched_ok (procs s') (pq s' RUNNABLE) (pq s' BLOCKED)"
    unfolding assms(8)
    using core_sched [OF assms(1)] assms(2,4) assms(9-12) by (rule sched_ok_upd)
  show "owned_ok (ms s') (procs s')"
    unfolding assms(6,8) using core_owned [OF assms(1)] assms(2,5) by (intro owned_ok_upd) auto
qed (use assms(2,3,6,7,8) core_invD [OF assms(1)] in \<open>auto split: if_splits\<close>)

text \<open>Changing the memory under the processes.\<close>

lemma core_inv_memory:
  assumes "core_inv rinv s" "mem_inv m" "rinv m r" "zeroed m"
    and "\<And>p pp. procs s p = Some pp \<Longrightarrow> proc_ok (ms s) pp \<Longrightarrow> proc_ok m pp"
    and "\<And>i v. frames m i = Some v \<Longrightarrow> \<exists>j. frames (ms s) j = Some v"
  shows "core_inv rinv (s\<lparr>ms := m, rep := r\<rparr>)"
  using assms core_invD [OF assms(1)] owned_ok_frames [OF core_owned [OF assms(1)] assms(6)]
  by (intro core_invI) auto

lemma proc_ok_pages_kept:
  assumes "proc_ok m pp" "\<And>w wp. vheap m w = Some wp \<Longrightarrow> vp_pid wp = pid pp \<Longrightarrow> vheap m' w = Some wp"
  shows "proc_ok m' pp"
proof -
  have pk: "pages_ok m pp" using assms(1) by (simp add: proc_ok_def)
  obtain ws where ws: "pageTable pp = Val ws" "distinct ws" "distinct (map (page_key m) ws)"
    "\<forall>w \<in> set ws. \<exists>vp. managed m w = Some vp \<and> vp_pid vp = pid pp" "pid pp \<noteq> 0"
    using pk by (rule pages_okE)
  have "pages_ok m' pp"
    using pk by (rule pages_ok_keep) (auto simp: page_key_Some dest: assms(2))
  moreover have "blocked_ok m pp \<Longrightarrow> blocked_ok m' pp"
    using ws assms(2) unfolding blocked_ok_def by (fastforce simp: managed_Some)
  ultimately show ?thesis using assms(1) by (simp add: proc_ok_def)
qed

end
