(* ===== verification/Progress.thy ===== *)
theory Progress
  imports MachineInv
begin

text \<open>
  What one turn of the simulation does to the machine as a whole: the lines that are left, the
  change of a single process, the page a blocked process waits for. The vocabulary of the
  proof that the simulation ends.
\<close>

section \<open>The lines that are left\<close>

text \<open>The lines of the current interval from the current one on, and those of the later intervals.\<close>

definition later_lines :: "(ul64 \<times> ul64 \<times> fpos cval) list \<Rightarrow> nat" where
  "later_lines cs = sum_list (map (\<lambda>c. Suc (unat (fst (snd c)) - unat (fst c))) cs)"

definition work_left :: "Process \<Rightarrow> nat" where
  "work_left pp = Suc (unat (fst (snd (it_chain (lineIntervals pp) ! currInterval pp))) - unat (currentline pp))
     + later_lines (drop (Suc (currInterval pp)) (it_chain (lineIntervals pp)))"

definition machine_work :: "'r machine \<Rightarrow> nat" where
  "machine_work s = (\<Sum>p \<in> dom (procs s). work_left (the (procs s p)))"

lemma work_left_pos: "0 < work_left pp"
  by (simp add: work_left_def)

lemma work_left_upd [simp]:
  "work_left (pp\<lparr>pageTable := t\<rparr>) = work_left pp" "work_left (pp\<lparr>waitTime := w\<rparr>) = work_left pp"
  "work_left (pp\<lparr>waitingOnPage := v\<rparr>) = work_left pp" "work_left (pp\<lparr>status := st\<rparr>) = work_left pp"
  "work_left (pp\<lparr>currentPos := x\<rparr>) = work_left pp"
  by (simp_all add: work_left_def)

lemma work_left_next_line:
  assumes "currentline pp < fst (snd (it_chain (lineIntervals pp) ! currInterval pp))"
  shows "work_left pp = Suc (work_left (pp\<lparr>currentline := currentline pp + 1\<rparr>))"
proof -
  have "unat (currentline pp + 1) = Suc (unat (currentline pp))"
    using assms by (rule unat_plus_one_less)
  with assms show ?thesis by (simp add: work_left_def word_less_nat_alt Suc_diff_Suc)
qed

lemma work_left_jump:
  assumes "Suc (currInterval pp) < length (it_chain (lineIntervals pp))"
    and "currentline pp = fst (snd (it_chain (lineIntervals pp) ! currInterval pp))"
  shows "work_left pp = Suc (work_left (pp\<lparr>currInterval := Suc (currInterval pp),
      currentline := fst (it_chain (lineIntervals pp) ! Suc (currInterval pp)), currentPos := x\<rparr>))"
  using assms by (simp add: work_left_def later_lines_def flip: Cons_nth_drop_Suc)

lemma work_left_last:
  assumes "Suc (currInterval pp) = length (it_chain (lineIntervals pp))"
    and "currentline pp = fst (snd (it_chain (lineIntervals pp) ! currInterval pp))"
  shows "work_left pp = 1"
  using assms by (simp add: work_left_def later_lines_def)

section \<open>Only one process moves\<close>

text \<open>
  Nothing changes but the process \<open>p\<close>: the other processes and the pages of other processes
  keep their identity, and the file its contents.
\<close>

definition only_moves :: "paddr \<Rightarrow> 'r machine \<Rightarrow> 'r machine \<Rightarrow> bool" where
  "only_moves p s s' \<longleftrightarrow> contents (tracefile s') = contents (tracefile s)
     \<and> (\<forall>c. c \<noteq> p \<longrightarrow> procs s' c = procs s c)
     \<and> (\<forall>w i n. page_key (ms s) w = Some (i, n) \<longrightarrow> (\<forall>pp. procs s p = Some pp \<longrightarrow> pid pp \<noteq> i)
          \<longrightarrow> page_key (ms s') w = Some (i, n))"

lemma only_movesI:
  assumes "contents (tracefile s') = contents (tracefile s)" "\<And>c. c \<noteq> p \<Longrightarrow> procs s' c = procs s c"
    and "\<And>w i n. page_key (ms s) w = Some (i, n) \<Longrightarrow> \<forall>pp. procs s p = Some pp \<longrightarrow> pid pp \<noteq> i \<Longrightarrow>
      page_key (ms s') w = Some (i, n)"
  shows "only_moves p s s'"
  using assms unfolding only_moves_def by blast

lemma only_movesD:
  assumes "only_moves p s s'"
  shows only_moves_file: "contents (tracefile s') = contents (tracefile s)"
    and only_moves_other: "\<And>c. c \<noteq> p \<Longrightarrow> procs s' c = procs s c"
    and only_moves_key: "\<And>w i n. page_key (ms s) w = Some (i, n) \<Longrightarrow>
      (\<And>pp. procs s p = Some pp \<Longrightarrow> pid pp \<noteq> i) \<Longrightarrow> page_key (ms s') w = Some (i, n)"
  using assms unfolding only_moves_def by blast+

lemma only_moves_work:
  assumes "only_moves p s s'" "finite (dom (procs s))" "procs s p = Some pp"
  shows only_moves_gone: "procs s' p = None \<Longrightarrow> machine_work s = work_left pp + machine_work s'"
    and only_moves_stays: "procs s' p = Some pp' \<Longrightarrow>
      machine_work s + work_left pp' = machine_work s' + work_left pp"
proof -
  let ?W = "\<lambda>h c. work_left (the (h c))" and ?D = "dom (procs s) - {p}"
  have rest: "sum (?W (procs s')) ?D = sum (?W (procs s)) ?D"
    using only_moves_other [OF assms(1)] by (intro sum.cong) auto
  have dom: "dom (procs s') - {p} = ?D"
    using only_moves_other [OF assms(1)] by (auto simp: dom_def)
  have "p \<in> dom (procs s)" using assms(3) by blast
  then have old: "machine_work s = work_left pp + sum (?W (procs s)) ?D"
    using assms(2,3) by (simp add: machine_work_def sum.remove [of _ p])
  have fin: "finite (dom (procs s'))" using dom assms(2) finite_Diff2 [of "{p}" "dom (procs s')"] by simp
  show "machine_work s = work_left pp + machine_work s'" if "procs s' p = None"
  proof -
    have "dom (procs s') = ?D" using dom that by auto
    with rest old show ?thesis by (simp add: machine_work_def)
  qed
  show "machine_work s + work_left pp' = machine_work s' + work_left pp" if "procs s' p = Some pp'"
  proof -
    have "p \<in> dom (procs s')" using that by blast
    with fin that dom rest old show ?thesis by (simp add: machine_work_def sum.remove [of _ p])
  qed
qed

lemma only_moves_dom:
  assumes "only_moves p s s'" "procs s p = Some pp"
  shows "dom (procs s') \<subseteq> dom (procs s)"
  using only_moves_other [OF assms(1)] assms(2) by (metis (no_types, lifting) domIff option.discI subsetI)

section \<open>The page a line names\<close>

text \<open>A blocked process waits for the page that the line at its saved position names.\<close>

definition line_waits :: "FILE \<Rightarrow> mstate \<Rightarrow> Process \<Rightarrow> bool" where
  "line_waits f m pp \<longleftrightarrow> (\<exists>v k n f'. waitingOnPage pp = Some v \<and> page_key m v = Some (pid pp, n)
     \<and> fscanf True (fseek f (currentPos pp)) = (LPair k n, f'))"

definition lines_wait :: "'r machine \<Rightarrow> bool" where
  "lines_wait s \<longleftrightarrow> (\<forall>b bp. procs s b = Some bp \<longrightarrow> status bp = BLOCKED \<longrightarrow> line_waits (tracefile s) (ms s) bp)"

text \<open>The line that \<open>p\<close> reads next names a page that is in memory.\<close>

definition ready_line :: "paddr \<Rightarrow> 'r machine \<Rightarrow> bool" where
  "ready_line p s \<longleftrightarrow> (\<exists>pp ws v vp k n f'. procs s p = Some pp \<and> pageTable pp = Val ws \<and> v \<in> set ws
     \<and> vheap (ms s) v = Some vp \<and> vp_pid vp = pid pp \<and> vpn vp = n \<and> inMemory vp
     \<and> fscanf True (tracefile s) = (LPair k n, f'))"

text \<open>The file stands at the saved position of \<open>p\<close>, and the line there names a page in memory.\<close>

definition ready_head :: "paddr \<Rightarrow> 'r machine \<Rightarrow> bool" where
  "ready_head p s \<longleftrightarrow> ready_line p s \<and> (\<forall>pp. procs s p = Some pp \<longrightarrow> currentPos pp = ftell (tracefile s))"

lemma fseek_same: "contents f = contents g \<Longrightarrow> fseek f x = fseek g x"
  by (simp add: fseek_def)

lemma fseek_ftell: "contents f = contents g \<Longrightarrow> fseek f (ftell g) = g"
  by (simp add: fseek_def ftell_def)

lemma line_waits_cong:
  assumes "line_waits f m pp" "contents g = contents f"
    and "\<And>v n. page_key m v = Some (pid pp, n) \<Longrightarrow> page_key m' v = Some (pid pp, n)"
    and "pid pp' = pid pp" "waitingOnPage pp' = waitingOnPage pp" "currentPos pp' = currentPos pp"
  shows "line_waits g m' pp'"
  using assms fseek_same [OF assms(2)] unfolding line_waits_def by metis

lemma lines_wait_moves:
  assumes "lines_wait s" "only_moves p s s'" "procs s p = Some pp"
    and "\<And>c cp. procs s c = Some cp \<Longrightarrow> c \<noteq> p \<Longrightarrow> pid cp \<noteq> pid pp"
    and "\<And>pp'. procs s' p = Some pp' \<Longrightarrow> status pp' = BLOCKED \<Longrightarrow> line_waits (tracefile s') (ms s') pp'"
  shows "lines_wait s'"
  unfolding lines_wait_def
proof (intro allI impI)
  fix b bp assume b: "procs s' b = Some bp" "status bp = BLOCKED"
  show "line_waits (tracefile s') (ms s') bp"
  proof (cases "b = p")
    case False
    then have old: "procs s b = Some bp" using b(1) only_moves_other [OF assms(2)] by simp
    then have "line_waits (tracefile s) (ms s) bp" using assms(1) b(2) unfolding lines_wait_def by blast
    moreover have "page_key (ms s') v = Some (pid bp, n)" if "page_key (ms s) v = Some (pid bp, n)" for v n
      using only_moves_key [OF assms(2) that] assms(3,4) old False by force
    ultimately show ?thesis using only_moves_file [OF assms(2)] by (auto elim: line_waits_cong)
  qed (use assms(5) b in blast)
qed

text \<open>A page number is found at its only page.\<close>

lemma lookup_page_unique:
  assumes "distinct (map (page_key m) ws)" "\<forall>w \<in> set ws. \<exists>n. page_key m w = Some (i, n)"
    and "v \<in> set ws" "page_key m v = Some (i, n)"
  shows "lookup_page m n ws = Some v"
proof (cases "lookup_page m n ws")
  case None
  with assms(3,4) lookup_page_None show ?thesis by metis
next
  case (Some w)
  then have w: "w \<in> set ws" "\<exists>vp. vheap m w = Some vp \<and> vpn vp = n" using lookup_page_Some by blast+
  then have "page_key m w = Some (i, n)" using assms(2) by (fastforce simp: page_key_Some)
  with assms(1,3,4) w(1) Some show ?thesis by (metis distinct_map inj_on_contraD)
qed

section \<open>What a line and the disk do\<close>

text \<open>\<open>advanced\<close> is what follows a hit; \<open>progressed\<close> is the hit with it.\<close>

definition advanced :: "paddr \<Rightarrow> 'r machine \<Rightarrow> 'r machine \<Rightarrow> bool" where
  "advanced p s s' \<longleftrightarrow> only_moves p s s' \<and> pq s' BLOCKED = pq s BLOCKED
     \<and> (\<exists>pp. procs s p = Some pp
          \<and> (case procs s' p of None \<Rightarrow> work_left pp = 1
             | Some pp' \<Rightarrow> status pp' = RUNNABLE \<and> work_left pp = Suc (work_left pp')))"

definition progressed :: "paddr \<Rightarrow> 'r machine \<Rightarrow> 'r machine \<Rightarrow> bool" where
  "progressed p s s' \<longleftrightarrow> advanced p s s'
     \<and> tmr (stats s') = tmr (stats s) + 1 \<and> tpi (stats s') = tpi (stats s)"

definition missed :: "paddr \<Rightarrow> 'r machine \<Rightarrow> 'r machine \<Rightarrow> bool" where
  "missed p s s' \<longleftrightarrow> only_moves p s s' \<and> pq s RUNNABLE = p # pq s' RUNNABLE
     \<and> pq s' BLOCKED = pq s BLOCKED @ [p]
     \<and> tmr (stats s') = tmr (stats s) \<and> tpi (stats s') = tpi (stats s) + 1
     \<and> (\<exists>pp pp'. procs s p = Some pp \<and> procs s' p = Some pp' \<and> work_left pp' = work_left pp
          \<and> waitTime pp' = DISK_PENALTY \<and> line_waits (tracefile s') (ms s') pp')"

definition resumed :: "paddr \<Rightarrow> 'r machine \<Rightarrow> 'r machine \<Rightarrow> bool" where
  "resumed b s s' \<longleftrightarrow> only_moves b s s' \<and> pq s BLOCKED = b # pq s' BLOCKED
     \<and> tmr (stats s') = tmr (stats s) \<and> tpi (stats s') = tpi (stats s) \<and> log s' = log s
     \<and> (\<exists>bp v vp. procs s b = Some bp \<and> waitingOnPage bp = Some v
          \<and> pq s' RUNNABLE = place (procs s) b (currentPos bp) (pq s RUNNABLE)
          \<and> procs s' b = Some (bp\<lparr>waitTime := 0, waitingOnPage := None, status := RUNNABLE\<rparr>)
          \<and> ftell (tracefile s') = currentPos bp \<and> page_key (ms s') v = page_key (ms s) v
          \<and> vheap (ms s') v = Some vp \<and> inMemory vp)"

text \<open>
  Where a line leads: after a hit the process \<open>p\<close>, before it \<open>pp\<close>, is gone, on the next line (with
  the file \<open>f\<close> and the run queue \<open>R\<close> left alone), or at the start of its next interval; after a
  miss it has saved the position \<open>x\<close> of the line. The last argument is the variable \<open>p\<close> of the loop.
\<close>

definition lands :: "Process \<Rightarrow> FILE \<Rightarrow> paddr list \<Rightarrow> paddr \<Rightarrow> 'r machine \<Rightarrow> paddr option \<Rightarrow> bool" where
  "lands pp f R p s' c \<longleftrightarrow> (case procs s' p of None \<Rightarrow> c = None
     | Some pp' \<Rightarrow> c = Some p \<and> lineIntervals pp' = lineIntervals pp \<and> pid pp' = pid pp
         \<and> (currInterval pp' = currInterval pp \<and> currentline pp' = currentline pp + 1
              \<and> currentline pp < fst (snd (it_chain (lineIntervals pp) ! currInterval pp))
              \<and> tracefile s' = f \<and> pq s' RUNNABLE = R
            \<or> currInterval pp' = Suc (currInterval pp) \<and> ftell (tracefile s') = currentPos pp'
              \<and> (\<exists>h. it_chain (lineIntervals pp) ! Suc (currInterval pp) = (currentline pp', h, Val (currentPos pp')))))"

definition stalls :: "Process \<Rightarrow> fpos \<Rightarrow> paddr \<Rightarrow> 'r machine \<Rightarrow> paddr option \<Rightarrow> bool" where
  "stalls pp x p s' c \<longleftrightarrow> c = Some p \<and> p \<notin> set (pq s' RUNNABLE) \<and> (\<exists>pp'. procs s' p = Some pp'
     \<and> lineIntervals pp' = lineIntervals pp \<and> pid pp' = pid pp \<and> currInterval pp' = currInterval pp
     \<and> currentline pp' = currentline pp \<and> currentPos pp' = x)"

definition reads_line :: "paddr \<Rightarrow> 'r machine \<Rightarrow> 'r machine \<Rightarrow> paddr option \<Rightarrow> bool" where
  "reads_line p s s' c \<longleftrightarrow> (\<exists>pp k n f. procs s p = Some pp \<and> fscanf True (tracefile s) = (LPair k n, f)
     \<and> log s' = log s @ (if k \<noteq> pid pp then [''ERROR: Wrong line in tracefile recieved.''] else [])
     \<and> (lands pp f (pq s RUNNABLE) p s' c \<or> stalls pp (ftell (tracefile s)) p s' c))"

lemma lands_pages [simp]: "lands (pp\<lparr>pageTable := t\<rparr>) f R p s' c \<longleftrightarrow> lands pp f R p s' c"
  by (simp add: lands_def split: option.split)

text \<open>
  What the line does to the pages: the page \<open>v\<close> that it names is found or created, in a memory \<open>m\<close>
  that only gained pages, two of them queries that nothing frees, with at most a new overhead in the replacement module; a hit is reported
  to the module, a miss makes the process wait for the page.
\<close>

definition renews :: "'r replace_ops \<Rightarrow> 'r \<Rightarrow> 'r \<Rightarrow> bool" where
  "renews ops r r' \<longleftrightarrow> r' = r \<or> (\<exists>v m ov. Replace_initOverhead ops v m r = Inr (ov, r'))"

text \<open>The table of the process holds the page already, or gains it, and then it is not in memory.\<close>

definition table_adds :: "mstate \<Rightarrow> Process \<Rightarrow> vaddr \<Rightarrow> vaddr list \<Rightarrow> bool" where
  "table_adds m pp v ws \<longleftrightarrow> pageTable pp = Val ws
     \<or> (\<exists>us vp. pageTable pp = Val us \<and> ws = us @ [v] \<and> vheap m v = Some vp \<and> \<not> inMemory vp)"

lemma table_adds_grows: "table_adds m pp v ws \<Longrightarrow> grows m m' \<Longrightarrow> table_adds m' pp v ws"
  using grows_heap [of m m'] unfolding table_adds_def by blast

text \<open>
  Pages with pid 0 are the queries of the lookups. With \<open>leaks k X m m'\<close> the memory \<open>m'\<close> has \<open>k\<close> more of them
  than \<open>m\<close>, and no other pages than those in \<open>m\<close> and \<open>X\<close>.
\<close>

definition queries :: "mstate \<Rightarrow> vaddr set" where
  "queries m = {w. \<exists>wp. vheap m w = Some wp \<and> vp_pid wp = 0}"

definition leaks :: "nat \<Rightarrow> vaddr set \<Rightarrow> mstate \<Rightarrow> mstate \<Rightarrow> bool" where
  "leaks k X m m' \<longleftrightarrow> card (queries m') = card (queries m) + k
     \<and> (\<forall>w. managed m' w \<noteq> None \<longrightarrow> managed m w \<noteq> None \<or> w \<in> X)"

lemma finite_queries:
  assumes "mem_inv m"
  shows "finite (queries m)"
proof (rule finite_subset [of _ "{..<vnext m}"])
  have "vheap m w = None" if "vnext m \<le> w" for w
    using mem_links_fresh [OF mem_inv_links [OF assms]] that by simp
  then show "queries m \<subseteq> {..<vnext m}" by (auto simp: queries_def not_le [symmetric])
qed simp

lemma leaks_trans:
  assumes "leaks k X m m1" "leaks k' Y m1 m'" "X \<subseteq> Z" "Y \<subseteq> Z"
  shows "leaks (k + k') Z m m'"
  unfolding leaks_def
proof (intro conjI allI impI)
  show "card (queries m') = card (queries m) + (k + k')" using assms(1,2) by (simp add: leaks_def)
  fix w assume "managed m' w \<noteq> None"
  then have "managed m1 w \<noteq> None \<or> w \<in> Y" using assms(2) unfolding leaks_def by blast
  then show "managed m w \<noteq> None \<or> w \<in> Z" using assms(1,3,4) unfolding leaks_def by blast
qed

lemma leaks_same: "vheap m' = vheap m \<Longrightarrow> leaks 0 X m m'"
  by (simp add: leaks_def queries_def managed_def)

lemma leaks_query:
  assumes "mem_inv m" "vp_pid q = 0"
  shows "leaks 1 X m (put_page (vnext m) q m)"
proof -
  have fresh: "vheap m (vnext m) = None"
    using mem_links_fresh [OF mem_inv_links [OF assms(1)]] by simp
  then have "queries (put_page (vnext m) q m) = insert (vnext m) (queries m)" "vnext m \<notin> queries m"
    using assms(2) by (auto simp: queries_def)
  then show ?thesis using finite_queries [OF assms(1)] assms(2) by (simp add: leaks_def managed_upd)
qed

lemma leaks_page:
  assumes "mem_inv m" "vp_pid vp \<noteq> 0"
  shows "leaks 0 {vnext m} m (put_page (vnext m) vp m)"
proof -
  have fresh: "vheap m (vnext m) = None"
    using mem_links_fresh [OF mem_inv_links [OF assms(1)]] by simp
  then have "queries (put_page (vnext m) vp m) = queries m"
    using assms(2) by (auto simp: queries_def)
  then show ?thesis by (simp add: leaks_def managed_upd)
qed

text \<open>The line goes on after a hit, or makes its process wait.\<close>

definition page_served :: "'r replace_ops \<Rightarrow> mstate \<Rightarrow> 'r \<Rightarrow> vaddr \<Rightarrow> VPage \<Rightarrow> vaddr list \<Rightarrow> paddr \<Rightarrow> 'r machine \<Rightarrow> 'r machine \<Rightarrow> bool" where
  "page_served ops m r v vp ws p s s' \<longleftrightarrow>
     (if inMemory vp
      then pq s' BLOCKED = pq s BLOCKED \<and> (\<forall>w. w \<notin> set ws \<longrightarrow> vheap (ms s') w = vheap m w)
        \<and> (procs s' p = None \<longrightarrow> (\<forall>w \<in> set ws. vheap (ms s') w = None))
        \<and> length (memory (ms s')) = length (memory m) \<and> (\<exists>ov r'. overhead vp = Val ov \<and> Replace_notifyPageAccess ops ov m r = Inr r'
        \<and> (\<forall>pp'. procs s' p = Some pp' \<longrightarrow> pageTable pp' = Val ws \<and> ms s' = m \<and> rep s' = r'))
      else pq s' BLOCKED = pq s BLOCKED @ [p] \<and> ms s' = m \<and> rep s' = r
        \<and> (\<exists>pp'. procs s' p = Some pp' \<and> pageTable pp' = Val ws \<and> waitingOnPage pp' = Some v))"

definition serves :: "'r replace_ops \<Rightarrow> (mstate \<Rightarrow> 'r \<Rightarrow> bool) \<Rightarrow> paddr \<Rightarrow> 'r machine \<Rightarrow> 'r machine \<Rightarrow> bool" where
  "serves ops rinv p s s' \<longleftrightarrow> (\<exists>pp k n f m r v vp ws. procs s p = Some pp \<and> fscanf True (tracefile s) = (LPair k n, f)
     \<and> mem_inv m \<and> rinv m r \<and> grows (ms s) m \<and> leaks 2 (set ws) (ms s) m \<and> renews ops (rep s) r \<and> pages_ok m (pp\<lparr>pageTable := Val ws\<rparr>)
     \<and> v \<in> set ws \<and> page_key m v = Some (pid pp, n) \<and> vheap m v = Some vp \<and> table_adds m pp v ws
     \<and> page_served ops m r v vp ws p s s')"

text \<open>The end of a disk access moves the page into memory.\<close>

definition delivers :: "'r replace_ops \<Rightarrow> paddr \<Rightarrow> 'r machine \<Rightarrow> 'r machine \<Rightarrow> bool" where
  "delivers ops b s s' \<longleftrightarrow> (\<exists>bp. procs s b = Some bp \<and> page_in ops (waitingOnPage bp) (ms s) (rep s) = Inr (ms s', rep s'))"

text \<open>The file when the head \<open>p\<close> of the run queue reads: a change of the head seeks its position.\<close>

definition sought :: "paddr option \<Rightarrow> paddr \<Rightarrow> 'r machine \<Rightarrow> 'r machine" where
  "sought c p s = (case procs s p of None \<Rightarrow> s
     | Some pp \<Rightarrow> if c = Some p then s else s\<lparr>tracefile := fseek (tracefile s) (currentPos pp)\<rparr>)"

definition unreadable :: "FILE \<Rightarrow> bool" where
  "unreadable f \<longleftrightarrow> (\<forall>k n g. fscanf True f \<noteq> (LPair k n, g))"

text \<open>A turn before its line: the tick, and the wait of the process at the head of the disk queue.\<close>

definition ticked :: "'r machine \<Rightarrow> 'r machine" where
  "ticked s = (case pq s BLOCKED of [] \<Rightarrow> tick CLOCK_TICK s
     | b # B \<Rightarrow> (tick CLOCK_TICK s)\<lparr>procs := (procs s)(b := map_option
         (\<lambda>bp. bp\<lparr>waitTime := waitTime bp - CLOCK_TICK\<rparr>) (procs s b))\<rparr>)"

definition head_due :: "'r machine \<Rightarrow> bool" where
  "head_due s \<longleftrightarrow> (\<exists>b B bp. pq s BLOCKED = b # B \<and> procs s b = Some bp \<and> waitTime bp = 1)"

text \<open>
  A run that cannot go on: it gets to a turn in which the disk is not due and the process at the head of the run
  queue finds no pair of numbers where the file stands (moved to its own line, if it was not the last to read).
\<close>

definition stuck :: "'r env \<Rightarrow> 'r sim \<Rightarrow> bool" where
  "stuck env \<sigma> \<longleftrightarrow> (\<exists>\<sigma>' p q. steps env \<sigma> \<sigma>' \<and> \<not> head_due (mach \<sigma>') \<and> pq (mach \<sigma>') RUNNABLE = p # q
     \<and> unreadable (tracefile (sought (cur \<sigma>') p (ticked (mach \<sigma>')))))"

lemma stuck_step: "Simulator_notDone (mach \<sigma>) \<Longrightarrow> sim_step env \<sigma> = Inr \<sigma>1 \<Longrightarrow> stuck env \<sigma>1 \<Longrightarrow> stuck env \<sigma>"
  unfolding stuck_def by (blast intro: steps_step)

definition idled :: "'r sim \<Rightarrow> 'r sim \<Rightarrow> bool" where
  "idled \<sigma> \<sigma>' \<longleftrightarrow> (\<exists>b B bp. pq (mach \<sigma>) BLOCKED = b # B \<and> procs (mach \<sigma>) b = Some bp
     \<and> tmr (stats (mach \<sigma>')) = tmr (stats (mach \<sigma>)) \<and> tpi (stats (mach \<sigma>')) = tpi (stats (mach \<sigma>))
     \<and> tracefile (mach \<sigma>') = tracefile (mach \<sigma>) \<and> log (mach \<sigma>') = log (mach \<sigma>) \<and> cur \<sigma>' = cur \<sigma>
     \<and> pq (mach \<sigma>') = pq (mach \<sigma>) \<and> only_moves b (mach \<sigma>) (mach \<sigma>') \<and> ms (mach \<sigma>') = ms (mach \<sigma>)
     \<and> procs (mach \<sigma>') b = Some (bp\<lparr>waitTime := 1\<rparr>) \<and> time \<sigma>' = time \<sigma> + (waitTime bp - 1))"

text \<open>The turns: the disk is done, the wait is skipped, or a line is read.\<close>

definition turn :: "'r sim \<Rightarrow> 'r sim \<Rightarrow> bool" where
  "turn \<sigma> \<sigma>' \<longleftrightarrow>
     (if head_due (mach \<sigma>)
      then resumed (hd (pq (mach \<sigma>) BLOCKED)) (mach \<sigma>) (mach \<sigma>') \<and> time \<sigma>' = time \<sigma> + 1 \<and> cur \<sigma>' = cur \<sigma>
      else case pq (mach \<sigma>) RUNNABLE of
        [] \<Rightarrow> idled \<sigma> \<sigma>'
      | p # q \<Rightarrow> time \<sigma>' = time \<sigma> + 1
          \<and> reads_line p (sought (cur \<sigma>) p (ticked (mach \<sigma>))) (mach \<sigma>') (cur \<sigma>')
          \<and> (progressed p (ticked (mach \<sigma>)) (mach \<sigma>')
             \<or> missed p (ticked (mach \<sigma>)) (mach \<sigma>') \<and> \<not> ready_head p (ticked (mach \<sigma>))))"

definition serves_turn :: "'r replace_ops \<Rightarrow> (mstate \<Rightarrow> 'r \<Rightarrow> bool) \<Rightarrow> 'r sim \<Rightarrow> 'r sim \<Rightarrow> bool" where
  "serves_turn ops rinv \<sigma> \<sigma>' \<longleftrightarrow>
     (if head_due (mach \<sigma>) then delivers ops (hd (pq (mach \<sigma>) BLOCKED)) (mach \<sigma>) (mach \<sigma>')
      else case pq (mach \<sigma>) RUNNABLE of
        [] \<Rightarrow> rep (mach \<sigma>') = rep (mach \<sigma>)
      | p # q \<Rightarrow> serves ops rinv p (sought (cur \<sigma>) p (ticked (mach \<sigma>))) (mach \<sigma>'))"

lemma only_moves_through:
  assumes "only_moves p s t" "procs s p = Some pp" "procs t p = Some pp1" "pid pp1 = pid pp" "only_moves p t s'"
  shows "only_moves p s s'"
  using assms unfolding only_moves_def by fastforce

lemma advanced_through:
  assumes "only_moves p s t" "procs s p = Some pp" "procs t p = Some pp1" "pid pp1 = pid pp"
    and "work_left pp1 = work_left pp" "pq t BLOCKED = pq s BLOCKED" "advanced p t s'"
  shows "advanced p s s'"
proof -
  have "only_moves p s s'" using only_moves_through [OF assms(1-4)] assms(7) by (simp add: advanced_def)
  with assms show ?thesis by (auto simp: advanced_def split: option.splits)
qed

lemma missed_through:
  assumes "only_moves p s t" "procs s p = Some pp" "procs t p = Some pp1" "pid pp1 = pid pp"
    and "work_left pp1 = work_left pp" "pq t = pq s" "stats t = stats s" "missed p t s'"
  shows "missed p s s'"
  using assms only_moves_through [OF assms(1-4)] unfolding missed_def by fastforce

lemma place_length [simp]: "length (place h p x q) = Suc (length q)"
proof -
  have "length (takeWhile P q) + length (dropWhile P q) = length q" for P :: "paddr \<Rightarrow> bool"
    by (metis length_append takeWhile_dropWhile_id)
  then show ?thesis by (simp add: place_def)
qed

end
