(* ===== verification/ReplaceQueue.thy ===== *)
theory ReplaceQueue
  imports ReplacePolicy
begin

text \<open>
  The state that \<open>replace-fifo.c\<close> and \<open>replace-lru.c\<close> both keep, declared alike in the two
  files: a tail queue of overhead items, each with a pointer back to its page and a flag that
  says whether it is on the queue, and the counters \<open>capacity\<close> and \<open>pages\<close>. The invariant
  ties the queue to the pages in memory.
\<close>

section \<open>State\<close>

record qitem =
  parent :: vaddr
  inQueue :: bool

record qstate =
  items :: "oaddr \<Rightarrow> qitem option"
  next_item :: oaddr
  queue :: "oaddr list"
  capacity :: int
  pages :: int

definition qstate_boot :: qstate where
  "qstate_boot = \<lparr>items = (\<lambda>_. None), next_item = 0, queue = [], capacity = 0, pages = 0\<rparr>"

text \<open>The pages on the queue, head first.\<close>

definition queued_pages :: "qstate \<Rightarrow> vaddr list" where
  "queued_pages r = map (\<lambda>a. case items r a of None \<Rightarrow> 0 | Some it \<Rightarrow> parent it) (queue r)"

section \<open>Invariant\<close>

text \<open>Overhead items and managed pages point at each other.\<close>

definition q_links :: "mstate \<Rightarrow> qstate \<Rightarrow> bool" where
  "q_links s r \<longleftrightarrow>
     (\<forall>v vp. managed s v = Some vp \<longrightarrow>
        (\<exists>a. overhead vp = Val (Some a) \<and> items r a = Some \<lparr>parent = v, inQueue = inMemory vp\<rparr>))
     \<and> (\<forall>a it. items r a = Some it \<longrightarrow>
        (\<exists>vp. managed s (parent it) = Some vp \<and> overhead vp = Val (Some a)))
     \<and> (\<forall>a \<ge> next_item r. items r a = None)
     \<and> (\<forall>i v. frames s i = Some v \<longrightarrow> managed s v \<noteq> None)"

text \<open>The queue holds the items marked as queued, once each, as many as there are frames in use.\<close>

definition q_queue :: "mstate \<Rightarrow> qstate \<Rightarrow> bool" where
  "q_queue s r \<longleftrightarrow>
     distinct (queue r)
     \<and> (\<forall>a. a \<in> set (queue r) \<longleftrightarrow> (\<exists>it. items r a = Some it \<and> inQueue it))
     \<and> length (queue r) = card (dom (frames s))
     \<and> pages r = int (length (queue r))
     \<and> capacity r = int (length (memory s))"

definition qinv :: "mstate \<Rightarrow> qstate \<Rightarrow> bool" where
  "qinv s r \<longleftrightarrow> q_links s r \<and> q_queue s r"

lemma qinv_frame:
  "qinv s r \<Longrightarrow> frames s' = frames s \<Longrightarrow> managed s' = managed s \<Longrightarrow>
    length (memory s') = length (memory s) \<Longrightarrow> qinv s' r"
  by (simp add: qinv_def q_links_def q_queue_def)

lemma qinv_item:
  assumes "qinv s r" "managed s v = Some vp"
  obtains a where "overhead vp = Val (Some a)"
    "items r a = Some \<lparr>parent = v, inQueue = inMemory vp\<rparr>"
  using assms unfolding qinv_def q_links_def by blast

lemma qinv_parent:
  assumes "qinv s r" "items r a = Some it"
  obtains vp where "managed s (parent it) = Some vp" "overhead vp = Val (Some a)"
    "inQueue it = inMemory vp"
proof -
  obtain vp where vp: "managed s (parent it) = Some vp" "overhead vp = Val (Some a)"
    using assms unfolding qinv_def q_links_def by blast
  moreover from vp have "inQueue it = inMemory vp"
    using qinv_item [OF assms(1) vp(1)] assms(2) by (metis cval.inject option.inject qitem.select_convs(2))
  ultimately show thesis by (rule that)
qed

lemma qinv_bounds:
  assumes "qinv s r"
  shows "0 \<le> pages r" "pages r \<le> capacity r"
proof -
  have "card (dom (frames s)) \<le> length (memory s)"
    using card_mono [OF _ dom_frames_subset [of s]] by simp
  with assms show "0 \<le> pages r" "pages r \<le> capacity r"
    by (simp_all add: qinv_def q_queue_def)
qed

lemma qinv_mem_queue: "qinv s r \<Longrightarrow> a \<in> set (queue r) \<longleftrightarrow> (\<exists>it. items r a = Some it \<and> inQueue it)"
  by (simp add: qinv_def q_queue_def)

section \<open>The moves of the queue\<close>

definition q_add :: "oaddr \<Rightarrow> vaddr \<Rightarrow> qstate \<Rightarrow> qstate" where
  "q_add a v r = r\<lparr>items := (items r)(a \<mapsto> \<lparr>parent = v, inQueue = False\<rparr>), next_item := Suc a\<rparr>"

definition q_push :: "oaddr \<Rightarrow> vaddr \<Rightarrow> qstate \<Rightarrow> qstate" where
  "q_push a v r = r\<lparr>items := (items r)(a \<mapsto> \<lparr>parent = v, inQueue = True\<rparr>),
     queue := queue r @ [a], pages := pages r + 1\<rparr>"

definition q_pull :: "oaddr \<Rightarrow> vaddr \<Rightarrow> qstate \<Rightarrow> qstate" where
  "q_pull a v r = r\<lparr>items := (items r)(a \<mapsto> \<lparr>parent = v, inQueue = False\<rparr>),
     queue := remove1 a (queue r), pages := pages r - 1\<rparr>"

definition q_drop :: "oaddr \<Rightarrow> qstate \<Rightarrow> qstate" where
  "q_drop a r = r\<lparr>items := (items r)(a := None)\<rparr>"

lemma q_linksI:
  assumes "\<And>v vp. managed s v = Some vp \<Longrightarrow>
      \<exists>a. overhead vp = Val (Some a) \<and> items r a = Some \<lparr>parent = v, inQueue = inMemory vp\<rparr>"
    and "\<And>a it. items r a = Some it \<Longrightarrow>
      \<exists>vp. managed s (parent it) = Some vp \<and> overhead vp = Val (Some a)"
    and "\<And>a. next_item r \<le> a \<Longrightarrow> items r a = None"
    and "\<And>i v. frames s i = Some v \<Longrightarrow> managed s v \<noteq> None"
  shows "q_links s r"
  using assms by (simp add: q_links_def)

lemma qinv_resident: "qinv s r \<Longrightarrow> frames s i = Some v \<Longrightarrow> \<exists>vp. managed s v = Some vp"
  unfolding qinv_def q_links_def by blast

lemma qinv_fresh: "qinv s r \<Longrightarrow> next_item r \<le> a \<Longrightarrow> items r a = None"
  by (simp add: qinv_def q_links_def)

text \<open>All moves but the last rewrite one item and its page; this is why they keep the links.\<close>

lemma q_links_upd:
  assumes inv: "qinv s r"
    and at: "managed s v = None \<and> items r a = None
      \<or> (\<exists>vp. managed s v = Some vp \<and> overhead vp = Val (Some a))"
    and page: "managed s' = (managed s)(v \<mapsto> vp')" "overhead vp' = Val (Some a)"
    and item: "items r' = (items r)(a \<mapsto> \<lparr>parent = v, inQueue = inMemory vp'\<rparr>)"
      "next_item r \<le> next_item r'" "a < next_item r'"
    and frame: "\<And>i w. frames s' i = Some w \<Longrightarrow> w = v \<or> (\<exists>j. frames s j = Some w)"
  shows "q_links s' r'"
proof (rule q_linksI)
  fix w wp assume w: "managed s' w = Some wp"
  show "\<exists>b. overhead wp = Val (Some b) \<and> items r' b = Some \<lparr>parent = w, inQueue = inMemory wp\<rparr>"
  proof (cases "w = v")
    case True
    with w page item show ?thesis by auto
  next
    case False
    with w page have "managed s w = Some wp" by simp
    with inv obtain b where b: "overhead wp = Val (Some b)"
      "items r b = Some \<lparr>parent = w, inQueue = inMemory wp\<rparr>" by (rule qinv_item)
    have "b \<noteq> a"
    proof
      assume "b = a"
      with at b(2) obtain vp where "managed s v = Some vp" "overhead vp = Val (Some a)" by auto
      with inv obtain c where "overhead vp = Val (Some c)"
        "items r c = Some \<lparr>parent = v, inQueue = inMemory vp\<rparr>" by (elim qinv_item)
      with b(2) \<open>b = a\<close> \<open>overhead vp = Val (Some a)\<close> False show False by simp
    qed
    with b item(1) show ?thesis by simp
  qed
next
  fix b it assume b: "items r' b = Some it"
  show "\<exists>wp. managed s' (parent it) = Some wp \<and> overhead wp = Val (Some b)"
  proof (cases "b = a")
    case True
    with b page item(1) show ?thesis by auto
  next
    case False
    with b item(1) have "items r b = Some it" by simp
    with inv obtain wp where wp: "managed s (parent it) = Some wp" "overhead wp = Val (Some b)"
      by (rule qinv_parent)
    with at False have "parent it \<noteq> v" by auto
    with wp page(1) show ?thesis by simp
  qed
next
  fix b assume "next_item r' \<le> b"
  with item qinv_fresh [OF inv, of b] show "items r' b = None" by simp
next
  fix i w assume "frames s' i = Some w"
  then show "managed s' w \<noteq> None"
    using frame [of i w] qinv_resident [OF inv] page(1) by auto
qed

lemma qinv_new:
  assumes "qinv s r" "managed s v = None" "vp_pid vp \<noteq> 0"
    and "overhead vp = Val (Some (next_item r))" "\<not> inMemory vp"
  shows "qinv (put_page v vp s) (q_add (next_item r) v r)"
proof -
  let ?a = "next_item r"
  have fresh: "items r ?a = None" using assms(1) by (simp add: qinv_fresh)
  have "q_links (put_page v vp s) (q_add ?a v r)"
    by (rule q_links_upd [OF assms(1), where v = v and a = ?a and vp' = vp])
       (use assms fresh in \<open>auto simp: managed_upd q_add_def\<close>)
  moreover have "?a \<notin> set (queue r)" using assms(1) fresh by (simp add: qinv_mem_queue)
  then have "q_queue (put_page v vp s) (q_add ?a v r)"
    using assms(1) by (auto simp: qinv_def q_queue_def q_add_def)
  ultimately show ?thesis by (simp add: qinv_def)
qed

lemma qinv_push:
  assumes "qinv s r" "managed s v = Some vp" "\<not> inMemory vp" "overhead vp = Val (Some a)"
    and "unat p < length (memory s)" "frames s (unat p) = None"
  shows "qinv (loaded v vp p s) (q_push a v r)"
proof -
  have pid: "vp_pid vp \<noteq> 0" using assms(2) by (simp add: managed_Some)
  have it: "items r a = Some \<lparr>parent = v, inQueue = False\<rparr>"
    using qinv_item [OF assms(1,2)] assms(3,4) by auto
  have "a < next_item r" using qinv_fresh [OF assms(1), of a] it by (cases "a < next_item r") auto
  then have "q_links (loaded v vp p s) (q_push a v r)"
    by (intro q_links_upd [OF assms(1), where v = v and a = a
          and vp' = "vp\<lparr>inMemory := True, currentPPN := Val p\<rparr>"])
       (use assms pid in \<open>auto simp: managed_loaded q_push_def frames_loaded split: if_splits\<close>)
  moreover have "a \<notin> set (queue r)" using assms(1) it by (simp add: qinv_mem_queue)
  moreover have "card (dom (frames (loaded v vp p s))) = Suc (card (dom (frames s)))"
    using assms(5,6) by (simp add: frames_loaded domIff)
  ultimately show ?thesis
    using assms(1) it by (auto simp: qinv_def q_queue_def q_push_def)
qed

lemma qinv_pull:
  assumes "qinv s r" "managed s v = Some vp" "overhead vp = Val (Some a)" "inMemory vp"
    and "frames s (unat p) = Some v"
  shows "qinv (evicted v vp p s) (q_pull a v r)"
proof -
  have pid: "vp_pid vp \<noteq> 0" using assms(2) by (simp add: managed_Some)
  have it: "items r a = Some \<lparr>parent = v, inQueue = True\<rparr>"
    using qinv_item [OF assms(1,2)] assms(3,4) by auto
  have len: "unat p < length (memory s)" using assms(5) by (rule frames_bound)
  have "a < next_item r" using qinv_fresh [OF assms(1), of a] it by (cases "a < next_item r") auto
  then have "q_links (evicted v vp p s) (q_pull a v r)"
    by (intro q_links_upd [OF assms(1), where v = v and a = a and vp' = "vp\<lparr>inMemory := False\<rparr>"])
       (use assms pid len in \<open>auto simp: managed_evicted q_pull_def frames_evicted split: if_splits\<close>)
  moreover have "a \<in> set (queue r)" using assms(1) it by (simp add: qinv_mem_queue)
  moreover have "card (dom (frames (evicted v vp p s))) = card (dom (frames s)) - 1"
    using assms(5) len by (simp add: frames_evicted card_Diff_singleton domI)
  moreover have "card (dom (frames s)) > 0" using assms(5) by (auto simp: card_gt_0_iff)
  ultimately show ?thesis
    using assms(1) it by (auto simp: qinv_def q_queue_def q_pull_def length_remove1 of_nat_diff)
qed

lemma qinv_drop:
  assumes "qinv s r" "managed s v = Some vp" "overhead vp = Val (Some a)" "\<not> inMemory vp"
    and "\<And>i. frames s i \<noteq> Some v"
  shows "qinv (drop_page v s) (q_drop a r)"
proof -
  have it: "items r a = Some \<lparr>parent = v, inQueue = False\<rparr>"
    using qinv_item [OF assms(1,2)] assms(3,4) by auto
  have "q_links (drop_page v s) (q_drop a r)"
  proof (rule q_linksI)
    fix w wp assume "managed (drop_page v s) w = Some wp"
    then have "w \<noteq> v" "managed s w = Some wp" by (auto simp: managed_upd split: if_splits)
    with qinv_item [OF assms(1) this(2)] it show "\<exists>b. overhead wp = Val (Some b)
        \<and> items (q_drop a r) b = Some \<lparr>parent = w, inQueue = inMemory wp\<rparr>"
      by (metis (no_types, lifting) fun_upd_other option.inject q_drop_def qitem.select_convs(1)
          qstate.select_convs(1) qstate.surjective qstate.update_convs(1))
  next
    fix b it' assume "items (q_drop a r) b = Some it'"
    then have b: "b \<noteq> a" "items r b = Some it'" by (auto simp: q_drop_def split: if_splits)
    obtain wp where wp: "managed s (parent it') = Some wp" "overhead wp = Val (Some b)"
      using assms(1) b(2) by (rule qinv_parent)
    with b(1) assms(2,3) have "parent it' \<noteq> v" by auto
    with wp show "\<exists>wp. managed (drop_page v s) (parent it') = Some wp \<and> overhead wp = Val (Some b)"
      by (simp add: managed_upd)
  next
    fix i w assume "frames (drop_page v s) i = Some w"
    then show "managed (drop_page v s) w \<noteq> None"
      using qinv_resident [OF assms(1), of i w] assms(5) by (auto simp: managed_upd)
  qed (use qinv_fresh [OF assms(1)] in \<open>auto simp: q_drop_def\<close>)
  moreover have "a \<notin> set (queue r)" using assms(1) it by (simp add: qinv_mem_queue)
  ultimately show ?thesis
    using assms(1) by (auto simp: qinv_def q_queue_def q_drop_def)
qed

text \<open>Reordering the queue keeps the invariant.\<close>

lemma qinv_reorder:
  "qinv s r \<Longrightarrow> distinct q \<Longrightarrow> set q = set (queue r) \<Longrightarrow> qinv s (r\<lparr>queue := q\<rparr>)"
  by (auto simp: qinv_def q_queue_def q_links_def distinct_card [symmetric])

lemma qinv_init:
  assumes "0 < n"
  shows "qinv (initialised n s) (qstate_boot\<lparr>capacity := int (unat n), queue := []\<rparr>)
    \<longleftrightarrow> managed s = (\<lambda>_. None)"
proof -
  have "managed (initialised n s) = managed s"
    by (rule ext) (simp add: managed_def initialised_def)
  then show ?thesis
    by (auto simp: qinv_def q_queue_def q_links_def qstate_boot_def) (simp_all add: initialised_def)
qed

text \<open>The order of the pages on the queue.\<close>

lemma map_remove1_inj:
  "inj_on f (insert a (set xs)) \<Longrightarrow> map f (remove1 a xs) = remove1 (f a) (map f xs)"
  by (induction xs) (auto simp: inj_on_def)

definition item_page :: "qstate \<Rightarrow> oaddr \<Rightarrow> vaddr" where
  "item_page r a = (case items r a of None \<Rightarrow> 0 | Some it \<Rightarrow> parent it)"

lemma queued_pages_eq: "queued_pages r = map (item_page r) (queue r)"
  by (simp add: queued_pages_def item_page_def)

lemma item_page_inj:
  assumes "qinv s r"
  shows "inj_on (item_page r) {a. items r a \<noteq> None}"
proof (rule inj_onI)
  fix a b assume "a \<in> {a. items r a \<noteq> None}" "b \<in> {a. items r a \<noteq> None}"
    and eq: "item_page r a = item_page r b"
  then obtain x y where x: "items r a = Some x" and y: "items r b = Some y" by auto
  with eq have "parent x = parent y" by (simp add: item_page_def)
  with qinv_parent [OF assms x] qinv_parent [OF assms y] show "a = b"
    by (metis cval.inject option.inject)
qed

lemma queued_pages_push:
  assumes "items r a = Some \<lparr>parent = v, inQueue = b\<rparr>"
  shows "queued_pages (q_push a v r) = queued_pages r @ [v]"
  using assms by (auto simp: queued_pages_def q_push_def)

lemma queued_pages_pull:
  assumes "qinv s r" "items r a = Some \<lparr>parent = v, inQueue = b\<rparr>"
  shows "queued_pages (q_pull a v r) = remove1 v (queued_pages r)"
proof -
  have "item_page (q_pull a v r) = item_page r"
    using assms(2) by (auto simp: item_page_def q_pull_def)
  moreover have "inj_on (item_page r) (insert a (set (queue r)))"
    using item_page_inj [OF assms(1)] assms by (elim inj_on_subset) (auto simp: qinv_mem_queue)
  ultimately show ?thesis
    using assms(2) by (simp add: queued_pages_eq q_pull_def map_remove1_inj) (simp add: item_page_def)
qed

lemma queued_pages_drop:
  assumes "a \<notin> set (queue r)"
  shows "queued_pages (q_drop a r) = queued_pages r"
  using assms by (auto simp: queued_pages_def q_drop_def)

text \<open>The pages on the queue are exactly the pages in memory.\<close>

lemma set_queued_pages:
  assumes "qinv s r"
  shows "v \<in> set (queued_pages r) \<longleftrightarrow> (\<exists>vp. managed s v = Some vp \<and> inMemory vp)"
proof
  assume "v \<in> set (queued_pages r)"
  then obtain a where "a \<in> set (queue r)" "v = item_page r a" by (auto simp: queued_pages_eq)
  moreover from this obtain it where "items r a = Some it" "inQueue it"
    using assms by (auto simp: qinv_mem_queue)
  ultimately show "\<exists>vp. managed s v = Some vp \<and> inMemory vp"
    using qinv_parent [OF assms, of a it] by (auto simp: item_page_def)
next
  assume "\<exists>vp. managed s v = Some vp \<and> inMemory vp"
  then obtain vp where vp: "managed s v = Some vp" "inMemory vp" by blast
  obtain a where "items r a = Some \<lparr>parent = v, inQueue = inMemory vp\<rparr>"
    using assms vp(1) by (rule qinv_item)
  with vp(2) assms have "a \<in> set (queue r)" "item_page r a = v"
    by (auto simp: qinv_mem_queue item_page_def)
  then show "v \<in> set (queued_pages r)" by (auto simp: queued_pages_eq)
qed

lemma distinct_queued_pages:
  assumes "qinv s r"
  shows "distinct (queued_pages r)"
proof -
  have "inj_on (item_page r) (set (queue r))"
    using item_page_inj [OF assms] assms by (elim inj_on_subset) (auto simp: qinv_mem_queue)
  with assms show ?thesis by (simp add: queued_pages_eq distinct_map qinv_def q_queue_def)
qed

end
