(* ===== verification/ReplaceFifo.thy ===== *)
theory ReplaceFifo
  imports ReplaceQueue
begin

text \<open>
  The FIFO replacement module, \<open>replace-fifo.c\<close>, and the proof that it meets the contract.
\<close>

section \<open>Operations\<close>

definition fifo_initReplacementModule :: "int \<Rightarrow> qstate \<Rightarrow> qstate" where
  "fifo_initReplacementModule numberOfPhysicalPages r =
     r\<lparr>capacity := numberOfPhysicalPages, queue := []\<rparr>"

definition fifo_initOverhead :: "vaddr \<Rightarrow> mstate \<Rightarrow> qstate \<Rightarrow> (oaddr option \<times> qstate) res" where
  "fifo_initOverhead vpage s r =
     bnd (deref (vheap s) vpage) (\<lambda>vp.
     bnd (rd (overhead vp)) (\<lambda>ov.
     bnd (c_assert ''vpage->overhead == NULL'' (ov = None)) (\<lambda>_.
     Inr (Some (next_item r), q_add (next_item r) vpage r))))"

definition pages_in_range :: "qstate \<Rightarrow> unit res" where
  "pages_in_range r = c_assert ''pages >= 0 && pages <= capacity'' (0 \<le> pages r \<and> pages r \<le> capacity r)"

definition fifo_freeOverhead :: "oaddr option \<Rightarrow> qstate \<Rightarrow> qstate res" where
  "fifo_freeOverhead o_ptr r =
     bnd (c_assert ''o_ptr != NULL'' (o_ptr \<noteq> None)) (\<lambda>_.
     bnd (pages_in_range r) (\<lambda>_.
     bnd (nonnull o_ptr) (\<lambda>a.
     bnd (deref (items r) a) (\<lambda>it.
     bnd (if inQueue it
          then bnd (tailq_remove a (queue r)) (\<lambda>q. Inr (r\<lparr>queue := q, pages := pages r - 1\<rparr>))
          else Inr r) (\<lambda>r1.
     Inr (q_drop a r1))))))"

definition fifo_notifyPageAccess :: "oaddr option \<Rightarrow> mstate \<Rightarrow> qstate \<Rightarrow> qstate res" where
  "fifo_notifyPageAccess o_ptr s r = Inr r"

definition fifo_notifyPageLoad :: "oaddr option \<Rightarrow> mstate \<Rightarrow> qstate \<Rightarrow> qstate res" where
  "fifo_notifyPageLoad o_ptr s r =
     bnd (c_assert ''o_ptr != NULL'' (o_ptr \<noteq> None)) (\<lambda>_.
     bnd (pages_in_range r) (\<lambda>_.
     bnd (nonnull o_ptr) (\<lambda>a.
     bnd (deref (items r) a) (\<lambda>it.
     bnd (c_assert ''overhead->inQueue != true'' (\<not> inQueue it)) (\<lambda>_.
     Inr (r\<lparr>items := (items r)(a \<mapsto> it\<lparr>inQueue := True\<rparr>), queue := queue r @ [a],
            pages := pages r + 1\<rparr>))))))"

definition fifo_getPageToEvict :: "mstate \<Rightarrow> qstate \<Rightarrow> (ul64 \<times> qstate) res" where
  "fifo_getPageToEvict s r =
     bnd (pages_in_range r) (\<lambda>_.
     bnd (nonnull (tailq_first (queue r))) (\<lambda>n1.
     bnd (tailq_remove n1 (queue r)) (\<lambda>q.
     bnd (deref (items r) n1) (\<lambda>it.
     let r1 = r\<lparr>queue := q, items := (items r)(n1 \<mapsto> it\<lparr>inQueue := False\<rparr>), pages := pages r - 1\<rparr> in
     bnd (deref (vheap s) (parent it)) (\<lambda>vp.
     bnd (rd (currentPPN vp)) (\<lambda>p. Inr (p, r1)))))))"

text \<open>\<open>Replace_freeReplacementModule\<close> frees the queued items; the head keeps pointing at them.\<close>

fun fifo_free_items :: "oaddr list \<Rightarrow> qstate \<Rightarrow> qstate res" where
  "fifo_free_items [] r = Inr r"
| "fifo_free_items (n1 # n) r =
     bnd (deref (items r) n1) (\<lambda>it. fifo_free_items n (r\<lparr>items := (items r)(n1 := None)\<rparr>))"

definition fifo_freeReplacementModule :: "qstate \<Rightarrow> qstate res" where
  "fifo_freeReplacementModule r = fifo_free_items (queue r) r"

definition fifo_ops :: "qstate replace_ops" where
  "fifo_ops = \<lparr>replace_boot = qstate_boot,
     Replace_initReplacementModule = fifo_initReplacementModule,
     Replace_initOverhead = fifo_initOverhead,
     Replace_freeOverhead = fifo_freeOverhead,
     Replace_notifyPageAccess = fifo_notifyPageAccess,
     Replace_notifyPageLoad = fifo_notifyPageLoad,
     Replace_getPageToEvict = fifo_getPageToEvict\<rparr>"

lemma fifo_ops_sel [simp]:
  "replace_boot fifo_ops = qstate_boot"
  "Replace_initReplacementModule fifo_ops = fifo_initReplacementModule"
  "Replace_initOverhead fifo_ops = fifo_initOverhead"
  "Replace_freeOverhead fifo_ops = fifo_freeOverhead"
  "Replace_notifyPageAccess fifo_ops = fifo_notifyPageAccess"
  "Replace_notifyPageLoad fifo_ops = fifo_notifyPageLoad"
  "Replace_getPageToEvict fifo_ops = fifo_getPageToEvict"
  by (simp_all add: fifo_ops_def)

section \<open>What the operations do\<close>

lemma pages_in_range_ok [simp]: "qinv s r \<Longrightarrow> pages_in_range r = Inr ()"
  using qinv_bounds [of s r] by (simp add: pages_in_range_def)

lemma fifo_initOverhead_eq:
  "vheap s v = Some vp \<Longrightarrow> overhead vp = Val None \<Longrightarrow>
    fifo_initOverhead v s r = Inr (Some (next_item r), q_add (next_item r) v r)"
  by (simp add: fifo_initOverhead_def)

lemma fifo_freeOverhead_eq:
  assumes "qinv s r" "items r a = Some it"
  shows "fifo_freeOverhead (Some a) r =
    Inr (q_drop a (if inQueue it then q_pull a (parent it) r else r))"
  using assms qinv_mem_queue [OF assms(1), of a]
  by (auto simp: fifo_freeOverhead_def q_drop_def q_pull_def)

lemma fifo_notifyPageLoad_eq:
  assumes "qinv s r" "items r a = Some \<lparr>parent = v, inQueue = False\<rparr>"
  shows "fifo_notifyPageLoad (Some a) s' r = Inr (q_push a v r)"
  using assms by (simp add: fifo_notifyPageLoad_def q_push_def)

lemma fifo_getPageToEvict_eq:
  assumes "qinv s r" "mem_inv s" "queued_pages r = v # vs"
  obtains a vp p where "fifo_getPageToEvict s r = Inr (p, q_pull a v r)"
    "managed s v = Some vp" "inMemory vp" "overhead vp = Val (Some a)" "frames s (unat p) = Some v"
    "items r a = Some \<lparr>parent = v, inQueue = True\<rparr>"
proof -
  obtain a q where q: "queue r = a # q" "v = item_page r a"
    using assms(3) by (cases "queue r") (auto simp: queued_pages_eq)
  then obtain it where it: "items r a = Some it" "inQueue it"
    using qinv_mem_queue [OF assms(1), of a] by auto
  with q have v: "parent it = v" by (simp add: item_page_def)
  obtain vp where vp: "managed s v = Some vp" "overhead vp = Val (Some a)" "inMemory vp"
    using qinv_parent [OF assms(1) it(1)] it(2) v by auto
  then have heap: "vheap s v = Some vp" by (simp add: managed_Some)
  obtain p where p: "currentPPN vp = Val p" "frames s (unat p) = Some v"
    using assms(2) heap vp(3) by (rule resident_frame)
  have "fifo_getPageToEvict s r = Inr (p, q_pull a v r)"
    using q it v heap p assms(1)
    by (cases it) (simp add: fifo_getPageToEvict_def q_pull_def)
  with vp p it v that show thesis by (cases it) auto
qed

section \<open>The contract\<close>

lemma qinv_boot: "vheap s = (\<lambda>_. None) \<Longrightarrow> 0 < n \<Longrightarrow>
    qinv (initialised n s) (qstate_boot\<lparr>capacity := int (unat n), queue := []\<rparr>)"
  by (subst qinv_init) (auto simp: managed_def)

lemma qinv_freed:
  assumes "mem_inv s" "qinv s r" "managed s v = Some vp" "overhead vp = Val (Some a)"
    and it: "items r a = Some it"
  shows "qinv (freed v vp s) (q_drop a (if inQueue it then q_pull a (parent it) r else r))"
proof -
  have heap: "vheap s v = Some vp" using assms(3) by (simp add: managed_Some)
  have itv: "it = \<lparr>parent = v, inQueue = inMemory vp\<rparr>"
    using qinv_item [OF assms(2,3)] assms(4) it by auto
  show ?thesis
  proof (cases "inMemory vp")
    case True
    obtain p where p: "currentPPN vp = Val p" "frames s (unat p) = Some v" "unat p < length (memory s)"
      using assms(1) heap True by (rule resident_frame)
    have nowhere: "frames (evicted v vp p s) i \<noteq> Some v" for i
      using mem_links_inj [OF mem_inv_links [OF assms(1)] mem_inv_shape [OF assms(1)] _ p(2), of i] p(3)
      by (auto simp: frames_evicted)
    have "qinv (evicted v vp p s) (q_pull a v r)"
      using assms(2,3,4) True p(2) by (rule qinv_pull)
    moreover have m: "managed (evicted v vp p s) v = Some (vp\<lparr>inMemory := False\<rparr>)"
      using assms(3) by (simp add: managed_evicted managed_Some)
    ultimately have "qinv (drop_page v (evicted v vp p s)) (q_drop a (q_pull a v r))"
      using assms(4) nowhere by (intro qinv_drop [OF _ m]) simp_all
    with True p(1) itv show ?thesis by (simp add: freed_def)
  next
    case False
    have "frames s i \<noteq> Some v" for i
      using mem_links_frame [OF mem_inv_links [OF assms(1)], of i v] heap False by auto
    with False assms itv show ?thesis
      by (cases "currentPPN vp") (simp_all add: freed_def qinv_drop)
  qed
qed

lemma full_queue_nonempty:
  assumes "mem_inv s" "qinv s r" "\<not> Memory_hasFreePage s"
  obtains v vs where "queued_pages r = v # vs"
proof -
  have "0 < length (memory s)"
    using mem_inv_shape [OF assms(1)] by (simp add: mem_shape_def word_gt_0 unat_gt_0)
  then obtain v where "frames s 0 = Some v"
    using assms(1,3) hasFreePage_iff by fastforce
  then have "dom (frames s) \<noteq> {}" by auto
  then have "queue r \<noteq> []" using assms(2) by (auto simp: qinv_def q_queue_def)
  with that show thesis by (cases "queued_pages r") (auto simp: queued_pages_eq)
qed

interpretation fifo: replacement_module fifo_ops qinv
proof unfold_locales
  fix n :: ul64 and s :: mstate assume "0 < n" "vheap s = (\<lambda>_. None)"
  then show "qinv (initialised n s)
      (Replace_initReplacementModule fifo_ops (int (unat n)) (replace_boot fifo_ops))"
    using qinv_boot by (simp add: fifo_initReplacementModule_def)
next
  fix s r s' assume "qinv s r" "frames s' = frames s" "managed s' = managed s"
    "length (memory s') = length (memory s)"
  then show "qinv s' r" by (rule qinv_frame)
next
  fix s r v vp assume "qinv s r" "managed s v = Some vp"
  then show "\<exists>ov. overhead vp = Val ov" by (elim qinv_item) auto
next
  fix s r v pid n new
  assume "mem_inv s" "qinv s r" "zeroed s" "vheap s v = None" "pid \<noteq> 0" "new = fresh_page True pid n"
  then show "\<exists>ov r'. Replace_initOverhead fifo_ops v (put_page v new s) r = Inr (ov, r')
      \<and> qinv (put_page v (new\<lparr>overhead := Val ov\<rparr>) s) r'"
    by (simp add: fifo_initOverhead_eq [where vp = new] fresh_page_def qinv_new managed_def)
next
  fix s r v vp ov and p :: ul64
  assume *: "mem_inv s" "qinv s r" "managed s v = Some vp" "\<not> inMemory vp"
    "unat p < length (memory s)" "frames s (unat p) = None" "overhead vp = Val ov"
  obtain a where a: "overhead vp = Val (Some a)" "items r a = Some \<lparr>parent = v, inQueue = False\<rparr>"
    using qinv_item [OF *(2,3)] *(4) by auto
  with * show "\<exists>r'. Replace_notifyPageLoad fifo_ops ov (loaded v vp p s) r = Inr r'
      \<and> qinv (loaded v vp p s) r'"
    using fifo_notifyPageLoad_eq [OF *(2) a(2)] qinv_push [OF *(2-4) a(1) *(5,6)] by simp
next
  fix s r v vp ov assume "qinv s r"
  then show "\<exists>r'. Replace_notifyPageAccess fifo_ops ov s r = Inr r' \<and> qinv s r'"
    by (simp add: fifo_notifyPageAccess_def)
next
  fix s r assume *: "mem_inv s" "qinv s r" "\<not> Memory_hasFreePage s"
  obtain v vs where q: "queued_pages r = v # vs" using * by (rule full_queue_nonempty)
  obtain a vp p where e: "fifo_getPageToEvict s r = Inr (p, q_pull a v r)"
    "managed s v = Some vp" "inMemory vp" "overhead vp = Val (Some a)" "frames s (unat p) = Some v"
    using *(2,1) q by (rule fifo_getPageToEvict_eq)
  have "qinv (evicted v vp p s) (q_pull a v r)" using *(2) e(2,4,3,5) by (rule qinv_pull)
  with e show "\<exists>p r' v vp. Replace_getPageToEvict fifo_ops s r = Inr (p, r')
      \<and> frames s (unat p) = Some v \<and> managed s v = Some vp \<and> qinv (evicted v vp p s) r'"
    by auto
next
  fix s r v vp a
  assume *: "mem_inv s" "qinv s r" "managed s v = Some vp" "overhead vp = Val (Some a)"
  obtain it where it: "items r a = Some it" using qinv_item [OF *(2,3)] *(4) by auto
  with fifo_freeOverhead_eq [OF *(2) it] qinv_freed [OF * it]
  show "\<exists>r'. Replace_freeOverhead fifo_ops (Some a) r = Inr r' \<and> qinv (freed v vp s) r'"
    by simp
next
  fix s r v vp assume "qinv s r" "managed s v = Some vp" "overhead vp = Val None"
  then show "qinv (freed v vp s) r" by (elim qinv_item) auto
qed

section \<open>First in, first out\<close>

text \<open>
  The laws of the order, for any module that shares FIFO's operations on load, eviction and
  release.
\<close>

lemma order_length_q: "qinv s r \<Longrightarrow> length (queued_pages r) = card (dom (frames s))"
  by (simp add: queued_pages_eq qinv_def q_queue_def)

lemma order_load_q:
  assumes "qinv s r" "managed s v = Some vp" "\<not> inMemory vp" "overhead vp = Val ov"
    and "fifo_notifyPageLoad ov s' r = Inr r'"
  shows "queued_pages r' = queued_pages r @ [v]"
proof -
  obtain a where a: "ov = Some a" "items r a = Some \<lparr>parent = v, inQueue = False\<rparr>"
    using qinv_item [OF assms(1,2)] assms(3,4) by auto
  with assms(1,5) show ?thesis
    by (simp add: fifo_notifyPageLoad_eq) (metis queued_pages_push)
qed

lemma order_evict_q:
  assumes "mem_inv s" "qinv s r" "\<not> Memory_hasFreePage s" "fifo_getPageToEvict s r = Inr (p, r')"
  shows "\<exists>v. queued_pages r = v # queued_pages r' \<and> frames s (unat p) = Some v"
proof -
  obtain v vs where q: "queued_pages r = v # vs" using assms(1-3) by (rule full_queue_nonempty)
  obtain a vp p' where e: "fifo_getPageToEvict s r = Inr (p', q_pull a v r)"
    "frames s (unat p') = Some v" "items r a = Some \<lparr>parent = v, inQueue = True\<rparr>"
    using assms(2,1) q by (rule fifo_getPageToEvict_eq)
  then have "queued_pages r' = vs" "p' = p"
    using queued_pages_pull [OF assms(2) e(3)] assms(4) q by auto
  with e(2) q show ?thesis by simp
qed

lemma order_free_q:
  assumes "qinv s r" "managed s v = Some vp" "overhead vp = Val (Some a)"
    and "fifo_freeOverhead (Some a) r = Inr r'"
  shows "queued_pages r' = remove1 v (queued_pages r)"
proof -
  have it: "items r a = Some \<lparr>parent = v, inQueue = inMemory vp\<rparr>"
    using qinv_item [OF assms(1,2)] assms(3) by auto
  show ?thesis
  proof (cases "inMemory vp")
    case True
    have "a \<notin> set (queue (q_pull a v r))"
      using assms(1) by (simp add: q_pull_def qinv_def q_queue_def)
    with True it assms(1,4) show ?thesis
      using queued_pages_pull [OF assms(1) it] by (auto simp: fifo_freeOverhead_eq queued_pages_drop)
  next
    case False
    have "a \<notin> set (queue r)" using assms(1) it False by (simp add: qinv_mem_queue)
    moreover have "v \<notin> set (queued_pages r)"
      using assms(1,2) False by (auto simp: set_queued_pages)
    ultimately show ?thesis
      using False it assms(1,4) by (auto simp: fifo_freeOverhead_eq queued_pages_drop remove1_idem)
  qed
qed

lemma order_new_q:
  assumes "qinv s r" "fifo_initOverhead v s' r = Inr (ov, r')"
  shows "queued_pages r' = queued_pages r"
proof -
  have "next_item r \<notin> set (queue r)" using qinv_fresh [OF assms(1)] by (simp add: qinv_mem_queue [OF assms(1)])
  moreover have "r' = q_add (next_item r) v r" using assms(2) by (auto simp: fifo_initOverhead_def bnd_eq_Inr)
  ultimately show ?thesis by (auto simp: queued_pages_def q_add_def)
qed

interpretation fifo_order: ordered_module fifo_ops qinv queued_pages "\<lambda>v q. q"
  by unfold_locales
     (auto simp: set_queued_pages distinct_queued_pages order_length_q order_evict_q fifo_notifyPageAccess_def
       elim: order_load_q order_free_q order_new_q)

interpretation fifo_numbers: numbered_module fifo_ops qinv queued_pages "\<lambda>v q. q" "\<lambda>v q. q"
  by unfold_locales simp_all

end
