(* ===== verification/ReplaceLru.thy ===== *)
theory ReplaceLru
  imports ReplaceFifo
begin

text \<open>
  The LRU replacement module, \<open>replace-lru.c\<close>: as FIFO, except that an access moves the page
  to the tail of the queue. The operations are translated from their own file; those whose
  code agrees with FIFO's are proved equal to them, so that the proofs are shared.
\<close>

section \<open>State\<close>

text \<open>\<open>struct lrunit\<close> and the static variables have the fields of FIFO's, and their initial values.\<close>

type_synonym lrunit = qitem
type_synonym lru_state = qstate

definition lru_boot :: lru_state where
  "lru_boot = \<lparr>items = (\<lambda>_. None), next_item = 0, queue = [], capacity = 0, pages = 0\<rparr>"

section \<open>Operations\<close>

definition lru_initReplacementModule :: "int \<Rightarrow> qstate \<Rightarrow> qstate" where
  "lru_initReplacementModule numberOfPhysicalPages r =
     r\<lparr>capacity := numberOfPhysicalPages, queue := []\<rparr>"

definition lru_initOverhead :: "vaddr \<Rightarrow> mstate \<Rightarrow> qstate \<Rightarrow> (oaddr option \<times> qstate) res" where
  "lru_initOverhead vpage s r =
     bnd (deref (vheap s) vpage) (\<lambda>vp.
     bnd (rd (overhead vp)) (\<lambda>ov.
     bnd (c_assert ''vpage->overhead == NULL'' (ov = None)) (\<lambda>_.
     Inr (Some (next_item r), q_add (next_item r) vpage r))))"

definition lru_freeOverhead :: "oaddr option \<Rightarrow> qstate \<Rightarrow> qstate res" where
  "lru_freeOverhead o_ptr r =
     bnd (c_assert ''o_ptr != NULL'' (o_ptr \<noteq> None)) (\<lambda>_.
     bnd (pages_in_range r) (\<lambda>_.
     bnd (nonnull o_ptr) (\<lambda>a.
     bnd (deref (items r) a) (\<lambda>it.
     bnd (if inQueue it
          then bnd (tailq_remove a (queue r)) (\<lambda>q. Inr (r\<lparr>queue := q, pages := pages r - 1\<rparr>))
          else Inr r) (\<lambda>r1.
     Inr (q_drop a r1))))))"

definition lru_notifyPageAccess :: "oaddr option \<Rightarrow> mstate \<Rightarrow> qstate \<Rightarrow> qstate res" where
  "lru_notifyPageAccess o_ptr s r =
     bnd (c_assert ''o_ptr != NULL'' (o_ptr \<noteq> None)) (\<lambda>_.
     bnd (pages_in_range r) (\<lambda>_.
     bnd (nonnull o_ptr) (\<lambda>a.
     bnd (deref (items r) a) (\<lambda>it.
     bnd (c_assert ''overhead->inQueue'' (inQueue it)) (\<lambda>_.
     bnd (tailq_remove a (queue r)) (\<lambda>q.
     Inr (r\<lparr>queue := q @ [a]\<rparr>)))))))"

definition lru_notifyPageLoad :: "oaddr option \<Rightarrow> mstate \<Rightarrow> qstate \<Rightarrow> qstate res" where
  "lru_notifyPageLoad o_ptr s r =
     bnd (c_assert ''o_ptr != NULL'' (o_ptr \<noteq> None)) (\<lambda>_.
     bnd (pages_in_range r) (\<lambda>_.
     bnd (nonnull o_ptr) (\<lambda>a.
     bnd (deref (items r) a) (\<lambda>it.
     bnd (c_assert ''overhead->inQueue != true'' (\<not> inQueue it)) (\<lambda>_.
     Inr (r\<lparr>items := (items r)(a \<mapsto> it\<lparr>inQueue := True\<rparr>), queue := queue r @ [a],
            pages := pages r + 1\<rparr>))))))"

definition lru_getPageToEvict :: "mstate \<Rightarrow> qstate \<Rightarrow> (ul64 \<times> qstate) res" where
  "lru_getPageToEvict s r =
     bnd (pages_in_range r) (\<lambda>_.
     bnd (nonnull (tailq_first (queue r))) (\<lambda>n1.
     bnd (tailq_remove n1 (queue r)) (\<lambda>q.
     bnd (deref (items r) n1) (\<lambda>it.
     let r1 = r\<lparr>queue := q, items := (items r)(n1 \<mapsto> it\<lparr>inQueue := False\<rparr>), pages := pages r - 1\<rparr> in
     bnd (deref (vheap s) (parent it)) (\<lambda>vp.
     bnd (rd (currentPPN vp)) (\<lambda>p. Inr (p, r1)))))))"

text \<open>\<open>Replace_freeReplacementModule\<close> frees the queued items; the head keeps pointing at them.\<close>

fun lru_free_items :: "oaddr list \<Rightarrow> qstate \<Rightarrow> qstate res" where
  "lru_free_items [] r = Inr r"
| "lru_free_items (n1 # n) r =
     bnd (deref (items r) n1) (\<lambda>it. lru_free_items n (r\<lparr>items := (items r)(n1 := None)\<rparr>))"

definition lru_freeReplacementModule :: "qstate \<Rightarrow> qstate res" where
  "lru_freeReplacementModule r = lru_free_items (queue r) r"

definition lru_ops :: "qstate replace_ops" where
  "lru_ops = \<lparr>replace_boot = lru_boot,
     Replace_initReplacementModule = lru_initReplacementModule,
     Replace_initOverhead = lru_initOverhead,
     Replace_freeOverhead = lru_freeOverhead,
     Replace_notifyPageAccess = lru_notifyPageAccess,
     Replace_notifyPageLoad = lru_notifyPageLoad,
     Replace_getPageToEvict = lru_getPageToEvict\<rparr>"

lemma lru_boot_eq: "lru_boot = qstate_boot"
  by (simp add: lru_boot_def qstate_boot_def)

lemma lru_as_fifo:
  "lru_initReplacementModule = fifo_initReplacementModule"
  "lru_initOverhead = fifo_initOverhead"
  "lru_freeOverhead = fifo_freeOverhead"
  "lru_notifyPageLoad = fifo_notifyPageLoad"
  "lru_getPageToEvict = fifo_getPageToEvict"
  by (intro ext, simp add: lru_initReplacementModule_def fifo_initReplacementModule_def
      lru_initOverhead_def fifo_initOverhead_def lru_freeOverhead_def fifo_freeOverhead_def
      lru_notifyPageLoad_def fifo_notifyPageLoad_def lru_getPageToEvict_def fifo_getPageToEvict_def)+

lemma lru_ops_sel [simp]:
  "replace_boot lru_ops = replace_boot fifo_ops"
  "Replace_initReplacementModule lru_ops = Replace_initReplacementModule fifo_ops"
  "Replace_initOverhead lru_ops = Replace_initOverhead fifo_ops"
  "Replace_freeOverhead lru_ops = Replace_freeOverhead fifo_ops"
  "Replace_notifyPageLoad lru_ops = Replace_notifyPageLoad fifo_ops"
  "Replace_getPageToEvict lru_ops = Replace_getPageToEvict fifo_ops"
  "Replace_notifyPageAccess lru_ops = lru_notifyPageAccess"
  by (simp_all add: lru_ops_def lru_as_fifo lru_boot_eq)

section \<open>The contract\<close>

lemma lru_notifyPageAccess_eq:
  assumes "qinv s r" "items r a = Some \<lparr>parent = v, inQueue = True\<rparr>"
  shows "lru_notifyPageAccess (Some a) s' r = Inr (r\<lparr>queue := remove1 a (queue r) @ [a]\<rparr>)"
proof -
  have "a \<in> set (queue r)" using assms by (simp add: qinv_mem_queue)
  with assms show ?thesis by (simp add: lru_notifyPageAccess_def)
qed

lemma qinv_touch:
  assumes "qinv s r" "a \<in> set (queue r)"
  shows "qinv s (r\<lparr>queue := remove1 a (queue r) @ [a]\<rparr>)"
proof (rule qinv_reorder [OF assms(1)])
  have "distinct (queue r)" using assms(1) by (simp add: qinv_def q_queue_def)
  with assms(2) show "distinct (remove1 a (queue r) @ [a])"
    "set (remove1 a (queue r) @ [a]) = set (queue r)" by auto
qed

interpretation lru: replacement_module lru_ops qinv
proof unfold_locales
  fix s r v vp ov
  assume *: "mem_inv s" "qinv s r" "managed s v = Some vp" "inMemory vp" "overhead vp = Val ov"
  obtain a where a: "overhead vp = Val (Some a)" "items r a = Some \<lparr>parent = v, inQueue = True\<rparr>"
    using qinv_item [OF *(2,3)] *(4) by auto
  then have "a \<in> set (queue r)" using *(2) by (simp add: qinv_mem_queue)
  with a * show "\<exists>r'. Replace_notifyPageAccess lru_ops ov s r = Inr r' \<and> qinv s r'"
    by (simp add: lru_notifyPageAccess_eq qinv_touch)
qed (unfold lru_ops_sel, (fact fifo.rinv_init fifo.rinv_frame fifo.rinv_overhead fifo.rinv_new
    fifo.rinv_load fifo.rinv_evict fifo.rinv_free fifo.rinv_free_none)+)

section \<open>Least recently used\<close>

lemma lru_access_order:
  assumes "qinv s r" "managed s v = Some vp" "inMemory vp" "overhead vp = Val ov"
    and "lru_notifyPageAccess ov s' r = Inr r'"
  shows "queued_pages r' = remove1 v (queued_pages r) @ [v]"
proof -
  obtain a where a: "ov = Some a" "items r a = Some \<lparr>parent = v, inQueue = True\<rparr>"
    using qinv_item [OF assms(1,2)] assms(3,4) by auto
  have "inj_on (item_page r) (insert a (set (queue r)))"
    using item_page_inj [OF assms(1)] assms(1) a(2) by (elim inj_on_subset) (auto simp: qinv_mem_queue)
  moreover have "item_page (r\<lparr>queue := remove1 a (queue r) @ [a]\<rparr>) = item_page r"
    by (rule ext) (simp add: item_page_def)
  moreover have "item_page r a = v" using a(2) by (simp add: item_page_def)
  moreover have "r' = r\<lparr>queue := remove1 a (queue r) @ [a]\<rparr>"
    using assms(1,5) a by (simp add: lru_notifyPageAccess_eq)
  ultimately show ?thesis by (simp add: queued_pages_eq map_remove1_inj)
qed

interpretation lru_order: ordered_module lru_ops qinv queued_pages "\<lambda>v q. remove1 v q @ [v]"
  by unfold_locales
     (auto simp: set_queued_pages distinct_queued_pages order_length_q order_evict_q
       elim: order_load_q order_free_q order_new_q lru_access_order)

interpretation lru_numbers: numbered_module lru_ops qinv queued_pages "\<lambda>v q. remove1 v q @ [v]" "\<lambda>v q. remove1 v q @ [v]"
  by unfold_locales (simp_all add: map_remove1_inj remove1_append)

end
