(* ===== verification/ReplaceClock.thy ===== *)
theory ReplaceClock
  imports ReplacePolicy
begin

text \<open>
  The clock replacement module, \<open>replace-clock.c\<close>: one reference bit per frame and a hand that
  sweeps over them. The array of bits comes from \<open>malloc\<close> and is never cleared, so its
  elements start out indeterminate; the proofs show that no sweep reads one that was not set.
\<close>

section \<open>State and operations\<close>

record clock_state =
  clock_overheads :: "oaddr \<Rightarrow> vaddr option"   \<comment> \<open>\<open>struct clock_overhead\<close>: the \<open>parent\<close>\<close>
  next_overhead :: oaddr
  clock_hand :: ul64
  numPages :: int
  shadowMem_Reflist :: "bool cval list"

definition clock_boot :: clock_state where
  "clock_boot = \<lparr>clock_overheads = (\<lambda>_. None), next_overhead = 0, clock_hand = 0, numPages = 0,
     shadowMem_Reflist = []\<rparr>"

definition clock_initReplacementModule :: "int \<Rightarrow> clock_state \<Rightarrow> clock_state" where
  "clock_initReplacementModule numberOfPhysicalPages r =
     r\<lparr>clock_hand := 0, numPages := numberOfPhysicalPages,
       shadowMem_Reflist := replicate (nat numberOfPhysicalPages) Indet\<rparr>"

definition clock_initOverhead :: "vaddr \<Rightarrow> mstate \<Rightarrow> clock_state \<Rightarrow> (oaddr option \<times> clock_state) res" where
  "clock_initOverhead vpage s r =
     Inr (Some (next_overhead r),
       r\<lparr>clock_overheads := (clock_overheads r)(next_overhead r \<mapsto> vpage),
         next_overhead := Suc (next_overhead r)\<rparr>)"

definition clock_freeOverhead :: "oaddr option \<Rightarrow> clock_state \<Rightarrow> clock_state res" where
  "clock_freeOverhead o_ptr r =
     (case o_ptr of None \<Rightarrow> Inr r
      | Some a \<Rightarrow> Inr (r\<lparr>clock_overheads := (clock_overheads r)(a := None)\<rparr>))"

definition clock_notifyPageAccess :: "oaddr option \<Rightarrow> mstate \<Rightarrow> clock_state \<Rightarrow> clock_state res" where
  "clock_notifyPageAccess o_ptr s r =
     bnd (nonnull o_ptr) (\<lambda>a.
     bnd (deref (clock_overheads r) a) (\<lambda>v.
     bnd (deref (vheap s) v) (\<lambda>vp.
     bnd (c_assert ''parent->inMemory'' (inMemory vp)) (\<lambda>_.
     bnd (rd (currentPPN vp)) (\<lambda>p.
     bnd (arr_set (shadowMem_Reflist r) (unat p) (Val True)) (\<lambda>bits.
     Inr (r\<lparr>shadowMem_Reflist := bits\<rparr>)))))))"

definition clock_notifyPageLoad :: "oaddr option \<Rightarrow> mstate \<Rightarrow> clock_state \<Rightarrow> clock_state res" where
  "clock_notifyPageLoad o_ptr s r = clock_notifyPageAccess o_ptr s r"

text \<open>The loop of \<open>Replace_getPageToEvict\<close>; every turn clears a bit that was set.\<close>

lemma clear_bit_decreases:
  "i < length bits \<Longrightarrow> bits ! i = Val True \<Longrightarrow>
    length (filter (\<lambda>c. c = Val True) (bits[i := Val False])) < length (filter (\<lambda>c. c = Val True) bits)"
proof (induction bits arbitrary: i)
  case (Cons c bits)
  then show ?case by (cases i) auto
qed simp

function clock_sweep :: "int \<Rightarrow> ul64 \<Rightarrow> bool cval list \<Rightarrow> (ul64 \<times> bool cval list) res" where
  "clock_sweep np hand bits =
     bnd (arr_get bits (unat hand)) (\<lambda>c.
     bnd (rd c) (\<lambda>referenced.
     if referenced
     then clock_sweep np ((hand + 1) mod of_int np) (bits[unat hand := Val False])
     else Inr (hand, bits)))"
  by pat_completeness auto
termination
  by (relation "measure (\<lambda>(np, hand, bits). length (filter (\<lambda>c. c = Val True) bits))")
     (auto simp: arr_get_def clear_bit_decreases split: if_splits)

declare clock_sweep.simps [simp del]

definition clock_getPageToEvict :: "mstate \<Rightarrow> clock_state \<Rightarrow> (ul64 \<times> clock_state) res" where
  "clock_getPageToEvict s r =
     bnd (c_assert ''!Memory_hasFreePage()'' (\<not> Memory_hasFreePage s)) (\<lambda>_.
     bnd (clock_sweep (numPages r) (clock_hand r) (shadowMem_Reflist r)) (\<lambda>(hand, bits).
     Inr (hand, r\<lparr>clock_hand := hand, shadowMem_Reflist := bits\<rparr>)))"

text \<open>Freeing the array leaves none of its elements accessible.\<close>

definition clock_freeReplacementModule :: "clock_state \<Rightarrow> clock_state" where
  "clock_freeReplacementModule r = r\<lparr>shadowMem_Reflist := []\<rparr>"

definition clock_ops :: "clock_state replace_ops" where
  "clock_ops = \<lparr>replace_boot = clock_boot,
     Replace_initReplacementModule = clock_initReplacementModule,
     Replace_initOverhead = clock_initOverhead,
     Replace_freeOverhead = clock_freeOverhead,
     Replace_notifyPageAccess = clock_notifyPageAccess,
     Replace_notifyPageLoad = clock_notifyPageLoad,
     Replace_getPageToEvict = clock_getPageToEvict\<rparr>"

lemma clock_ops_sel [simp]:
  "replace_boot clock_ops = clock_boot"
  "Replace_initReplacementModule clock_ops = clock_initReplacementModule"
  "Replace_initOverhead clock_ops = clock_initOverhead"
  "Replace_freeOverhead clock_ops = clock_freeOverhead"
  "Replace_notifyPageAccess clock_ops = clock_notifyPageAccess"
  "Replace_notifyPageLoad clock_ops = clock_notifyPageLoad"
  "Replace_getPageToEvict clock_ops = clock_getPageToEvict"
  by (simp_all add: clock_ops_def)

section \<open>The sweep\<close>

text \<open>
  The bits after the hand moved over \<open>k\<close> frames from \<open>h\<close>. The sweep stops at the first frame
  whose bit is clear, going round from the hand.
\<close>

definition swept :: "nat \<Rightarrow> nat \<Rightarrow> nat \<Rightarrow> bool list \<Rightarrow> bool list" where
  "swept n h k bs = map (\<lambda>i. if \<exists>j < k. i = (h + j) mod n then False else bs ! i) [0..<n]"

lemma hand_step:
  assumes "h < n" "n < 2 ^ 64"
  shows "(of_nat h + 1 :: ul64) mod of_nat n = of_nat (Suc h mod n)"
proof -
  have "unat (of_nat h + 1 :: ul64) = Suc h" "unat (of_nat n :: ul64) = n"
    using assms by (simp_all add: unat_word_ariths unat_of_nat)
  then have "unat ((of_nat h + 1 :: ul64) mod of_nat n) = Suc h mod n" by (simp add: unat_mod)
  moreover have "unat (of_nat (Suc h mod n) :: ul64) = Suc h mod n"
    using assms by (simp add: unat_of_nat less_trans [OF mod_less_divisor])
  ultimately show ?thesis by (metis word_unat_eq_iff)
qed

lemma mod_add_ne:
  assumes "h < n" "0 < j" "j < n"
  shows "(h + j) mod n \<noteq> (h :: nat)"
proof (cases "h + j < n")
  case True
  with assms show ?thesis by simp
next
  case False
  with assms have "(h + j) mod n = h + j - n" by (simp add: mod_if)
  with assms False show ?thesis by simp
qed

lemma hand_pos: "(Suc h mod n + j) mod n = (h + Suc j) mod (n :: nat)"
  by (simp add: mod_add_left_eq)

lemma swept_step:
  assumes "h < n" "length bs = n"
  shows "swept n (Suc h mod n) k (bs[h := False]) = swept n h (Suc k) bs"
proof (rule nth_equalityI)
  fix i assume "i < length (swept n (Suc h mod n) k (bs[h := False]))"
  then have i: "i < n" by (simp add: swept_def)
  have "(\<exists>j < Suc k. i = (h + j) mod n) \<longleftrightarrow> i = h \<or> (\<exists>j < k. i = (Suc h mod n + j) mod n)"
    unfolding hand_pos less_Suc_eq_0_disj using assms(1) by auto
  then show "swept n (Suc h mod n) k (bs[h := False]) ! i = swept n h (Suc k) bs ! i"
    using i assms(2) by (cases "i = h") (auto simp: swept_def)
qed (simp add: swept_def)

lemma sweep_finds:
  "length bs = n \<Longrightarrow> n < 2 ^ 64 \<Longrightarrow> h < n \<Longrightarrow> k < n \<Longrightarrow>
    \<forall>j < k. bs ! ((h + j) mod n) \<Longrightarrow> \<not> bs ! ((h + k) mod n) \<Longrightarrow>
    clock_sweep (int n) (of_nat h) (map Val bs)
      = Inr (of_nat ((h + k) mod n), map Val (swept n h k bs))"
proof (induction k arbitrary: h bs)
  case 0
  have "swept n h 0 bs = bs" using 0(1) by (auto simp: swept_def intro: nth_equalityI)
  with 0 show ?case
    by (subst clock_sweep.simps) (simp add: unat_of_nat)
next
  case (Suc k)
  let ?h = "Suc h mod n" and ?bs = "bs[h := False]"
  have h: "unat (of_nat h :: ul64) = h" using Suc.prems by (simp add: unat_of_nat)
  have pos: "(?h + j) mod n = (h + Suc j) mod n" for j by (simp add: mod_add_left_eq)
  have other: "(h + Suc j) mod n \<noteq> h" if "j \<le> k" for j
    using that Suc.prems by (intro mod_add_ne) auto
  have same: "?bs ! ((?h + j) mod n) = bs ! ((h + Suc j) mod n)" if "j \<le> k" for j
    unfolding pos using other [OF that, symmetric] by (rule nth_list_update_neq)
  have "bs ! h" using Suc.prems(3,5) by (metis add.right_neutral mod_less zero_less_Suc)
  then have "clock_sweep (int n) (of_nat h) (map Val bs)
      = clock_sweep (int n) (of_nat ?h) (map Val ?bs)"
    using Suc.prems h by (subst clock_sweep.simps) (simp add: hand_step map_update)
  also have "\<dots> = Inr (of_nat ((?h + k) mod n), map Val (swept n ?h k ?bs))"
    by (rule Suc.IH) (use Suc.prems same in \<open>simp_all del: add_Suc_right\<close>)
  also have "swept n ?h k ?bs = swept n h (Suc k) bs"
    using Suc.prems(3,1) by (rule swept_step)
  finally show ?case by (simp only: pos)
qed

text \<open>
  If every bit is set the sweep goes round once and stops where it started, with every bit
  clear; in any case it stops within one round.
\<close>

lemma sweep_round:
  assumes "length bs = n" "n < 2 ^ 64" "h < n" "\<forall>i < n. bs ! i"
  shows "clock_sweep (int n) (of_nat h) (map Val bs)
      = Inr (of_nat h, map Val (swept n h n bs))"
proof -
  let ?h = "Suc h mod n" and ?bs = "bs[h := False]"
  have h: "unat (of_nat h :: ul64) = h" using assms by (simp add: unat_of_nat)
  have pos: "(?h + j) mod n = (h + Suc j) mod n" for j by (simp add: mod_add_left_eq)
  have n: "n = Suc (n - 1)" using assms(3) by simp
  have back_home: "(?h + (n - 1)) mod n = h" unfolding pos using n assms(3) by simp
  have "?bs ! ((?h + j) mod n)" if "j < n - 1" for j
  proof -
    have "(h + Suc j) mod n \<noteq> h" using that assms(3) by (intro mod_add_ne) auto
    then have "?bs ! ((h + Suc j) mod n) = bs ! ((h + Suc j) mod n)"
      by (intro nth_list_update_neq) simp
    with assms show ?thesis unfolding pos by simp
  qed
  moreover have "clock_sweep (int n) (of_nat h) (map Val bs) = clock_sweep (int n) (of_nat ?h) (map Val ?bs)"
    using assms h by (subst clock_sweep.simps) (simp add: hand_step map_update)
  moreover have "clock_sweep (int n) (of_nat ?h) (map Val ?bs)
      = Inr (of_nat ((?h + (n - 1)) mod n), map Val (swept n ?h (n - 1) ?bs))"
    using assms back_home calculation(1) by (intro sweep_finds) auto
  ultimately have "clock_sweep (int n) (of_nat h) (map Val bs)
      = Inr (of_nat ((?h + (n - 1)) mod n), map Val (swept n ?h (n - 1) ?bs))" by simp
  moreover have "swept n ?h (n - 1) ?bs = swept n h n bs"
    using swept_step [OF assms(3,1), of "n - 1"] n by simp
  ultimately show ?thesis by (simp only: back_home)
qed

text \<open>The frame at which the sweep stops.\<close>

definition clock_victim :: "nat \<Rightarrow> bool list \<Rightarrow> nat" where
  "clock_victim h bs = (let n = length bs in
     case find (\<lambda>k. \<not> bs ! ((h + k) mod n)) [0..<n] of None \<Rightarrow> n | Some k \<Rightarrow> k)"

lemma clock_victim_cases:
  assumes "length bs = n" "h < n"
  obtains (clear) "clock_victim h bs < n" "\<forall>j < clock_victim h bs. bs ! ((h + j) mod n)"
      "\<not> bs ! ((h + clock_victim h bs) mod n)"
    | (all_set) "clock_victim h bs = n" "\<forall>i < n. bs ! i"
proof (cases "find (\<lambda>k. \<not> bs ! ((h + k) mod n)) [0..<n]")
  case None
  have "bs ! i" if "i < n" for i
  proof -
    have "(h + (if h \<le> i then i - h else n - h + i)) mod n = i"
      using that assms(2) by (auto simp: mod_if)
    moreover have "(if h \<le> i then i - h else n - h + i) < n" using that assms(2) by auto
    ultimately show ?thesis using None by (auto simp: find_None_iff)
  qed
  with None assms(1) all_set show thesis by (simp add: clock_victim_def)
next
  case (Some k)
  then have "k < n" "\<not> bs ! ((h + k) mod n)" "\<forall>j < k. bs ! ((h + j) mod n)"
    by (auto simp: find_Some_iff)
  with Some assms(1) clear show thesis by (simp add: clock_victim_def)
qed

lemma clock_sweep_eq:
  assumes "length bs = n" "n < 2 ^ 64" "h < n"
  shows "clock_sweep (int n) (of_nat h) (map Val bs)
      = Inr (of_nat ((h + clock_victim h bs) mod n), map Val (swept n h (clock_victim h bs) bs))"
  using assms(1,3)
proof (cases rule: clock_victim_cases)
  case clear
  with assms show ?thesis by (intro sweep_finds)
next
  case all_set
  with assms show ?thesis by (simp add: sweep_round)
qed

section \<open>Invariant\<close>

text \<open>The overheads of the managed pages, and the bits of the frames in use.\<close>

definition clock_links :: "mstate \<Rightarrow> clock_state \<Rightarrow> bool" where
  "clock_links s r \<longleftrightarrow>
     (\<forall>v vp. managed s v = Some vp \<longrightarrow>
        (\<exists>a. overhead vp = Val (Some a) \<and> clock_overheads r a = Some v))
     \<and> (\<forall>a \<ge> next_overhead r. clock_overheads r a = None)"

definition clock_bits :: "mstate \<Rightarrow> clock_state \<Rightarrow> bool" where
  "clock_bits s r \<longleftrightarrow>
     numPages r = int (length (memory s))
     \<and> length (shadowMem_Reflist r) = length (memory s)
     \<and> unat (clock_hand r) < length (memory s)
     \<and> (\<forall>i v. frames s i = Some v \<longrightarrow> managed s v \<noteq> None \<and> shadowMem_Reflist r ! i \<noteq> Indet)"

definition clock_inv :: "mstate \<Rightarrow> clock_state \<Rightarrow> bool" where
  "clock_inv s r \<longleftrightarrow> clock_links s r \<and> clock_bits s r"

lemma clock_linksI:
  assumes "\<And>v vp. managed s v = Some vp \<Longrightarrow> \<exists>a. overhead vp = Val (Some a) \<and> clock_overheads r a = Some v"
    and "\<And>a. next_overhead r \<le> a \<Longrightarrow> clock_overheads r a = None"
  shows "clock_links s r"
  using assms by (simp add: clock_links_def)

lemma set_bit_determinate: "bits ! j \<noteq> Indet \<Longrightarrow> bits[i := Val b] ! j \<noteq> Indet"
  by (cases "i = j"; cases "i < length bits") (auto simp: list_update_beyond)

lemma clock_inv_overhead:
  assumes "clock_inv s r" "managed s v = Some vp"
  obtains a where "overhead vp = Val (Some a)" "clock_overheads r a = Some v"
  using assms unfolding clock_inv_def clock_links_def by blast

lemma clock_inv_frame:
  "clock_inv s r \<Longrightarrow> frames s' = frames s \<Longrightarrow> managed s' = managed s \<Longrightarrow>
    length (memory s') = length (memory s) \<Longrightarrow> clock_inv s' r"
  by (simp add: clock_inv_def clock_links_def clock_bits_def)

lemma clock_inv_init:
  assumes "0 < n" "vheap s = (\<lambda>_. None)"
  shows "clock_inv (initialised n s) (clock_initReplacementModule (int (unat n)) clock_boot)"
proof -
  have "managed (initialised n s) = (\<lambda>_. None)"
    using assms(2) by (auto simp: managed_def initialised_def)
  moreover have "0 < unat n" using assms(1) by (simp add: word_less_nat_alt)
  ultimately show ?thesis
    by (simp add: clock_inv_def clock_links_def clock_bits_def clock_initReplacementModule_def clock_boot_def)
       (simp add: initialised_def)
qed

lemma clock_inv_new:
  assumes "clock_inv s r" "managed s v = None" "vheap s v = None" "vp_pid vp \<noteq> 0"
    and "overhead vp = Val (Some (next_overhead r))"
  shows "clock_inv (put_page v vp s) (r\<lparr>clock_overheads := (clock_overheads r)(next_overhead r \<mapsto> v),
    next_overhead := Suc (next_overhead r)\<rparr>)"
proof -
  let ?a = "next_overhead r"
  let ?r = "r\<lparr>clock_overheads := (clock_overheads r)(?a \<mapsto> v), next_overhead := Suc ?a\<rparr>"
  have fresh: "b \<ge> ?a \<Longrightarrow> clock_overheads r b = None" for b
    using assms(1) by (simp add: clock_inv_def clock_links_def)
  have "clock_links (put_page v vp s) ?r"
  proof (rule clock_linksI)
    fix w wp assume w: "managed (put_page v vp s) w = Some wp"
    show "\<exists>b. overhead wp = Val (Some b) \<and> clock_overheads ?r b = Some w"
    proof (cases "w = v")
      case True
      with w assms(4,5) show ?thesis by (auto simp: managed_upd)
    next
      case False
      with w have "managed s w = Some wp" by (simp add: managed_upd)
      with assms(1) obtain b where "overhead wp = Val (Some b)" "clock_overheads r b = Some w"
        by (rule clock_inv_overhead)
      moreover from this(2) fresh have "b \<noteq> ?a" by auto
      ultimately show ?thesis by simp
    qed
  qed (simp add: fresh)
  moreover have "clock_bits (put_page v vp s) ?r"
    using assms by (auto simp: clock_inv_def clock_bits_def managed_upd)
  ultimately show ?thesis by (simp add: clock_inv_def)
qed

text \<open>A page that moves keeps its overhead; the bits are checked separately.\<close>

lemma clock_links_move:
  assumes "clock_links s r" "managed s v = Some vp" "overhead vp' = overhead vp"
    and "managed s' = (managed s)(v \<mapsto> vp')"
    and "clock_overheads r' = clock_overheads r" "next_overhead r' = next_overhead r"
  shows "clock_links s' r'"
  using assms by (auto simp: clock_links_def)

lemma clock_notifyPageAccess_eq:
  assumes "clock_overheads r a = Some v" "vheap s v = Some vp" "inMemory vp" "currentPPN vp = Val p"
    and "unat p < length (shadowMem_Reflist r)"
  shows "clock_notifyPageAccess (Some a) s r =
    Inr (r\<lparr>shadowMem_Reflist := (shadowMem_Reflist r)[unat p := Val True]\<rparr>)"
  using assms by (simp add: clock_notifyPageAccess_def)

lemma clock_inv_load:
  assumes "clock_inv s r" "managed s v = Some vp" "unat p < length (memory s)" "frames s (unat p) = None"
  shows "clock_inv (loaded v vp p s) (r\<lparr>shadowMem_Reflist := (shadowMem_Reflist r)[unat p := Val True]\<rparr>)"
proof -
  have m: "managed (loaded v vp p s) = (managed s)(v \<mapsto> vp\<lparr>inMemory := True, currentPPN := Val p\<rparr>)"
    using assms(2) by (simp add: managed_loaded managed_Some)
  have "clock_links (loaded v vp p s) (r\<lparr>shadowMem_Reflist := (shadowMem_Reflist r)[unat p := Val True]\<rparr>)"
    using assms(1,2) by (intro clock_links_move [where r = r, OF _ assms(2) _ m]) (simp_all add: clock_inv_def)
  with assms m show ?thesis
    by (auto simp: clock_inv_def clock_bits_def frames_loaded nth_list_update)
qed

lemma clock_inv_access:
  "clock_inv s r \<Longrightarrow> clock_inv s (r\<lparr>shadowMem_Reflist := (shadowMem_Reflist r)[i := Val True]\<rparr>)"
  by (simp add: clock_inv_def clock_links_def clock_bits_def set_bit_determinate)

text \<open>
  When memory is full every bit has been written, so the sweep reads no indeterminate bit and
  ends at a frame in use.
\<close>

lemma full_bits:
  assumes "mem_inv s" "clock_inv s r" "\<not> Memory_hasFreePage s"
  obtains bs where "shadowMem_Reflist r = map Val bs" "length bs = length (memory s)"
    "length (memory s) < 2 ^ 64"
proof -
  let ?bits = "shadowMem_Reflist r"
  have len: "length ?bits = length (memory s)" using assms(2) by (simp add: clock_inv_def clock_bits_def)
  have "?bits ! i \<noteq> Indet" if "i < length ?bits" for i
    using that assms hasFreePage_iff len by (fastforce simp: clock_inv_def clock_bits_def)
  then have "\<forall>c \<in> set ?bits. c \<noteq> Indet" by (metis in_set_conv_nth)
  then have "?bits = map Val (map (\<lambda>c. case c of Val b \<Rightarrow> b | Indet \<Rightarrow> False) ?bits)"
    by (induction ?bits arbitrary: r) (auto simp: map_idI split: cval.split)
  moreover have "length (memory s) < 2 ^ 64"
    using mem_inv_shape [OF assms(1)] unsigned_less [of "mem_size s"] by (simp add: shape_length)
  ultimately show thesis using that len by (metis length_map)
qed

lemma clock_getPageToEvict_eq:
  assumes "mem_inv s" "clock_inv s r" "\<not> Memory_hasFreePage s"
    and bs: "shadowMem_Reflist r = map Val bs"
  shows "clock_getPageToEvict s r =
    (let n = length (memory s); h = unat (clock_hand r); k = clock_victim h bs in
     Inr (of_nat ((h + k) mod n), r\<lparr>clock_hand := of_nat ((h + k) mod n),
       shadowMem_Reflist := map Val (swept n h k bs)\<rparr>))"
proof -
  have "clock_sweep (int (length (memory s))) (of_nat (unat (clock_hand r))) (map Val bs)
    = Inr (of_nat ((unat (clock_hand r) + clock_victim (unat (clock_hand r)) bs) mod length (memory s)),
        map Val (swept (length (memory s)) (unat (clock_hand r)) (clock_victim (unat (clock_hand r)) bs) bs))"
  proof (rule clock_sweep_eq)
    show "length bs = length (memory s)" "unat (clock_hand r) < length (memory s)"
      using assms(2) bs by (simp_all add: clock_inv_def clock_bits_def)
    show "length (memory s) < 2 ^ 64"
      using full_bits [OF assms(1-3)] by blast
  qed
  with assms(2,3) bs show ?thesis
    by (simp add: clock_getPageToEvict_def Let_def clock_inv_def clock_bits_def)
qed

lemma clock_inv_evict:
  assumes "clock_inv s r" "managed s v = Some vp" "unat p < length (memory s)"
    and "length bits = length (memory s)" "\<forall>c \<in> set bits. c \<noteq> Indet"
  shows "clock_inv (evicted v vp p s) (r\<lparr>clock_hand := p, shadowMem_Reflist := bits\<rparr>)"
proof -
  have m: "managed (evicted v vp p s) = (managed s)(v \<mapsto> vp\<lparr>inMemory := False\<rparr>)"
    using assms(2) by (simp add: managed_evicted managed_Some)
  have "clock_links (evicted v vp p s) (r\<lparr>clock_hand := p, shadowMem_Reflist := bits\<rparr>)"
    using assms(1,2) by (intro clock_links_move [where r = r, OF _ assms(2) _ m]) (simp_all add: clock_inv_def)
  moreover have "bits ! i \<noteq> Indet" if "frames s i = Some w" for i w
    using frames_bound [OF that] assms(4,5) by simp
  ultimately show ?thesis
    using assms m by (auto simp: clock_inv_def clock_bits_def frames_evicted split: if_splits)
qed

lemma clock_inv_drop:
  assumes "clock_inv s r" "managed s v = Some vp" "overhead vp = Val (Some a)" "\<And>i. frames s i \<noteq> Some v"
  shows "clock_inv (drop_page v s) (r\<lparr>clock_overheads := (clock_overheads r)(a := None)\<rparr>)"
proof -
  let ?r = "r\<lparr>clock_overheads := (clock_overheads r)(a := None)\<rparr>"
  have a: "clock_overheads r a = Some v" using assms(1-3) by (auto elim: clock_inv_overhead)
  have "clock_links (drop_page v s) ?r"
  proof (rule clock_linksI)
    fix w wp assume "managed (drop_page v s) w = Some wp"
    then have w: "w \<noteq> v" "managed s w = Some wp" by (auto simp: managed_upd split: if_splits)
    obtain b where "overhead wp = Val (Some b)" "clock_overheads r b = Some w"
      using assms(1) w(2) by (rule clock_inv_overhead)
    moreover from this(2) a w(1) have "b \<noteq> a" by auto
    ultimately show "\<exists>b. overhead wp = Val (Some b) \<and> clock_overheads ?r b = Some w" by simp
  qed (use assms(1) in \<open>simp add: clock_inv_def clock_links_def\<close>)
  moreover have "clock_bits (drop_page v s) ?r"
    using assms(1,4) by (auto simp: clock_inv_def clock_bits_def managed_upd)
  ultimately show ?thesis by (simp add: clock_inv_def)
qed

text \<open>Leaving memory does not touch the bits.\<close>

lemma clock_inv_leave:
  assumes "clock_inv s r" "managed s v = Some vp" "unat p < length (memory s)"
  shows "clock_inv (evicted v vp p s) r"
proof -
  have m: "managed (evicted v vp p s) = (managed s)(v \<mapsto> vp\<lparr>inMemory := False\<rparr>)"
    using assms(2) by (simp add: managed_evicted managed_Some)
  have "clock_links (evicted v vp p s) r"
    using assms(1,2) by (intro clock_links_move [where r = r, OF _ assms(2) _ m]) (simp_all add: clock_inv_def)
  with assms m show ?thesis
    by (auto simp: clock_inv_def clock_bits_def frames_evicted split: if_splits)
qed

section \<open>The contract\<close>

lemma clock_inv_freed:
  assumes "mem_inv s" "clock_inv s r" "managed s v = Some vp" "overhead vp = Val (Some a)"
  shows "clock_inv (freed v vp s) (r\<lparr>clock_overheads := (clock_overheads r)(a := None)\<rparr>)"
proof -
  have heap: "vheap s v = Some vp" using assms(3) by (simp add: managed_Some)
  show ?thesis
  proof (cases "inMemory vp")
    case True
    obtain p where p: "currentPPN vp = Val p" "frames s (unat p) = Some v" "unat p < length (memory s)"
      using assms(1) heap True by (rule resident_frame)
    have nowhere: "frames (evicted v vp p s) i \<noteq> Some v" for i
      using mem_links_inj [OF mem_inv_links [OF assms(1)] mem_inv_shape [OF assms(1)] _ p(2), of i] p(3)
      by (auto simp: frames_evicted)
    have m: "managed (evicted v vp p s) v = Some (vp\<lparr>inMemory := False\<rparr>)"
      using assms(3) by (simp add: managed_evicted managed_Some)
    have "clock_inv (evicted v vp p s) r"
      using assms(2,3) p(3) by (rule clock_inv_leave)
    then have "clock_inv (drop_page v (evicted v vp p s))
        (r\<lparr>clock_overheads := (clock_overheads r)(a := None)\<rparr>)"
      using assms(4) nowhere by (intro clock_inv_drop [OF _ m]) simp_all
    with True p(1) show ?thesis by (simp add: freed_def)
  next
    case False
    have "frames s i \<noteq> Some v" for i
      using mem_links_frame [OF mem_inv_links [OF assms(1)], of i v] heap False by auto
    with False assms show ?thesis
      by (cases "currentPPN vp") (simp_all add: freed_def clock_inv_drop)
  qed
qed

lemma clock_evict_law:
  assumes "mem_inv s" "clock_inv s r" "\<not> Memory_hasFreePage s"
  shows "\<exists>p r' v vp. clock_getPageToEvict s r = Inr (p, r') \<and> frames s (unat p) = Some v
    \<and> managed s v = Some vp \<and> clock_inv (evicted v vp p s) r'"
proof -
  let ?n = "length (memory s)" and ?h = "unat (clock_hand r)"
  obtain bs where bs: "shadowMem_Reflist r = map Val bs" "length bs = ?n" "?n < 2 ^ 64"
    using assms by (rule full_bits)
  let ?i = "(?h + clock_victim ?h bs) mod ?n"
  let ?p = "of_nat ?i :: ul64" and ?bits = "map Val (swept ?n ?h (clock_victim ?h bs) bs)"
  have "?h < ?n" using assms(2) by (simp add: clock_inv_def clock_bits_def)
  then have i: "?i < ?n" by (intro mod_less_divisor) linarith
  with bs(3) have p: "unat ?p = ?i" by (simp add: unat_of_nat)
  obtain v where v: "frames s ?i = Some v"
    using assms(1,3) i hasFreePage_iff by fastforce
  then obtain vp where vp: "managed s v = Some vp"
    using assms(2) by (auto simp: clock_inv_def clock_bits_def)
  have "clock_inv (evicted v vp ?p s) (r\<lparr>clock_hand := ?p, shadowMem_Reflist := ?bits\<rparr>)"
    using assms(2) vp i p by (intro clock_inv_evict) (auto simp: swept_def)
  with v vp p clock_getPageToEvict_eq [OF assms bs(1)] show ?thesis
    by (auto simp: Let_def)
qed

lemma clock_touch_law:
  assumes "mem_inv s" "clock_links s r" "managed s v = Some vp" "inMemory vp" "overhead vp = Val ov"
    and "length (shadowMem_Reflist r) = length (memory s)"
  obtains p where "currentPPN vp = Val p" "unat p < length (memory s)"
    "clock_notifyPageAccess ov s r = Inr (r\<lparr>shadowMem_Reflist := (shadowMem_Reflist r)[unat p := Val True]\<rparr>)"
proof -
  have heap: "vheap s v = Some vp" using assms(3) by (simp add: managed_Some)
  obtain p where p: "currentPPN vp = Val p" "unat p < length (memory s)"
    using assms(1) heap assms(4) by (rule resident_frame)
  obtain a where "ov = Some a" "clock_overheads r a = Some v"
    using assms(2,3,5) unfolding clock_links_def by fastforce
  with p heap assms(4,6) that show thesis by (simp add: clock_notifyPageAccess_eq)
qed

interpretation clock: replacement_module clock_ops clock_inv
proof unfold_locales
  fix n :: ul64 and s :: mstate assume "0 < n" "vheap s = (\<lambda>_. None)"
  then show "clock_inv (initialised n s)
      (Replace_initReplacementModule clock_ops (int (unat n)) (replace_boot clock_ops))"
    unfolding clock_ops_sel by (rule clock_inv_init)
next
  fix s r s' assume "clock_inv s r" "frames s' = frames s" "managed s' = managed s"
    "length (memory s') = length (memory s)"
  then show "clock_inv s' r" by (rule clock_inv_frame)
next
  fix s r v vp assume "clock_inv s r" "managed s v = Some vp"
  then show "\<exists>ov. overhead vp = Val ov" by (elim clock_inv_overhead) auto
next
  fix s r v pid n new
  assume "clock_inv s r" "vheap s v = None" "pid \<noteq> 0" "new = fresh_page True pid n"
  then show "\<exists>ov r'. Replace_initOverhead clock_ops v (put_page v new s) r = Inr (ov, r')
      \<and> clock_inv (put_page v (new\<lparr>overhead := Val ov\<rparr>) s) r'"
    by (simp add: clock_initOverhead_def clock_inv_new fresh_page_def managed_def)
next
  fix s r v vp ov and p :: ul64
  assume *: "mem_inv s" "clock_inv s r" "managed s v = Some vp" "\<not> inMemory vp"
    "unat p < length (memory s)" "frames s (unat p) = None" "overhead vp = Val ov"
  let ?s = "loaded v vp p s" and ?vp = "vp\<lparr>inMemory := True, currentPPN := Val p\<rparr>"
  have heap: "vheap s v = Some vp" "vp_pid vp \<noteq> 0" using *(3) by (simp_all add: managed_Some)
  have m: "managed ?s = (managed s)(v \<mapsto> ?vp)" using heap by (simp add: managed_loaded)
  have "clock_links ?s r"
    using *(2) by (intro clock_links_move [where r = r, OF _ *(3) _ m]) (simp_all add: clock_inv_def)
  moreover have "length (shadowMem_Reflist r) = length (memory ?s)"
    using *(2) by (simp add: clock_inv_def clock_bits_def)
  ultimately obtain q where "currentPPN ?vp = Val q" "clock_notifyPageAccess ov ?s r
      = Inr (r\<lparr>shadowMem_Reflist := (shadowMem_Reflist r)[unat q := Val True]\<rparr>)"
    using mem_inv_loaded [OF *(1,5,6) heap(1) *(4)] m *(7)
    by (elim clock_touch_law [where v = v and vp = ?vp, rotated 1]) simp_all
  with clock_inv_load [OF *(2,3,5,6)]
  show "\<exists>r'. Replace_notifyPageLoad clock_ops ov ?s r = Inr r' \<and> clock_inv ?s r'"
    by (simp add: clock_notifyPageLoad_def)
next
  fix s r v vp ov
  assume *: "mem_inv s" "clock_inv s r" "managed s v = Some vp" "inMemory vp" "overhead vp = Val ov"
  have links: "clock_links s r" and len: "length (shadowMem_Reflist r) = length (memory s)"
    using *(2) by (simp_all add: clock_inv_def clock_bits_def)
  obtain p where "currentPPN vp = Val p" "unat p < length (memory s)" "clock_notifyPageAccess ov s r
      = Inr (r\<lparr>shadowMem_Reflist := (shadowMem_Reflist r)[unat p := Val True]\<rparr>)"
    by (rule clock_touch_law [OF *(1) links *(3-5) len])
  with clock_inv_access [OF *(2)]
  show "\<exists>r'. Replace_notifyPageAccess clock_ops ov s r = Inr r' \<and> clock_inv s r'" by simp
next
  fix s r assume "mem_inv s" "clock_inv s r" "\<not> Memory_hasFreePage s"
  then show "\<exists>p r' v vp. Replace_getPageToEvict clock_ops s r = Inr (p, r')
      \<and> frames s (unat p) = Some v \<and> managed s v = Some vp \<and> clock_inv (evicted v vp p s) r'"
    unfolding clock_ops_sel by (rule clock_evict_law)
next
  fix s r v vp a
  assume "mem_inv s" "clock_inv s r" "managed s v = Some vp" "overhead vp = Val (Some a)"
  then show "\<exists>r'. Replace_freeOverhead clock_ops (Some a) r = Inr r' \<and> clock_inv (freed v vp s) r'"
    by (simp add: clock_freeOverhead_def clock_inv_freed)
next
  fix s r v vp assume "clock_inv s r" "managed s v = Some vp" "overhead vp = Val None"
  then show "clock_inv (freed v vp s) r" by (elim clock_inv_overhead) auto
qed

end
