(* ===== verification/ReplaceRandom.thy ===== *)
theory ReplaceRandom
  imports ReplacePolicy
begin

text \<open>
  The random replacement module, \<open>replace-random.c\<close>. The generator \<open>rand\<close> is a parameter: the
  sequence of non-negative numbers that its calls return.
\<close>

record random_state =
  random_numPages :: int
  rand_calls :: nat

definition random_boot :: random_state where
  "random_boot = \<lparr>random_numPages = 0, rand_calls = 0\<rparr>"

definition random_initReplacementModule :: "int \<Rightarrow> random_state \<Rightarrow> random_state" where
  "random_initReplacementModule numberOfPhysicalPages r = r\<lparr>random_numPages := numberOfPhysicalPages\<rparr>"

definition random_initOverhead :: "vaddr \<Rightarrow> mstate \<Rightarrow> random_state \<Rightarrow> (oaddr option \<times> random_state) res" where
  "random_initOverhead vpage s r = Inr (None, r)"

definition random_freeOverhead :: "oaddr option \<Rightarrow> random_state \<Rightarrow> random_state res" where
  "random_freeOverhead o_ptr r = Inr r"

definition random_notifyPageAccess :: "oaddr option \<Rightarrow> mstate \<Rightarrow> random_state \<Rightarrow> random_state res" where
  "random_notifyPageAccess o_ptr s r = Inr r"

definition random_notifyPageLoad :: "oaddr option \<Rightarrow> mstate \<Rightarrow> random_state \<Rightarrow> random_state res" where
  "random_notifyPageLoad o_ptr s r = Inr r"

definition random_getPageToEvict ::
  "(nat \<Rightarrow> nat) \<Rightarrow> mstate \<Rightarrow> random_state \<Rightarrow> (ul64 \<times> random_state) res" where
  "random_getPageToEvict rand s r =
     (if random_numPages r = 0 then Inl DivByZero
      else Inr (of_int (int (rand (rand_calls r)) mod random_numPages r),
             r\<lparr>rand_calls := Suc (rand_calls r)\<rparr>))"

definition random_freeReplacementModule :: "random_state \<Rightarrow> random_state" where
  "random_freeReplacementModule r = r"

definition random_ops :: "(nat \<Rightarrow> nat) \<Rightarrow> random_state replace_ops" where
  "random_ops rand = \<lparr>replace_boot = random_boot,
     Replace_initReplacementModule = random_initReplacementModule,
     Replace_initOverhead = random_initOverhead,
     Replace_freeOverhead = random_freeOverhead,
     Replace_notifyPageAccess = random_notifyPageAccess,
     Replace_notifyPageLoad = random_notifyPageLoad,
     Replace_getPageToEvict = random_getPageToEvict rand\<rparr>"

lemma random_ops_sel [simp]:
  "replace_boot (random_ops rand) = random_boot"
  "Replace_initReplacementModule (random_ops rand) = random_initReplacementModule"
  "Replace_initOverhead (random_ops rand) = random_initOverhead"
  "Replace_freeOverhead (random_ops rand) = random_freeOverhead"
  "Replace_notifyPageAccess (random_ops rand) = random_notifyPageAccess"
  "Replace_notifyPageLoad (random_ops rand) = random_notifyPageLoad"
  "Replace_getPageToEvict (random_ops rand) = random_getPageToEvict rand"
  by (simp_all add: random_ops_def)

section \<open>The contract\<close>

definition random_inv :: "mstate \<Rightarrow> random_state \<Rightarrow> bool" where
  "random_inv s r \<longleftrightarrow> random_numPages r = int (length (memory s))
     \<and> (\<forall>v vp. managed s v = Some vp \<longrightarrow> overhead vp = Val None)
     \<and> (\<forall>i v. frames s i = Some v \<longrightarrow> managed s v \<noteq> None)"

lemma random_victim:
  assumes "mem_inv s" "random_inv s r"
  obtains i where "i < length (memory s)" "unat (of_nat i :: ul64) = i"
    "random_getPageToEvict rand s r = Inr (of_nat i, r\<lparr>rand_calls := Suc (rand_calls r)\<rparr>)"
    "i = rand (rand_calls r) mod length (memory s)"
proof -
  let ?i = "rand (rand_calls r) mod length (memory s)"
  have pos: "0 < length (memory s)"
    using mem_inv_shape [OF assms(1)] by (simp add: mem_shape_def word_gt_0 unat_gt_0)
  then have i: "?i < length (memory s)" by simp
  have "unat (of_nat ?i :: ul64) = ?i"
    using i mem_inv_shape [OF assms(1)] by (intro unat_of_frame [of _ "mem_size s"]) (simp add: shape_length)
  moreover have "random_getPageToEvict rand s r = Inr (of_nat ?i, r\<lparr>rand_calls := Suc (rand_calls r)\<rparr>)"
    using pos assms(2) by (simp add: random_getPageToEvict_def random_inv_def flip: zmod_int)
  ultimately show thesis using that i by blast
qed

lemma random_inv_loaded:
  assumes "random_inv s r" "managed s v = Some vp" "unat p < length (memory s)"
  shows "random_inv (loaded v vp p s) r"
proof -
  have vp: "vp_pid vp \<noteq> 0" "overhead vp = Val None"
    using assms(1,2) by (auto simp: managed_Some random_inv_def)
  then have m: "managed (loaded v vp p s) = (managed s)(v \<mapsto> vp\<lparr>inMemory := True, currentPPN := Val p\<rparr>)"
    by (simp add: managed_loaded)
  show ?thesis
    using assms(1) vp(2) unfolding random_inv_def m frames_loaded [OF assms(3)] by simp
qed

lemma random_inv_evicted:
  assumes "random_inv s r" "managed s v = Some vp" "unat p < length (memory s)"
  shows "random_inv (evicted v vp p s) (r\<lparr>rand_calls := n\<rparr>)"
proof -
  have vp: "vp_pid vp \<noteq> 0" "overhead vp = Val None"
    using assms(1,2) by (auto simp: managed_Some random_inv_def)
  then have m: "managed (evicted v vp p s) = (managed s)(v \<mapsto> vp\<lparr>inMemory := False\<rparr>)"
    by (simp add: managed_evicted)
  show ?thesis
    using assms(1) vp(2) unfolding random_inv_def m frames_evicted [OF assms(3)] by simp
qed

lemma random_inv_drop:
  assumes "random_inv s r" "\<And>i. frames s i \<noteq> Some v"
  shows "random_inv (drop_page v s) r"
proof -
  have m: "managed (drop_page v s) = (managed s)(v := None)" by (simp add: managed_upd)
  show ?thesis
    using assms unfolding random_inv_def m by (simp add: fun_upd_def)
qed

lemma random_inv_freed:
  assumes "mem_inv s" "random_inv s r" "managed s v = Some vp"
  shows "random_inv (freed v vp s) r"
proof -
  have heap: "vheap s v = Some vp" using assms(3) by (simp add: managed_Some)
  show ?thesis
  proof (cases "inMemory vp")
    case True
    obtain p where p: "currentPPN vp = Val p" "frames s (unat p) = Some v" "unat p < length (memory s)"
      using assms(1) heap True by (rule resident_frame)
    have "frames s i = Some v \<Longrightarrow> i = unat p" for i
      using mem_links_inj [OF mem_inv_links [OF assms(1)] mem_inv_shape [OF assms(1)] _ p(2)] .
    then have "frames (evicted v vp p s) i \<noteq> Some v" for i
      by (simp add: frames_evicted [OF p(3)]) blast
    moreover have "random_inv (evicted v vp p s) r"
      using random_inv_evicted [OF assms(2,3) p(3), of "rand_calls r"] by simp
    ultimately show ?thesis using True p(1) by (simp add: freed_def random_inv_drop)
  next
    case False
    have "frames s i \<noteq> Some v" for i
      using mem_links_frame [OF mem_inv_links [OF assms(1)], of i v] heap False by auto
    with False assms(2) show ?thesis
      by (cases "currentPPN vp") (simp_all add: freed_def random_inv_drop)
  qed
qed

interpretation random: replacement_module "random_ops rand" random_inv for rand :: "nat \<Rightarrow> nat"
proof unfold_locales
  fix n :: ul64 and s :: mstate assume "0 < n" "vheap s = (\<lambda>_. None)"
  then show "random_inv (initialised n s) (Replace_initReplacementModule (random_ops rand)
      (int (unat n)) (replace_boot (random_ops rand)))"
    by (simp add: random_inv_def random_initReplacementModule_def) (simp add: managed_def initialised_def)
next
  fix s r assume *: "mem_inv s" "random_inv s r" "\<not> Memory_hasFreePage s"
  obtain i where i: "i < length (memory s)" "unat (of_nat i :: ul64) = i"
    "random_getPageToEvict rand s r = Inr (of_nat i, r\<lparr>rand_calls := Suc (rand_calls r)\<rparr>)"
    using *(1,2) by (rule random_victim)
  obtain v where v: "frames s i = Some v" using *(1,3) i(1) hasFreePage_iff by fastforce
  obtain vp where "managed s v = Some vp" using *(2) v unfolding random_inv_def by blast
  with i v random_inv_evicted [OF *(2), of v vp "of_nat i" "Suc (rand_calls r)"]
  show "\<exists>p r' v vp. Replace_getPageToEvict (random_ops rand) s r = Inr (p, r')
      \<and> frames s (unat p) = Some v \<and> managed s v = Some vp \<and> random_inv (evicted v vp p s) r'"
    by auto
next
  fix s r s' assume "random_inv s r" "frames s' = frames s" "managed s' = managed s"
    "length (memory s') = length (memory s)"
  then show "random_inv s' r" by (simp add: random_inv_def)
next
  fix s r v vp assume "random_inv s r" "managed s v = Some vp"
  then show "\<exists>ov. overhead vp = Val ov" by (auto simp: random_inv_def)
next
  fix s :: mstate and r v pid n new
  assume *: "random_inv s r" "pid \<noteq> 0" "new = fresh_page True pid n"
  have "managed (put_page v (new\<lparr>overhead := Val None\<rparr>) s) = (managed s)(v \<mapsto> new\<lparr>overhead := Val None\<rparr>)"
    using *(2,3) by (simp add: managed_upd fresh_page_def)
  with *(1) show "\<exists>ov r'. Replace_initOverhead (random_ops rand) v (put_page v new s) r = Inr (ov, r')
      \<and> random_inv (put_page v (new\<lparr>overhead := Val ov\<rparr>) s) r'"
    by (simp add: random_initOverhead_def random_inv_def)
qed (auto simp: random_inv_loaded random_inv_freed random_notifyPageLoad_def random_notifyPageAccess_def
    random_freeOverhead_def)

end
