(* ===== verification/SimulatorInv.thy ===== *)
theory SimulatorInv
  imports "HOL-Library.Multiset" Progress ReplaceFifo ReplaceLru ReplaceClock ReplaceRandom
begin

text \<open>
  The simulator keeps the invariant of the machine, for every replacement module that meets the
  contract: each part of a turn is shown to succeed and to restore what it touched.
\<close>

section \<open>Page tables under the contract\<close>

context replacement_module
begin

lemma PageTable_get_ok:
  assumes "mem_inv m" "rinv m r" "\<forall>w \<in> set ws. vheap m w \<noteq> None"
  obtains m' where "PageTable_get ops (Val ws) n m r = Inr (lookup_page m n ws, m', r)"
    "mem_inv m'" "rinv m' r" "grows m m'" "leaks (if lookup_page m n ws = None then 0 else 1) {} m m'"
proof -
  obtain m1 q where q: "VPage_init ops 0 n m r = Inr (vnext m, m1, r)"
    "m1 = put_page (vnext m) q m" "vp_pid q = 0" "overhead q = Val None" "\<not> inMemory q"
    "vpn q = n" "mem_inv m1" "rinv m1 r" "managed m1 = managed m"
    using assms(1,2) by (rule VPage_init_query)
  have fresh: "vheap m (vnext m) = None"
    using mem_links_fresh [OF mem_inv_links [OF assms(1)]] by simp
  then have g: "grows m m1" unfolding q(2) by (rule grows_put)
  with assms(3) have "\<forall>w \<in> set ws. vheap m1 w \<noteq> None"
    using grows_heap by (metis not_None_eq)
  then have find: "tfind m1 q ws = Inr (lookup_page m n ws)"
    using lookup_page_grows [OF g assms(3)] q(6) by (simp add: tfind_eq)
  have heap: "vheap m1 (vnext m) = Some q" by (simp add: q(2))
  show thesis
  proof (cases "lookup_page m n ws")
    case None
    have free: "VPage_free ops (vnext m) m1 r = Inr (drop_page (vnext m) m1, r)"
      "mem_inv (drop_page (vnext m) m1)" "rinv (drop_page (vnext m) m1) r"
      using VPage_free_query [OF heap q(3,4,5,7,8)] by blast+
    have "grows m (drop_page (vnext m) m1)" using fresh by (auto simp: grows_def q(2))
    moreover have "PageTable_get ops (Val ws) n m r = Inr (None, drop_page (vnext m) m1, r)"
      using q(1) heap find None free(1) by (simp add: PageTable_get_def)
    moreover have "leaks 0 {} m (drop_page (vnext m) m1)"
      using fresh by (intro leaks_same) (simp add: q(2) fun_upd_idem)
    ultimately show thesis using that free(2,3) None by simp
  next
    case (Some w)
    have "PageTable_get ops (Val ws) n m r = Inr (Some w, m1, r)"
      using q(1) heap find Some by (simp add: PageTable_get_def)
    moreover have "leaks 1 {} m m1" unfolding q(2) using assms(1) q(3) by (rule leaks_query)
    ultimately show thesis using that q(7,8) g Some by simp
  qed
qed

lemma getVirtualPage_ok:
  assumes "core_inv rinv s" "procs s p = Some pp" "pageTable pp = Val ws" "linked env = ops"
  obtains m where "Process_getVirtualPage env p n s = Inr (lookup_page (ms s) n ws, s\<lparr>ms := m, rep := rep s\<rparr>)"
    "core_inv rinv (s\<lparr>ms := m, rep := rep s\<rparr>)" "grows (ms s) m"
    "leaks (if lookup_page (ms s) n ws = None then 0 else 1) {} (ms s) m"
proof -
  have "pages_ok (ms s) pp" using core_proc [OF assms(1,2)] by (simp add: proc_ok_def)
  then have "\<forall>w \<in> set ws. vheap (ms s) w \<noteq> None" using assms(3) by (rule pages_ok_live)
  then obtain m where m: "PageTable_get ops (Val ws) n (ms s) (rep s) = Inr (lookup_page (ms s) n ws, m, rep s)"
    "mem_inv m" "rinv m (rep s)" "grows (ms s) m"
    "leaks (if lookup_page (ms s) n ws = None then 0 else 1) {} (ms s) m"
    using PageTable_get_ok [OF core_mem [OF assms(1)] core_rinv [OF assms(1)]] by metis
  have "core_inv rinv (s\<lparr>ms := m, rep := rep s\<rparr>)"
    using assms(1) m(2,3)
  proof (rule core_inv_memory)
    show "zeroed m" using core_zeroed [OF assms(1)] grows_zeroed [OF m(4)] by simp
    show "proc_ok m qq" if "proc_ok (ms s) qq" for qq
      using that grows_heap [OF m(4)] by (rule proc_ok_pages_kept)
    show "\<exists>j. frames (ms s) j = Some v" if "frames m i = Some v" for i v
      using that grows_frames [OF m(4)] by auto
  qed
  moreover have "Process_getVirtualPage env p n s = Inr (lookup_page (ms s) n ws, s\<lparr>ms := m, rep := rep s\<rparr>)"
    using assms(2-4) m(1) by (simp add: Process_getVirtualPage_def on_pager_def)
  ultimately show thesis using that m(4,5) by blast
qed

lemma virtualPageInMemory_ok:
  assumes "core_inv rinv s" "procs s p = Some pp" "pageTable pp = Val ws" "linked env = ops"
    and "lookup_page (ms s) n ws = Some v" "vheap (ms s) v = Some vp"
  obtains m where "Process_virtualPageInMemory env p n s = Inr (inMemory vp, s\<lparr>ms := m, rep := rep s\<rparr>)"
    "core_inv rinv (s\<lparr>ms := m, rep := rep s\<rparr>)" "grows (ms s) m" "leaks 1 {} (ms s) m"
proof -
  obtain m where m: "Process_getVirtualPage env p n s = Inr (lookup_page (ms s) n ws, s\<lparr>ms := m, rep := rep s\<rparr>)"
    "core_inv rinv (s\<lparr>ms := m, rep := rep s\<rparr>)" "grows (ms s) m"
    "leaks (if lookup_page (ms s) n ws = None then 0 else 1) {} (ms s) m"
    using assms(1-4) by (rule getVirtualPage_ok)
  have "Process_virtualPageInMemory env p n s = Inr (inMemory vp, s\<lparr>ms := m, rep := rep s\<rparr>)"
    using m(1) assms(2,5) grows_heap [OF m(3) assms(6)]
    by (simp add: Process_getVirtualPage_def Process_virtualPageInMemory_def)
  moreover have "leaks 1 {} (ms s) m" using m(4) assms(5) by simp
  ultimately show thesis using m(2,3) that by blast
qed

lemma allocVirtualPage_ok:
  assumes "core_inv rinv s" "procs s p = Some pp" "pageTable pp = Val ws" "linked env = ops"
    and "lookup_page (ms s) n ws = None"
  obtains v s' where "Process_allocVirtualPage env p n s = Inr (v, s')" "core_inv rinv s'"
    "s' = s\<lparr>ms := ms s', rep := rep s', procs := (procs s)(p \<mapsto> pp\<lparr>pageTable := Val (ws @ [v])\<rparr>)\<rparr>"
    "page_key (ms s') v = Some (pid pp, n)" "grows (ms s) (ms s')"
    "lookup_page (ms s') n (ws @ [v]) = Some v"
    "\<exists>vp. vheap (ms s') v = Some vp \<and> \<not> inMemory vp"
    "\<exists>v m ov. Replace_initOverhead ops v m (rep s) = Inr (ov, rep s')" "leaks 0 {v} (ms s) (ms s')"
proof -
  note ok = core_proc [OF assms(1,2)]
  have pok: "pages_ok (ms s) pp" using ok by (simp add: proc_ok_def)
  note nz = pages_ok_live(1) [OF pok assms(3)] and live = pages_ok_live(2) [OF pok assms(3)]
  let ?v = "vnext (ms s)"
  obtain m r ov where new: "VPage_init ops (pid pp) n (ms s) (rep s) = Inr (?v, m, r)"
    "m = put_page ?v \<lparr>vpn = n, vp_pid = pid pp, overhead = Val ov, inMemory = False, currentPPN = Indet\<rparr> (ms s)"
    "mem_inv m" "rinv m r"
    using core_mem [OF assms(1)] core_rinv [OF assms(1)] core_zeroed [OF assms(1)] nz
    by (rule VPage_init_managed)
  have fresh: "vheap (ms s) ?v = None"
    using mem_links_fresh [OF mem_inv_links [OF core_mem [OF assms(1)]]] by simp
  then have g: "grows (ms s) m" unfolding new(2) by (rule grows_put)
  have none: "lookup_page m n ws = None" using lookup_page_grows [OF g live] assms(5) by simp
  have live': "\<forall>w \<in> set ws. vheap m w \<noteq> None" using live grows_heap [OF g] by (metis not_None_eq)
  have key: "page_key m ?v = Some (pid pp, n)" by (simp add: new(2) page_key_def)
  have core1: "core_inv rinv (s\<lparr>ms := m, rep := r\<rparr>)"
    using assms(1) new(3,4)
  proof (rule core_inv_memory)
    show "zeroed m" using core_zeroed [OF assms(1)] grows_zeroed [OF g] by simp
    show "proc_ok m qq" if "proc_ok (ms s) qq" for qq
      using that grows_heap [OF g] by (rule proc_ok_pages_kept)
    show "\<exists>j. frames (ms s) j = Some v" if "frames m i = Some v" for i v
      using that grows_frames [OF g] by auto
  qed
  let ?pp = "pp\<lparr>pageTable := Val (ws @ [?v])\<rparr>"
  let ?s = "s\<lparr>ms := m, rep := r, procs := (procs s)(p \<mapsto> ?pp)\<rparr>"
  have old: "proc_ok m pp" using core_proc [OF core1, of p pp] assms(2) by simp
  have "pages_ok m ?pp"
  proof -
    have "distinct (map (page_key m) ws)" "\<forall>w \<in> set ws. \<exists>n. page_key m w = Some (pid pp, n)"
      using old assms(3) by (auto simp: proc_ok_def pages_ok_def)
    then show ?thesis
      using key nz lookup_page_None [OF none] unfolding pages_ok_def by force
  qed
  then have "proc_ok m ?pp"
    using old assms(3) unfolding proc_ok_def by (auto simp: lines_ok_def blocked_ok_def)
  then have core2: "core_inv rinv ?s"
    using core_inv_proc [OF core1, of p pp ?pp] assms(2,3) by (simp add: subset_insertI)
  have "Process_allocVirtualPage env p n s = Inr (?v, ?s)"
    using assms(2-4) new(1) live' none
    by (simp add: Process_allocVirtualPage_def on_pager_def PageTable_add_def tsearch_def new(2) tfind_eq)
  moreover have "lookup_page m n (ws @ [?v]) = Some ?v"
    using none by (simp add: lookup_page_append) (simp add: lookup_page_def new(2))
  moreover have "\<exists>vp. vheap m ?v = Some vp \<and> \<not> inMemory vp" by (simp add: new(2))
  moreover have "\<exists>v m ov. Replace_initOverhead ops v m (rep s) = Inr (ov, r)"
    using new(1) nz by (auto simp: VPage_init_def Let_def bnd_eq_Inr split: if_splits)
  moreover have "leaks 0 {?v} (ms s) m"
    unfolding new(2) using core_mem [OF assms(1)] by (rule leaks_page) (simp add: nz)
  ultimately show thesis using core2 key g by (intro that [of ?v ?s]) simp_all
qed

text \<open>The lookup with creation: the page of the line, in the table of the process.\<close>

lemma find_page_ok:
  assumes "core_inv rinv s" "procs s p = Some pp" "linked env = ops"
  obtains v s' ws where "find_page env p n s = Inr (v, s')" "core_inv rinv s'"
    "s' = s\<lparr>ms := ms s', rep := rep s', procs := (procs s)(p \<mapsto> pp\<lparr>pageTable := Val ws\<rparr>)\<rparr>"
    "lookup_page (ms s') n ws = Some v" "page_key (ms s') v = Some (pid pp, n)" "grows (ms s) (ms s')"
    "\<forall>us w. pageTable pp = Val us \<longrightarrow> lookup_page (ms s) n us = Some w \<longrightarrow> v = w" "renews ops (rep s) (rep s')"
    "table_adds (ms s') pp v ws" "leaks 1 (set ws) (ms s) (ms s')"
proof -
  have pok: "pages_ok (ms s) pp" using core_proc [OF assms(1,2)] by (simp add: proc_ok_def)
  then obtain ws where ws: "pageTable pp = Val ws" "\<forall>w \<in> set ws. \<exists>n. page_key (ms s) w = Some (pid pp, n)"
    unfolding pages_ok_def by blast
  note live = pages_ok_live(2) [OF pok ws(1)]
  obtain m where get: "Process_getVirtualPage env p n s
      = Inr (lookup_page (ms s) n ws, s\<lparr>ms := m, rep := rep s\<rparr>)"
    "core_inv rinv (s\<lparr>ms := m, rep := rep s\<rparr>)" "grows (ms s) m"
    "leaks (if lookup_page (ms s) n ws = None then 0 else 1) {} (ms s) m"
    using assms(1,2) ws(1) assms(3) by (rule getVirtualPage_ok)
  let ?s1 = "s\<lparr>ms := m, rep := rep s\<rparr>"
  have same: "lookup_page m n ws = lookup_page (ms s) n ws" using get(3) live by (rule lookup_page_grows)
  show thesis
  proof (cases "lookup_page (ms s) n ws")
    case (Some v)
    obtain k where "page_key (ms s) v = Some (pid pp, k)" "page_key (ms s) v = Some (pid pp, n)"
      using lookup_page_Some [OF Some] ws(2) by (fastforce simp: page_key_Some)
    then have "page_key m v = Some (pid pp, n)"
      using grows_heap [OF get(3)] by (fastforce simp: page_key_Some)
    moreover have "pp\<lparr>pageTable := Val ws\<rparr> = pp" using ws(1) by simp
    then have "(procs s)(p \<mapsto> pp\<lparr>pageTable := Val ws\<rparr>) = procs s" using assms(2) by (simp add: fun_upd_idem)
    moreover have "find_page env p n s = Inr (v, ?s1)" using get(1) Some by (simp add: find_page_def)
    moreover have "\<forall>us w. pageTable pp = Val us \<longrightarrow> lookup_page (ms s) n us = Some w \<longrightarrow> v = w"
      using ws(1) Some by simp
    moreover have "table_adds m pp v ws" using ws(1) by (simp add: table_adds_def)
    moreover have "leaks 1 (set ws) (ms s) m" using get(4) Some by (simp add: leaks_def)
    ultimately show thesis using get(2,3) same Some by (intro that [of v ?s1 ws]) (simp_all add: renews_def)
  next
    case None
    obtain v s2 where al: "Process_allocVirtualPage env p n ?s1 = Inr (v, s2)" "core_inv rinv s2"
      "s2 = ?s1\<lparr>ms := ms s2, rep := rep s2, procs := (procs ?s1)(p \<mapsto> pp\<lparr>pageTable := Val (ws @ [v])\<rparr>)\<rparr>"
      "page_key (ms s2) v = Some (pid pp, n)" "grows (ms ?s1) (ms s2)"
      "lookup_page (ms s2) n (ws @ [v]) = Some v" "\<exists>vp. vheap (ms s2) v = Some vp \<and> \<not> inMemory vp"
      "\<exists>v m ov. Replace_initOverhead ops v m (rep ?s1) = Inr (ov, rep s2)" "leaks 0 {v} (ms ?s1) (ms s2)"
      using get(2) _ ws(1) assms(3)
      by (rule allocVirtualPage_ok [where n = n]) (use assms(2) same None in simp_all)
    let ?pp = "pp\<lparr>pageTable := Val (ws @ [v])\<rparr>"
    have p2: "procs s2 p = Some ?pp" "pageTable ?pp = Val (ws @ [v])" by (subst al(3)) simp_all
    obtain m3 where again: "Process_getVirtualPage env p n s2
        = Inr (lookup_page (ms s2) n (ws @ [v]), s2\<lparr>ms := m3, rep := rep s2\<rparr>)"
      "core_inv rinv (s2\<lparr>ms := m3, rep := rep s2\<rparr>)" "grows (ms s2) m3"
      "leaks (if lookup_page (ms s2) n (ws @ [v]) = None then 0 else 1) {} (ms s2) m3"
      using al(2) p2 assms(3) by (rule getVirtualPage_ok)
    let ?s3 = "s2\<lparr>ms := m3, rep := rep s2\<rparr>"
    have "\<forall>w \<in> set (ws @ [v]). vheap (ms s2) w \<noteq> None"
      using core_proc [OF al(2) p2(1)] p2(2) by (intro pages_ok_live(2) [of _ ?pp]) (simp_all add: proc_ok_def)
    then have f4: "lookup_page (ms ?s3) n (ws @ [v]) = Some v"
      using lookup_page_grows [OF again(3)] al(6) by simp
    have f5: "page_key (ms ?s3) v = Some (pid pp, n)"
      using grows_key [OF again(3) al(4)] by simp
    have f1: "find_page env p n s = Inr (v, ?s3)"
      using get(1) None al(1,6) again(1) by (simp add: find_page_def)
    have f3: "?s3 = s\<lparr>ms := ms ?s3, rep := rep ?s3, procs := (procs s)(p \<mapsto> ?pp)\<rparr>"
      by (subst (1 2) al(3)) simp
    have "grows (ms s) (ms s2)" using grows_trans [OF get(3)] al(5) by simp
    then have f6: "grows (ms s) (ms ?s3)" using grows_trans again(3) by simp
    have f7: "\<forall>us w. pageTable pp = Val us \<longrightarrow> lookup_page (ms s) n us = Some w \<longrightarrow> v = w"
      using None ws(1) by simp
    have "renews ops (rep s) (rep ?s3)" using al(8) by (simp add: renews_def)
    moreover have "table_adds (ms ?s3) pp v (ws @ [v])"
      using ws(1) al(7) grows_heap [OF again(3)] by (auto simp: table_adds_def)
    moreover have "leaks 0 {} (ms s) m" "leaks 0 {v} m (ms s2)" "leaks 1 {} (ms s2) m3"
      using get(4) None al(9) again(4) al(6) by simp_all
    then have "leaks (0 + 0 + 1) (set (ws @ [v])) (ms s) m3"
      by (elim leaks_trans [OF leaks_trans [where Z = "{v}"]]) auto
    then have "leaks 1 (set (ws @ [v])) (ms s) (ms ?s3)" by simp
    ultimately show thesis by (rule that [OF f1 again(2) f3 f4 f5 f6 f7])
  qed
qed

end

section \<open>Hits, misses and the end of a process\<close>

lemma safelySwitch_block:
  assumes "pq s RUNNABLE = p # q" "procs s p = Some pp" "status pp = RUNNABLE" "waitTime pp = DISK_PENALTY"
    and "set (pq s BLOCKED) \<subseteq> dom (procs s)"
  shows "Simulator_safelySwitchStatus env p BLOCKED fp s = Inr (s\<lparr>pq := (pq s)(RUNNABLE := q, BLOCKED := pq s BLOCKED @ [p]),
    procs := (procs s)(p \<mapsto> pp\<lparr>currentPos := fp, status := BLOCKED\<rparr>)\<rparr>)"
proof -
  let ?pp = "pp\<lparr>currentPos := fp\<rparr>"
  let ?s = "s\<lparr>procs := (procs s)(p \<mapsto> ?pp)\<rparr>"
  have "Process_switchStatus env RUNNABLE BLOCKED ?s = Inr (Some p,
    ?s\<lparr>pq := (pq ?s)(RUNNABLE := q, BLOCKED := pq ?s BLOCKED @ [p]), procs := (procs ?s)(p \<mapsto> ?pp\<lparr>status := BLOCKED\<rparr>)\<rparr>)"
    by (rule switch_to_tail) (use assms in auto)
  with assms(1-4) show ?thesis
    by (simp add: Simulator_safelySwitchStatus_def Process_peek_def upd_proc_def)
qed

lemma run_sorted_tail:
  assumes "run_sorted s" "pq s RUNNABLE = p # q" "distinct (p # q)"
    and "pq s' RUNNABLE = q" "\<And>c. c \<noteq> p \<Longrightarrow> procs s' c = procs s c"
  shows "run_sorted s'"
proof -
  have "saved_pos (procs s') c = saved_pos (procs s) c" if "c \<in> set q" for c
  proof -
    from that assms(3) have "c \<noteq> p" by auto
    then show ?thesis by (simp add: saved_pos_def assms(5))
  qed
  then have "map (saved_pos (procs s')) q = map (saved_pos (procs s)) q" by simp
  with assms(1,2,4) show ?thesis by (simp add: run_sorted_def del: map_eq_conv)
qed

lemma miss_page_ok:
  assumes "machine_inv rinv s" "pq s RUNNABLE = p # q" "procs s p = Some pp"
    and "pageTable pp = Val ws" "v \<in> set ws" "vheap (ms s) v = Some vp" "\<not> inMemory vp"
  obtains s' where "miss_page env p v fp s = Inr s'" "machine_inv rinv s'"
    "s' = s\<lparr>stats := Stat_miss (stats s), pq := (pq s)(RUNNABLE := q, BLOCKED := pq s BLOCKED @ [p]),
      procs := (procs s)(p \<mapsto> pp\<lparr>waitTime := DISK_PENALTY, waitingOnPage := Some v, currentPos := fp, status := BLOCKED\<rparr>)\<rparr>"
proof -
  note core = machine_inv_core [OF assms(1)]
  note sched = core_sched [OF core]
  note dist = sched_ok_distinct [OF sched]
  have run: "status pp = RUNNABLE" using sched_ok_status [OF sched assms(3)] assms(2) by simp
  let ?pp = "pp\<lparr>waitTime := DISK_PENALTY, waitingOnPage := Some v, currentPos := fp, status := BLOCKED\<rparr>"
  let ?s = "s\<lparr>stats := Stat_miss (stats s), pq := (pq s)(RUNNABLE := q, BLOCKED := pq s BLOCKED @ [p]),
      procs := (procs s)(p \<mapsto> ?pp)\<rparr>"
  have blk: "set (pq s BLOCKED) \<subseteq> dom (procs s)" using sched_ok_dom [OF sched] by auto
  have ok: "proc_ok (ms s) pp" using core_proc [OF core assms(3)] .
  have "0 < DISK_PENALTY" by (simp add: DISK_PENALTY_def)
  then have "proc_ok (ms s) ?pp"
    using ok assms(4-7) by (auto simp: proc_ok_def lines_ok_def pages_ok_def blocked_ok_def)
  then have "core_inv rinv ?s"
    by (rule core_inv_move [OF core assms(3), of ?pp]) (use \<open>proc_ok (ms s) ?pp\<close> dist assms(2) in auto)
  moreover have "run_sorted ?s"
    by (rule run_sorted_tail [OF machine_inv_sorted [OF assms(1)] assms(2)]) (use dist assms(2) in simp_all)
  moreover have "miss_page env p v fp s = Inr ?s"
    using safelySwitch_block [of "s\<lparr>stats := Stat_miss (stats s), procs := (procs s)(p \<mapsto>
        pp\<lparr>waitTime := DISK_PENALTY, waitingOnPage := Some v\<rparr>)\<rparr>" p q _ env fp] assms(2,3) run blk
    by (simp add: miss_page_def upd_proc_def insert_absorb subset_insertI2)
  ultimately show thesis using that by (simp add: machine_inv_def)
qed

context replacement_module
begin

lemma hit_page_ok:
  assumes "core_inv rinv s" "linked env = ops" "vheap (ms s) v = Some vp" "inMemory vp" "vp_pid vp \<noteq> 0"
  obtains r where "hit_page env v s = Inr (s\<lparr>rep := r, stats := Stat_hit (stats s)\<rparr>)"
    "core_inv rinv (s\<lparr>rep := r, stats := Stat_hit (stats s)\<rparr>)"
    "\<exists>ov. overhead vp = Val ov \<and> Replace_notifyPageAccess ops ov (ms s) (rep s) = Inr r"
proof -
  have m: "managed (ms s) v = Some vp" using assms(3,5) by (simp add: managed_Some)
  obtain ov r where ov: "overhead vp = Val ov" "Replace_notifyPageAccess ops ov (ms s) (rep s) = Inr r"
    "rinv (ms s) r"
    using core_mem [OF assms(1)] core_rinv [OF assms(1)] m assms(4) by (rule access)
  have "core_inv rinv (s\<lparr>rep := r, stats := Stat_hit (stats s)\<rparr>)"
    using core_invD [OF assms(1)] ov(3) by (intro core_invI) auto
  with ov(1,2) assms(2,3) that show thesis by (simp add: hit_page_def)
qed

lemma tdestroy_ok:
  assumes "mem_inv m" "rinv m r" "distinct vs" "\<forall>v \<in> set vs. managed m v \<noteq> None"
  obtains m' r' where "tdestroy ops vs m r = Inr (m', r')" "mem_inv m'" "rinv m' r'"
    "zeroed m' = zeroed m" "\<forall>w. w \<notin> set vs \<longrightarrow> vheap m' w = vheap m w"
    "\<forall>w \<in> set vs. vheap m' w = None" "length (memory m') = length (memory m)"
  using assms
proof (induction vs arbitrary: m r thesis)
  case Nil
  then show ?case by simp
next
  case (Cons v vs)
  obtain vp where vp: "managed m v = Some vp" using Cons.prems(5) by auto
  obtain r1 where free: "VPage_free ops v m r = Inr (freed v vp m, r1)" "mem_inv (freed v vp m)"
    "rinv (freed v vp m) r1"
    using Cons.prems(2,3) vp by (rule VPage_free_managed)
  have heap: "vheap (freed v vp m) w = vheap m w" if "w \<noteq> v" for w
    using that by (simp add: freed_def split: cval.split)
  have gone: "vheap (freed v vp m) v = None" by (simp add: freed_def split: cval.split)
  have zero: "zeroed (freed v vp m) = zeroed m" "length (memory (freed v vp m)) = length (memory m)"
    by (simp_all add: freed_def split: cval.split)
  have "managed (freed v vp m) w = managed m w" if "w \<noteq> v" for w
    using heap [OF that] by (simp add: managed_def)
  then have "\<forall>w \<in> set vs. managed (freed v vp m) w \<noteq> None"
    using Cons.prems(4,5) by (metis distinct.simps(2) list.set_intros(2))
  then obtain m' r' where "tdestroy ops vs (freed v vp m) r1 = Inr (m', r')" "mem_inv m'" "rinv m' r'"
    "zeroed m' = zeroed (freed v vp m)" "\<forall>w. w \<notin> set vs \<longrightarrow> vheap m' w = vheap (freed v vp m) w"
    "\<forall>w \<in> set vs. vheap m' w = None" "length (memory m') = length (memory (freed v vp m))"
    using Cons.IH [OF _ free(2,3)] Cons.prems(4) by auto
  with free(1) heap zero gone Cons.prems(4) show ?case by (intro Cons.prems(1) [of m' r']) auto
qed

text \<open>The process at the head of the queue ends.\<close>

lemma finish_ok:
  assumes "machine_inv rinv s" "pq s RUNNABLE = p # q" "procs s p = Some pp" "lastline pp \<le> currentline pp"
    and "linked env = ops" "freed_writable env" "\<And>ws. mset (destroy_order env ws) = mset ws"
  obtains s' where "Simulator_safelySwitchStatus env p FINISHED 0 s = Inr s'" "machine_inv rinv s'"
    "procs s' = (procs s)(p := None)" "pq s' = (pq s)(RUNNABLE := q, FINISHED := pq s FINISHED @ [p])"
    "only_moves p s s'" "stats s' = stats s" "log s' = log s"
    "\<forall>ws. pageTable pp = Val ws \<longrightarrow> (\<forall>w. vheap (ms s') w = (if w \<in> set ws then None else vheap (ms s) w))"
    "length (memory (ms s')) = length (memory (ms s))"
proof -
  note core = machine_inv_core [OF assms(1)]
  note sched = core_sched [OF core]
  note dist = sched_ok_distinct [OF sched]
  have run: "status pp = RUNNABLE" using sched_ok_status [OF sched assms(3)] assms(2) by simp
  have pok: "pages_ok (ms s) pp" using core_proc [OF core assms(3)] by (simp add: proc_ok_def)
  obtain ws where ws: "pageTable pp = Val ws" "distinct ws" "distinct (map (page_key (ms s)) ws)"
    "\<forall>w \<in> set ws. \<exists>vp. managed (ms s) w = Some vp \<and> vp_pid vp = pid pp" "pid pp \<noteq> 0"
    using pok by (rule pages_okE)
  let ?vs = "destroy_order env ws"
  have vs: "set ?vs = set ws" "distinct ?vs"
    using assms(7) [of ws] ws(2) by (metis set_mset_mset, metis mset_eq_imp_distinct_iff)
  obtain m r where td: "tdestroy ops ?vs (ms s) (rep s) = Inr (m, r)" "mem_inv m" "rinv m r"
    "zeroed m = zeroed (ms s)" "\<forall>w. w \<notin> set ?vs \<longrightarrow> vheap m w = vheap (ms s) w"
    "\<forall>w \<in> set ?vs. vheap m w = None" "length (memory m) = length (memory (ms s))"
    using core_mem [OF core] core_rinv [OF core] vs(2)
    by (rule tdestroy_ok) (use ws(4) vs(1) in fastforce)
  let ?pp = "pp\<lparr>currentPos := 0\<rparr>"
  let ?old = "s\<lparr>procs := (procs s)(p \<mapsto> ?pp)\<rparr>"
  let ?s = "s\<lparr>pq := (pq s)(RUNNABLE := q, FINISHED := pq s FINISHED @ [p]), ms := m, rep := r,
      procs := (procs s)(p := None)\<rparr>"
  have "Process_switchStatus env RUNNABLE FINISHED ?old = Inr (Some p, ?old\<lparr>pq := (pq ?old)(RUNNABLE := q,
      FINISHED := pq ?old FINISHED @ [p]), procs := (procs ?old)(p \<mapsto> ?pp\<lparr>status := FINISHED\<rparr>)\<rparr>)"
    by (rule switch_to_tail [of ?old RUNNABLE p q ?pp FINISHED env]) (use assms(2,6) in simp_all)
  then have "Simulator_safelySwitchStatus env p FINISHED 0 s = Inr ?s"
    using assms(2-5) run ws(1) td(1)
    by (simp add: Simulator_safelySwitchStatus_def Process_peek_def upd_proc_def
        Process_hasLinesRemainingInFile_def Process_quit_def Process_free_def not_less)
  moreover have "core_inv rinv ?s"
  proof (rule core_invI)
    show "sched_ok (procs ?s) (pq ?s RUNNABLE) (pq ?s BLOCKED)"
      using sched_ok_del [of "procs s" p q] sched assms(2) by simp
    fix c cp assume "procs ?s c = Some cp"
    then have cp: "procs s c = Some cp" "c \<noteq> p" by (simp_all split: if_splits)
    then have ne: "pid cp \<noteq> pid pp" using sched_ok_pid [OF sched cp(1) assms(3)] by blast
    have "proc_ok m cp"
      using core_proc [OF core cp(1)]
    proof (rule proc_ok_pages_kept)
      fix w wp assume w: "vheap (ms s) w = Some wp" "vp_pid wp = pid cp"
      then have "w \<notin> set ws" using ws(4) ne by (fastforce simp: managed_Some)
      with w td(5) vs(1) show "vheap m w = Some wp" by simp
    qed
    then show "proc_ok (ms ?s) cp" by simp
  next
    show "owned_ok (ms ?s) (procs ?s)"
      unfolding owned_ok_def
    proof (intro allI impI)
      fix i v assume "frames (ms ?s) i = Some v"
      then obtain vp where vp: "vheap m v = Some vp" "inMemory vp"
        using mem_links_frame [OF mem_inv_links [OF td(2)], of i v] by auto
      then have out: "v \<notin> set ws" using td(6) vs(1) by force
      then have "vheap (ms s) v = Some vp" using td(5) vs(1) vp(1) by simp
      then obtain j where "frames (ms s) j = Some v"
        using mem_links_page [OF mem_inv_links [OF core_mem [OF core]]] vp(2) by blast
      then obtain c cp us where c: "procs s c = Some cp" "pageTable cp = Val us" "v \<in> set us"
        using core_owned [OF core] unfolding owned_ok_def by blast
      then have "c \<noteq> p" using assms(3) ws(1) out by auto
      with c show "\<exists>c cp us. procs ?s c = Some cp \<and> pageTable cp = Val us \<and> v \<in> set us"
        by (intro exI [of _ c]) auto
    qed
  qed (use td core_zeroed [OF core] in simp_all)
  moreover have "run_sorted ?s"
    by (rule run_sorted_tail [OF machine_inv_sorted [OF assms(1)] assms(2)]) (use dist assms(2) in simp_all)
  moreover have "only_moves p s ?s"
  proof (rule only_movesI)
    fix w i n assume key: "page_key (ms s) w = Some (i, n)" "\<forall>pp. procs s p = Some pp \<longrightarrow> pid pp \<noteq> i"
    then have "w \<notin> set ws" using ws(4) assms(3) by (fastforce simp: page_key_Some managed_Some)
    with key(1) td(5) vs(1) show "page_key (ms ?s) w = Some (i, n)" by (simp add: page_key_def)
  qed simp_all
  ultimately show thesis
    using assms(3) ws(1) td(5-7) vs(1) by (intro that [of ?s]) (simp_all add: machine_inv_def)
qed

text \<open>After a hit: the next line, the next interval, or the end of the process.\<close>

lemma advance_ok:
  assumes "machine_inv rinv s" "pq s RUNNABLE = p # q" "procs s p = Some pp"
    and "linked env = ops" "freed_writable env" "\<And>ws. mset (destroy_order env ws) = mset ws"
  obtains s' c where "advance env p s = Inr (s', c)" "machine_inv rinv s'" "advanced p s s'" "stats s' = stats s"
    "log s' = log s" "lands pp (tracefile s) (pq s RUNNABLE) p s' c"
    "\<forall>pp'. procs s' p = Some pp' \<longrightarrow> pageTable pp' = pageTable pp \<and> ms s' = ms s \<and> rep s' = rep s"
    "\<forall>ws w. pageTable pp = Val ws \<longrightarrow> w \<notin> set ws \<longrightarrow> vheap (ms s') w = vheap (ms s) w"
    "length (memory (ms s')) = length (memory (ms s))"
    "\<forall>ws. procs s' p = None \<longrightarrow> pageTable pp = Val ws \<longrightarrow> (\<forall>w \<in> set ws. vheap (ms s') w = None)"
proof -
  note core = machine_inv_core [OF assms(1)]
  note sched = core_sched [OF core]
  note dist = sched_ok_distinct [OF sched]
  have ok: "proc_ok (ms s) pp" and lines: "lines_ok pp"
    using core_proc [OF core assms(3)] by (simp_all add: proc_ok_def)
  have run: "status pp = RUNNABLE" using sched_ok_status [OF sched assms(3)] assms(2) by simp
  obtain l h m f lt rt where node: "interval_of pp = INode l h m f lt rt" "currentline pp \<le> h"
    "rt = NULLI \<longrightarrow> h = lastline pp"
    "rt = NULLI \<longleftrightarrow> Suc (currInterval pp) = length (it_chain (lineIntervals pp))"
    "h = fst (snd (it_chain (lineIntervals pp) ! currInterval pp))"
    using lines by (rule lines_ok_node)
  note defs = Process_onLastLineInInterval_def Process_hasIntervalsRemaining_def
    Process_hasLinesRemainingInInterval_def curr_node_def
  consider (jump) "h = currentline pp" "rt \<noteq> NULLI" | (more) "currentline pp < h"
    | (finished) "h = currentline pp" "rt = NULLI"
    using node(2) by force
  then show thesis
  proof cases
    case jump
    then have later: "Suc (currInterval pp) < length (it_chain (lineIntervals pp))"
      using node(4) lines by (simp add: lines_ok_def)
    with lines obtain l' h' m' fp lt' rt' where
      nxt: "interval_of (pp\<lparr>currInterval := Suc (currInterval pp)\<rparr>) = INode l' h' m' (Val fp) lt' rt'"
      "lines_ok (pp\<lparr>currInterval := Suc (currInterval pp), currentline := l', currentPos := fp\<rparr>)"
      "l' = fst (it_chain (lineIntervals pp) ! Suc (currInterval pp))"
      "it_chain (lineIntervals pp) ! Suc (currInterval pp) = (l', h', Val fp)"
      by (rule lines_ok_jump)
    let ?pp = "pp\<lparr>currInterval := Suc (currInterval pp), currentline := l', currentPos := fp\<rparr>"
    let ?moved = "s\<lparr>procs := (procs s)(p \<mapsto> ?pp)\<rparr>"
    let ?sought = "s\<lparr>procs := (procs s)(p \<mapsto> ?pp), tracefile := fseek (tracefile s) fp\<rparr>"
    let ?s = "?sought\<lparr>pq := (pq s)(RUNNABLE := place (procs ?sought) p fp q), procs := (procs ?sought)(p \<mapsto> ?pp\<lparr>status := RUNNABLE\<rparr>)\<rparr>"
    have jmp: "Process_jumpToNextInterval (Some p) s = Inr ?moved"
      using assms(3) node(1) nxt(1) by (simp add: Process_jumpToNextInterval_def curr_node_def)
    have seek: "Simulator_seekSavedLine p ?moved = Inr ?sought"
      using run by (simp add: Simulator_seekSavedLine_def)
    have other: "\<forall>c \<in> set q. \<exists>cp. procs ?sought c = Some cp \<and> pid cp \<noteq> pid ?pp"
    proof
      fix c assume c: "c \<in> set q"
      then have "c \<noteq> p" "c \<in> set (pq s RUNNABLE @ pq s BLOCKED)" using dist assms(2) by auto
      then show "\<exists>cp. procs ?sought c = Some cp \<and> pid cp \<noteq> pid ?pp"
        using sched_ok_other [OF sched assms(3)] by simp
    qed
    have switch: "Process_switchStatus env RUNNABLE RUNNABLE ?sought = Inr (Some p, ?s)"
      using switch_to_runnable [of ?sought RUNNABLE p q ?pp q env] assms(2) other dist run by simp
    have "advance env p s = Inr (?s, Some p)"
      using assms(3) jump node(1) jmp seek switch by (simp add: advance_def defs)
    moreover have pok: "proc_ok (ms s) (?pp\<lparr>status := RUNNABLE\<rparr>)"
      using ok nxt(2) by (simp add: proc_ok_def pages_ok_def lines_ok_def)
    have "core_inv rinv ?s"
      by (rule core_inv_move [OF core assms(3) pok]) (use dist assms(2) run in auto)
    moreover have "run_sorted ?s"
    proof -
      have "run_sorted (?sought\<lparr>pq := (pq s)(RUNNABLE := q)\<rparr>)"
        by (rule run_sorted_tail [OF machine_inv_sorted [OF assms(1)] assms(2)]) (use dist assms(2) in simp_all)
      then have "sorted (map (saved_pos (procs ?sought)) (place (procs ?sought) p fp q))"
        by (intro place_sorted) (simp_all add: run_sorted_def del: saved_pos_upd, simp)
      moreover have "saved_pos (procs ?s) = saved_pos (procs ?sought)" by (intro ext) simp
      ultimately show ?thesis by (simp add: run_sorted_def del: saved_pos_upd)
    qed
    moreover have "work_left pp = Suc (work_left (?pp\<lparr>status := RUNNABLE\<rparr>))"
      using work_left_jump [OF later, of fp] nxt(3) jump(1) node(5) by simp
    then have "advanced p s ?s"
      using assms(3) by (auto simp: advanced_def intro: only_movesI)
    moreover have "lands pp (tracefile s) (pq s RUNNABLE) p ?s (Some p)"
      using nxt(4) by (simp add: lands_def ftell_def fseek_def)
    ultimately show thesis by (intro that [of ?s "Some p"]) (simp_all add: machine_invI)
  next
    case more
    let ?pp = "pp\<lparr>currentline := currentline pp + 1\<rparr>"
    have "currentline pp + 1 \<le> h" using more by (rule inc_le)
    then have "lines_ok ?pp"
      using lines node(1) it_walk_chain [of "currInterval pp" "lineIntervals pp"]
      by (auto simp: lines_ok_def interval_of_def)
    then have "proc_ok (ms s) ?pp" using ok run by (simp add: proc_ok_def pages_ok_def)
    then have "machine_inv rinv (s\<lparr>procs := (procs s)(p \<mapsto> ?pp)\<rparr>)"
      using assms(1,3) by (intro machine_inv_proc) simp_all
    moreover have "h \<noteq> currentline pp" using more by simp
    then have "advance env p s = Inr (s\<lparr>procs := (procs s)(p \<mapsto> ?pp)\<rparr>, Some p)"
      using assms(3) more node(1) by (simp add: advance_def defs upd_proc_def)
    moreover have "work_left pp = Suc (work_left ?pp)"
      using more node(5) by (intro work_left_next_line) simp
    then have "advanced p s (s\<lparr>procs := (procs s)(p \<mapsto> ?pp)\<rparr>)"
      using assms(3) run by (auto simp: advanced_def intro: only_movesI)
    moreover have "lands pp (tracefile s) (pq s RUNNABLE) p (s\<lparr>procs := (procs s)(p \<mapsto> ?pp)\<rparr>) (Some p)"
      using more node(5) by (simp add: lands_def)
    ultimately show thesis
      by (intro that [of "s\<lparr>procs := (procs s)(p \<mapsto> ?pp)\<rparr>" "Some p"]) simp_all
  next
    case finished
    then have "lastline pp \<le> currentline pp" using node(3) by simp
    with assms(1-3) obtain s' where "Simulator_safelySwitchStatus env p FINISHED 0 s = Inr s'" "machine_inv rinv s'"
      "procs s' = (procs s)(p := None)" "pq s' = (pq s)(RUNNABLE := q, FINISHED := pq s FINISHED @ [p])"
      "only_moves p s s'" "stats s' = stats s" "log s' = log s"
      "\<forall>ws. pageTable pp = Val ws \<longrightarrow> (\<forall>w. vheap (ms s') w = (if w \<in> set ws then None else vheap (ms s) w))"
      "length (memory (ms s')) = length (memory (ms s))"
      using assms(4-6) by (rule finish_ok)
    moreover from this(1) have "advance env p s = Inr (s', None)"
      using assms(3) finished node(1) by (simp add: advance_def defs)
    moreover have "work_left pp = 1"
      using work_left_last [of pp] finished node(4,5) by simp
    ultimately show thesis using assms(3) by (intro that [of s' None]) (simp_all add: advanced_def lands_def)
  qed
qed

end

section \<open>The disk\<close>

text \<open>A page that was not in memory still is not, unless it is the one that was loaded.\<close>

lemma stays_out:
  assumes "mem_inv m" "mem_inv m'" "page_id m' = page_id m"
    and "\<forall>i w. frames m' i = Some w \<longrightarrow> w = v \<or> frames m i = Some w"
    and "vheap m w = Some wp" "\<not> inMemory wp" "w \<noteq> v"
  shows "\<exists>wp'. vheap m' w = Some wp' \<and> \<not> inMemory wp'"
proof -
  have "page_id m' w = page_id m w" using assms(3) by simp
  with assms(5) obtain wp' where wp': "vheap m' w = Some wp'" by (auto simp: page_id_def)
  moreover have "\<not> inMemory wp'"
  proof
    assume "inMemory wp'"
    then obtain i where "frames m' i = Some w"
      using mem_links_page [OF mem_inv_links [OF assms(2)] wp'] by blast
    then have "frames m i = Some w" using assms(4,7) by blast
    then show False using mem_links_frame [OF mem_inv_links [OF assms(1)]] assms(5,6) by fastforce
  qed
  ultimately show ?thesis by blast
qed

lemma proc_ok_page_in:
  assumes "proc_ok m cp" "mem_inv m" "mem_inv m'" "page_id m' = page_id m"
    and "\<forall>i w. frames m' i = Some w \<longrightarrow> w = v \<or> frames m i = Some w"
    and "page_key m v = Some (i, n)" "pid cp \<noteq> i"
  shows "proc_ok m' cp"
proof -
  note key = page_key_id [OF assms(4)]
  have pages: "pages_ok m' cp" using assms(1) key by (simp add: proc_ok_def pages_ok_def)
  have "blocked_ok m' cp" if blk: "blocked_ok m cp"
  proof -
    obtain w ws wp where w: "0 < waitTime cp" "waitingOnPage cp = Some w" "pageTable cp = Val ws" "w \<in> set ws"
      "vheap m w = Some wp" "\<not> inMemory wp"
      using blk unfolding blocked_ok_def by blast
    have "\<exists>k. page_key m w = Some (pid cp, k)"
      using assms(1) w(3,4) by (auto simp: proc_ok_def pages_ok_def)
    with assms(6,7) have "w \<noteq> v" by auto
    then obtain wp' where "vheap m' w = Some wp'" "\<not> inMemory wp'"
      using stays_out [OF assms(2-5) w(5,6)] by blast
    with w show ?thesis unfolding blocked_ok_def by blast
  qed
  with pages assms(1) show ?thesis by (simp add: proc_ok_def)
qed

lemma safelySwitch_resume:
  assumes "pq s BLOCKED = b # B" "procs s b = Some bp" "status bp = BLOCKED" "waitTime bp = 0"
    and "b \<notin> set (pq s RUNNABLE)" "\<forall>c \<in> set (pq s RUNNABLE). \<exists>cp. procs s c = Some cp \<and> pid cp \<noteq> pid bp"
  shows "Simulator_safelySwitchStatus env b RUNNABLE fp s = Inr (s\<lparr>
    pq := (pq s)(BLOCKED := B, RUNNABLE := place (procs s) b (currentPos bp) (pq s RUNNABLE)),
    procs := (procs s)(b \<mapsto> bp\<lparr>status := RUNNABLE\<rparr>), tracefile := fseek (tracefile s) (currentPos bp)\<rparr>)"
proof -
  have "Process_switchStatus env BLOCKED RUNNABLE s = Inr (Some b, s\<lparr>
    pq := (pq s)(BLOCKED := B, RUNNABLE := place (procs s) b (currentPos bp) (pq s RUNNABLE)),
    procs := (procs s)(b \<mapsto> bp\<lparr>status := RUNNABLE\<rparr>)\<rparr>)"
    using switch_to_runnable [of s BLOCKED b B bp "pq s RUNNABLE" env] assms by simp
  with assms(1-4) show ?thesis
    by (simp add: Simulator_safelySwitchStatus_def Process_peek_def Simulator_seekSavedLine_def)
qed

context replacement_module
begin

lemma disk_done_ok:
  assumes "machine_inv rinv s" "pq s BLOCKED = b # B" "procs s b = Some bp" "linked env = ops"
  obtains s' where "disk_done env (s\<lparr>procs := (procs s)(b \<mapsto> bp\<lparr>waitTime := 0\<rparr>)\<rparr>) = Inr s'" "machine_inv rinv s'"
    "resumed b s s'" "stats s' = stats s" "page_in ops (waitingOnPage bp) (ms s) (rep s) = Inr (ms s', rep s')"
proof -
  note core = machine_inv_core [OF assms(1)]
  note sched = core_sched [OF core]
  note dist = sched_ok_distinct [OF sched]
  have ok: "proc_ok (ms s) bp" using core_proc [OF core assms(3)] .
  have notin: "b \<notin> set (pq s RUNNABLE)" using dist assms(2) by auto
  then have st: "status bp = BLOCKED" using sched_ok_status [OF sched assms(3)] by simp
  then obtain v ws vp where v: "waitingOnPage bp = Some v" "pageTable bp = Val ws" "v \<in> set ws"
    "vheap (ms s) v = Some vp" "\<not> inMemory vp"
    using ok unfolding proc_ok_def blocked_ok_def by blast
  then obtain k where key: "page_key (ms s) v = Some (pid bp, k)" and nz: "pid bp \<noteq> 0"
    using ok by (auto simp: proc_ok_def pages_ok_def)
  then have man: "managed (ms s) v = Some vp" using v(4) by (auto simp: managed_Some page_key_Some)
  obtain m r p where pin: "page_in ops (Some v) (ms s) (rep s) = Inr (m, r)" "mem_inv m" "rinv m r"
    "frames m (unat (p :: ul64)) = Some v" "page_id m = page_id (ms s)" "vnext m = vnext (ms s)"
    "zeroed m = zeroed (ms s)" "\<forall>i w. frames m i = Some w \<longrightarrow> w = v \<or> frames (ms s) i = Some w"
    "length (memory m) = length (memory (ms s))"
    using core_mem [OF core] core_rinv [OF core] man v(5) by (rule page_in_ok)
  let ?bz = "bp\<lparr>waitTime := 0\<rparr>"
  let ?bn = "bp\<lparr>waitTime := 0, waitingOnPage := None\<rparr>"
  let ?br = "bp\<lparr>waitTime := 0, waitingOnPage := None, status := RUNNABLE\<rparr>"
  let ?loaded = "s\<lparr>procs := (procs s)(b \<mapsto> ?bn), ms := m, rep := r\<rparr>"
  let ?R = "place ((procs s)(b \<mapsto> ?bn)) b (currentPos bp) (pq s RUNNABLE)"
  let ?s = "?loaded\<lparr>pq := (pq s)(BLOCKED := B, RUNNABLE := ?R), procs := (procs s)(b \<mapsto> ?br),
    tracefile := fseek (tracefile s) (currentPos bp)\<rparr>"
  have others: "\<forall>c \<in> set (pq s RUNNABLE). \<exists>cp. procs ?loaded c = Some cp \<and> pid cp \<noteq> pid ?bn"
    using sched_ok_other [OF sched assms(3)] notin by auto
  have finish: "Simulator_finishCurrentDiskIO env (s\<lparr>procs := (procs s)(b \<mapsto> ?bz)\<rparr>) = Inr ?loaded"
    using assms(2,4) st v(1) pin(1)
    by (simp add: Simulator_finishCurrentDiskIO_def Process_peek_def upd_proc_def)
  have "Simulator_safelySwitchStatus env b RUNNABLE 0 ?loaded = Inr ?s"
    using safelySwitch_resume [of ?loaded b B ?bn env 0] assms(2) st notin others by simp
  with finish have "disk_done env (s\<lparr>procs := (procs s)(b \<mapsto> ?bz)\<rparr>) = Inr ?s"
    using assms(2) by (simp add: disk_done_def Process_peek_def)
  moreover have "core_inv rinv ?s"
  proof (rule core_invI)
    show "sched_ok (procs ?s) (pq ?s RUNNABLE) (pq ?s BLOCKED)"
      using sched_ok_upd [OF sched assms(3), of ?br ?R B] dist assms(2) by auto
    fix c cp assume c: "procs ?s c = Some cp"
    show "proc_ok (ms ?s) cp"
    proof (cases "c = b")
      case True
      have "pages_ok m bp" using ok page_key_id [OF pin(5)] by (simp add: proc_ok_def pages_ok_def)
      with True c ok show ?thesis by (auto simp: proc_ok_def lines_ok_def pages_ok_def)
    next
      case False
      with c have cp: "procs s c = Some cp" by simp
      then have "pid cp \<noteq> pid bp" using sched_ok_pid [OF sched _ assms(3)] False by blast
      with core_proc [OF core cp] core_mem [OF core] pin(2,5,8) key have "proc_ok m cp"
        by (rule proc_ok_page_in)
      then show ?thesis by simp
    qed
  next
    have "owned_ok (ms s) (procs ?s)"
      using owned_ok_upd [OF core_owned [OF core] assms(3), of ?br] by simp
    then have "owned_ok m (procs ?s)"
      using pin(8) by (rule owned_ok_load [where p = b and pp = ?br]) (use v(2,3) in simp_all)
    then show "owned_ok (ms ?s) (procs ?s)" by simp
  qed (use pin core_zeroed [OF core] in simp_all)
  moreover have "run_sorted ?s"
  proof -
    have "saved_pos (procs ?loaded) = saved_pos (procs s)" "saved_pos (procs ?s) = saved_pos (procs s)"
      using assms(3) by (intro ext; simp add: saved_pos_def)+
    then show ?thesis
      using machine_inv_sorted [OF assms(1)] place_sorted [of "procs ?loaded" "pq s RUNNABLE" b "currentPos bp"] assms(3)
      by (simp add: run_sorted_def saved_pos_def del: saved_pos_upd)
  qed
  moreover have "resumed b s ?s"
  proof -
    have "only_moves b s ?s"
      using page_key_id [OF pin(5)] by (intro only_movesI) auto
    moreover have "?R = place (procs s) b (currentPos bp) (pq s RUNNABLE)" using notin by (rule place_cong)
    moreover obtain x where "vheap m v = Some x" "inMemory x"
      using mem_links_frame [OF mem_inv_links [OF pin(2)] pin(4)] by blast
    ultimately show ?thesis using assms(2,3) v(1) page_key_id [OF pin(5)] by (simp add: resumed_def)
  qed
  moreover have "page_in ops (waitingOnPage bp) (ms s) (rep s) = Inr (ms ?s, rep ?s)" using pin(1) v(1) by simp
  ultimately show thesis by (intro that [of ?s]) (simp_all add: machine_invI)
qed

end

text \<open>The jump over the ticks in which every process waits.\<close>

lemma skip_wait_ok:
  assumes "machine_inv rinv (mach \<sigma>)" "pq (mach \<sigma>) BLOCKED = b # B" "procs (mach \<sigma>) b = Some bp"
  obtains \<sigma>' where "skip_wait \<sigma> = Inr \<sigma>'" "machine_inv rinv (mach \<sigma>')"
    "\<sigma>' = \<sigma>\<lparr>mach := tick (waitTime bp - 1) (mach \<sigma>)\<lparr>procs := (procs (mach \<sigma>))(b \<mapsto> bp\<lparr>waitTime := 1\<rparr>)\<rparr>,
      time := time \<sigma> + (waitTime bp - 1)\<rparr>"
proof -
  let ?s = "mach \<sigma>"
  note core = machine_inv_core [OF assms(1)]
  note sched = core_sched [OF core]
  have notin: "b \<notin> set (pq ?s RUNNABLE)" using sched_ok_distinct [OF sched] assms(2) by auto
  then have st: "status bp = BLOCKED" using sched_ok_status [OF sched assms(3)] by simp
  have ok: "proc_ok (ms ?s) bp" using core_proc [OF core assms(3)] .
  then have "blocked_ok (ms ?s) bp" using st by (simp add: proc_ok_def)
  then have "waitTime bp \<noteq> 0" by (auto simp: blocked_ok_def)
  let ?skip = "waitTime bp - 1" and ?bp = "bp\<lparr>waitTime := 1\<rparr>"
  have "skip_wait \<sigma> = Inr (\<sigma>\<lparr>mach := tick ?skip ?s\<lparr>procs := (procs ?s)(b \<mapsto> ?bp)\<rparr>, time := time \<sigma> + ?skip\<rparr>)"
    using assms(2,3) \<open>waitTime bp \<noteq> 0\<close>
    by (simp add: skip_wait_def Process_peek_def upd_proc_def tick_def CLOCK_TICK_def Let_def)
  moreover have "proc_ok (ms ?s) ?bp"
    using ok \<open>blocked_ok (ms ?s) bp\<close> by (auto simp: proc_ok_def lines_ok_def pages_ok_def blocked_ok_def)
  then have "machine_inv rinv (?s\<lparr>procs := (procs ?s)(b \<mapsto> ?bp)\<rparr>)"
    using assms(1,3) by (intro machine_inv_proc) simp_all
  then have "machine_inv rinv (tick ?skip ?s\<lparr>procs := (procs ?s)(b \<mapsto> ?bp)\<rparr>)"
    by (simp add: tick_def machine_inv_def core_inv_def run_sorted_def)
  ultimately show thesis using that by simp
qed

section \<open>A turn of the loop\<close>

text \<open>
  What the theorems assume of the surroundings: the linked module, an allocator under which
  writing to freed memory goes unnoticed, and a \<open>tdestroy\<close> that visits every entry once.
\<close>

definition env_ok :: "'r replace_ops \<Rightarrow> 'r env \<Rightarrow> bool" where
  "env_ok ops env \<longleftrightarrow> linked env = ops \<and> freed_writable env
     \<and> (\<forall>ws. mset (destroy_order env ws) = mset ws)"

definition read_error :: fault where
  "read_error = ExitFailure ''Error reading from trace file.''"

context replacement_module
begin

lemma run_line_ok:
  assumes "machine_inv rinv s" "pq s RUNNABLE = p # q" "env_ok ops env"
  shows "run_line env p s = Inl read_error \<and> unreadable (tracefile s)
    \<or> (\<exists>s' c. run_line env p s = Inr (s', c) \<and> machine_inv rinv s' \<and> reads_line p s s' c \<and> serves ops rinv p s s'
    \<and> (progressed p s s' \<or> missed p s s' \<and> \<not> ready_line p s))"
proof -
  note core = machine_inv_core [OF assms(1)]
  have env: "linked env = ops" "freed_writable env" "\<And>ws. mset (destroy_order env ws) = mset ws"
    using assms(3) by (simp_all add: env_ok_def)
  obtain pp where pp: "procs s p = Some pp" "status pp = RUNNABLE"
    using core_sched [OF core] by (rule sched_ok_runnable [where p = p]) (use assms(2) in simp)
  have node: "interval_of pp \<noteq> NULLI"
    using core_proc [OF core pp(1)] lines_ok_interval by (simp add: proc_ok_def)
  obtain line f where read: "fscanf True (tracefile s) = (line, f)" by (cases "fscanf True (tracefile s)")
  note start = run_line_def pp(1) node read
  show ?thesis
  proof (cases line)
    case (LPair lpid n)
    let ?s = "s\<lparr>tracefile := f, log := log s @
      (if lpid \<noteq> pid pp then [''ERROR: Wrong line in tracefile recieved.''] else [])\<rparr>"
    have core1: "core_inv rinv ?s" using core by simp
    have pp1: "procs ?s p = Some pp" using pp(1) by simp
    obtain v s2 ws where find: "find_page env p n ?s = Inr (v, s2)" "core_inv rinv s2"
      "s2 = ?s\<lparr>ms := ms s2, rep := rep s2, procs := (procs ?s)(p \<mapsto> pp\<lparr>pageTable := Val ws\<rparr>)\<rparr>"
      "lookup_page (ms s2) n ws = Some v" "page_key (ms s2) v = Some (pid pp, n)" "grows (ms ?s) (ms s2)"
      "\<forall>us w. pageTable pp = Val us \<longrightarrow> lookup_page (ms ?s) n us = Some w \<longrightarrow> v = w" "renews ops (rep ?s) (rep s2)"
      "table_adds (ms s2) pp v ws" "leaks 1 (set ws) (ms ?s) (ms s2)"
      using core1 pp1 env(1) by (rule find_page_ok)
    let ?pp = "pp\<lparr>pageTable := Val ws\<rparr>"
    have at: "procs s2 p = Some ?pp" "pq s2 = pq s" by (subst find(3); simp)+
    have "run_sorted (s\<lparr>procs := (procs s)(p \<mapsto> ?pp)\<rparr>)"
      using machine_inv_sorted [OF assms(1)] pp(1) by (rule run_sorted_proc) simp
    then have sorted2: "run_sorted s2" by (subst find(3)) (simp add: run_sorted_def)
    obtain vp where vp: "vheap (ms s2) v = Some vp" "vp_pid vp = pid pp" "vpn vp = n"
      using find(5) by (auto simp: page_key_Some)
    obtain m where mem: "Process_virtualPageInMemory env p n s2 = Inr (inMemory vp, s2\<lparr>ms := m, rep := rep s2\<rparr>)"
      "core_inv rinv (s2\<lparr>ms := m, rep := rep s2\<rparr>)" "grows (ms s2) m" "leaks 1 {} (ms s2) m"
      using find(2) at(1) _ env(1) find(4) vp(1) by (rule virtualPageInMemory_ok) simp
    let ?s3 = "s2\<lparr>ms := m, rep := rep s2\<rparr>"
    have vp3: "vheap (ms ?s3) v = Some vp" using grows_heap [OF mem(3) vp(1)] by simp
    have inv3: "machine_inv rinv ?s3" using mem(2) sorted2 by (simp add: machine_inv_def run_sorted_def)
    have at3: "pq ?s3 RUNNABLE = p # q" "procs ?s3 p = Some ?pp" using at assms(2) by simp_all
    have nz: "vp_pid vp \<noteq> 0"
      using core_proc [OF core pp(1)] vp(2) by (simp add: proc_ok_def pages_ok_def)
    have fcont: "contents f = contents (tracefile s)" using read by (rule fscanf_contents)
    have "leaks (1 + 1) (set ws) (ms ?s) m" using find(10) mem(4) by (rule leaks_trans) simp_all
    then have leak: "leaks 2 (set ws) (ms s) m" by (simp add: numeral_2_eq_2)
    have grown: "grows (ms s) (ms ?s3)" using grows_trans [OF find(6) mem(3)] by simp
    have same: "procs ?s3 c = procs s c" if "c \<noteq> p" for c using that by (subst find(3)) simp
    have file3: "contents (tracefile ?s3) = contents (tracefile s)" using fcont by (subst find(3)) simp
    have file2: "tracefile s2 = f" and logged: "log s2 = log s @
      (if lpid \<noteq> pid pp then [''ERROR: Wrong line in tracefile recieved.''] else [])"
      by (subst find(3); simp)+
    have renew: "renews ops (rep s) (rep s2)" using find(8) by simp
    have pok3: "pages_ok m ?pp" using core_proc [OF mem(2), of p ?pp] at(1) by (simp add: proc_ok_def)
    have found: "v \<in> set ws" "page_key m v = Some (pid pp, n)"
      using lookup_page_Some [OF find(4)] grows_key [OF mem(3) find(5)] by blast+
    have adds: "table_adds m pp v ws" using find(9) mem(3) by (rule table_adds_grows)
    have moves: "only_moves p s ?s3"
      using file3 same grows_key [OF grown] by (intro only_movesI) auto
    show ?thesis
    proof (cases "inMemory vp")
      case True
      obtain r where hit: "hit_page env v ?s3 = Inr (?s3\<lparr>rep := r, stats := Stat_hit (stats ?s3)\<rparr>)"
        "core_inv rinv (?s3\<lparr>rep := r, stats := Stat_hit (stats ?s3)\<rparr>)"
        "\<exists>ov. overhead vp = Val ov \<and> Replace_notifyPageAccess ops ov (ms ?s3) (rep ?s3) = Inr r"
        using mem(2) env(1) vp3 True nz by (rule hit_page_ok)
      let ?s4 = "?s3\<lparr>rep := r, stats := Stat_hit (stats ?s3)\<rparr>"
      have "machine_inv rinv ?s4"
        using hit(2) sorted2 by (simp add: machine_inv_def run_sorted_def)
      then obtain s' c where adv: "advance env p ?s4 = Inr (s', c)" "machine_inv rinv s'" "advanced p ?s4 s'"
        "stats s' = stats ?s4" "log s' = log ?s4" "lands ?pp (tracefile ?s4) (pq ?s4 RUNNABLE) p s' c"
        "\<forall>pp'. procs s' p = Some pp' \<longrightarrow> pageTable pp' = pageTable ?pp \<and> ms s' = ms ?s4 \<and> rep s' = rep ?s4"
        "\<forall>ws w. pageTable ?pp = Val ws \<longrightarrow> w \<notin> set ws \<longrightarrow> vheap (ms s') w = vheap (ms ?s4) w"
        "length (memory (ms s')) = length (memory (ms ?s4))"
        "\<forall>ws. procs s' p = None \<longrightarrow> pageTable ?pp = Val ws \<longrightarrow> (\<forall>w \<in> set ws. vheap (ms s') w = None)"
        by (rule advance_ok [where p = p and q = q and pp = ?pp]) (use at3 env in simp_all)
      have "only_moves p s ?s4" using moves by (simp add: only_moves_def)
      then have "advanced p s s'"
        using pp(1) _ _ _ _ adv(3)
        by (rule advanced_through [where ?pp1.0 = ?pp]) (use at in simp_all)
      moreover have "stats s2 = stats s" by (subst find(3)) simp
      ultimately have "progressed p s s'" using adv(4) by (simp add: progressed_def)
      moreover have "lands pp f (pq s RUNNABLE) p s' c"
        using adv(6) at(2) file2 by simp
      then have "reads_line p s s' c"
        using pp(1) read LPair adv(5) logged unfolding reads_line_def by auto
      moreover have "serves ops rinv p s s'"
        unfolding serves_def page_served_def
        using pp(1) read LPair core_mem [OF mem(2)] core_rinv [OF mem(2)] grown leak renew pok3 found vp3 adds True hit(3) adv(3,7-10) at
        by (intro exI [of _ pp] exI [of _ lpid] exI [of _ n] exI [of _ f] exI [of _ m] exI [of _ "rep s2"] exI [of _ v]
            exI [of _ vp] exI [of _ ws]) (auto simp: advanced_def)
      moreover have "run_line env p s = advance env p ?s4"
        using LPair find(1) mem(1) True hit(1) by (simp add: start)
      ultimately show ?thesis using adv(1,2) by auto
    next
      case False
      have "v \<in> set ws" using lookup_page_Some [OF find(4)] by blast
      let ?pb = "?pp\<lparr>waitTime := DISK_PENALTY, waitingOnPage := Some v, currentPos := ftell (tracefile s), status := BLOCKED\<rparr>"
      obtain s' where miss: "miss_page env p v (ftell (tracefile s)) ?s3 = Inr s'" "machine_inv rinv s'"
        "s' = ?s3\<lparr>stats := Stat_miss (stats ?s3), pq := (pq ?s3)(RUNNABLE := q, BLOCKED := pq ?s3 BLOCKED @ [p]),
          procs := (procs ?s3)(p \<mapsto> ?pb)\<rparr>"
        using inv3 at3 _ \<open>v \<in> set ws\<close> vp3 False by (rule miss_page_ok) simp
      have "missed p s s'"
      proof -
        have "only_moves p s s'" using moves unfolding miss(3) by (simp add: only_moves_def)
        moreover have "page_key (ms s') v = Some (pid pp, n)"
          using vp3 vp(2,3) unfolding miss(3) by (simp add: page_key_def)
        moreover have "fseek (tracefile s') (ftell (tracefile s)) = tracefile s"
          using file3 unfolding miss(3) by (intro fseek_ftell) simp
        moreover have "procs s' p = Some ?pb" "pq s' = (pq s)(RUNNABLE := q, BLOCKED := pq s BLOCKED @ [p])"
          using at(2) unfolding miss(3) by simp_all
        moreover have "stats s' = Stat_miss (stats s)" unfolding miss(3) by (simp, subst find(3), simp)
        ultimately show ?thesis
          using assms(2) pp(1) read LPair by (simp add: missed_def line_waits_def)
      qed
      moreover have "\<not> ready_line p s"
      proof
        assume "ready_line p s"
        then obtain us w wp where us: "pageTable pp = Val us" "w \<in> set us" "vheap (ms s) w = Some wp"
          "vp_pid wp = pid pp" "vpn wp = n" "inMemory wp"
          using pp(1) read LPair by (auto simp: ready_line_def)
        have pok: "pages_ok (ms s) pp" using core_proc [OF core pp(1)] by (simp add: proc_ok_def)
        then have "lookup_page (ms s) n us = Some w"
          using us by (auto simp: pages_ok_def page_key_Some intro!: lookup_page_unique [where i = "pid pp"])
        then have "v = w" using find(7) us(1) by simp
        with grows_heap [OF grown us(3)] vp3 False us(6) show False by simp
      qed
      moreover have "stalls pp (ftell (tracefile s)) p s' (Some p)"
        using sched_ok_distinct [OF core_sched [OF core]] assms(2) unfolding miss(3) by (simp add: stalls_def)
      then have "reads_line p s s' (Some p)"
        using pp(1) read LPair logged unfolding reads_line_def miss(3) by auto
      moreover have "serves ops rinv p s s'"
        unfolding serves_def page_served_def
        using pp(1) read LPair core_mem [OF mem(2)] core_rinv [OF mem(2)] grown leak renew pok3 found vp3 adds False at
        by (intro exI [of _ pp] exI [of _ lpid] exI [of _ n] exI [of _ f] exI [of _ m] exI [of _ "rep s2"] exI [of _ v]
            exI [of _ vp] exI [of _ ws]) (simp add: miss(3))
      moreover note miss(1,2)
      moreover from miss(1) have "run_line env p s = Inr (s', Some p)"
        using LPair find(1) mem(1) False by (simp add: start)
      ultimately show ?thesis by auto
    qed
  qed (simp_all add: start read_error_def unreadable_def)
qed

lemma run_head_ok:
  assumes "machine_inv rinv (mach \<sigma>)" "pq (mach \<sigma>) RUNNABLE = p # q" "env_ok ops env"
  shows "run_head env \<sigma> = Inl read_error \<and> unreadable (tracefile (sought (cur \<sigma>) p (mach \<sigma>)))
    \<or> (\<exists>\<sigma>'. run_head env \<sigma> = Inr \<sigma>' \<and> machine_inv rinv (mach \<sigma>')
    \<and> reads_line p (sought (cur \<sigma>) p (mach \<sigma>)) (mach \<sigma>') (cur \<sigma>') \<and> serves ops rinv p (sought (cur \<sigma>) p (mach \<sigma>)) (mach \<sigma>')
    \<and> time \<sigma>' = time \<sigma> \<and> (progressed p (mach \<sigma>) (mach \<sigma>') \<or> missed p (mach \<sigma>) (mach \<sigma>') \<and> \<not> ready_head p (mach \<sigma>)))"
proof -
  let ?s = "mach \<sigma>"
  obtain pp where pp: "procs ?s p = Some pp" "status pp = RUNNABLE"
    using core_sched [OF machine_inv_core [OF assms(1)]]
    by (rule sched_ok_runnable [where p = p]) (use assms(2) in simp)
  let ?s1 = "if cur \<sigma> \<noteq> Some p \<and> currentPos pp \<noteq> ftell (tracefile ?s)
    then ?s\<lparr>tracefile := fseek (tracefile ?s) (currentPos pp)\<rparr> else ?s"
  have inv: "machine_inv rinv ?s1" and q: "pq ?s1 RUNNABLE = p # q" using assms(1,2) by simp_all
  have "run_head env \<sigma> = bnd (run_line env p ?s1) (\<lambda>(s2, c). Inr (\<sigma>\<lparr>mach := s2, cur := c\<rparr>))"
    using assms(2) pp by (auto simp: run_head_def Process_peek_def Simulator_seekSavedLine_def)
  moreover have "only_moves p ?s ?s1" by (simp add: only_moves_def)
  then have "progressed p ?s1 s' \<Longrightarrow> progressed p ?s s'" "missed p ?s1 s' \<Longrightarrow> missed p ?s s'" for s'
    using pp(1) advanced_through [of p ?s ?s1 pp pp s'] missed_through [of p ?s ?s1 pp pp s']
    by (simp_all add: progressed_def)
  moreover have "ready_head p ?s \<Longrightarrow> ready_line p ?s1"
    using pp(1) by (auto simp: ready_head_def)
  moreover have "?s1 = sought (cur \<sigma>) p ?s" using pp(1) by (auto simp: sought_def fseek_ftell)
  ultimately show ?thesis using run_line_ok [OF inv q assms(3)] by (elim disjE exE conjE) auto
qed

theorem sim_step_ok:
  assumes "machine_inv rinv (mach \<sigma>)" "Simulator_notDone (mach \<sigma>)" "env_ok ops env"
  shows "sim_step env \<sigma> = Inl read_error \<and> \<not> head_due (mach \<sigma>)
      \<and> (\<exists>p q. pq (mach \<sigma>) RUNNABLE = p # q \<and> unreadable (tracefile (sought (cur \<sigma>) p (ticked (mach \<sigma>)))))
    \<or> (\<exists>\<sigma>'. sim_step env \<sigma> = Inr \<sigma>' \<and> machine_inv rinv (mach \<sigma>') \<and> turn \<sigma> \<sigma>' \<and> serves_turn ops rinv \<sigma> \<sigma>')"
proof -
  let ?s = "tick CLOCK_TICK (mach \<sigma>)"
  have inv: "machine_inv rinv ?s" and same: "pq ?s = pq (mach \<sigma>)" "procs ?s = procs (mach \<sigma>)" "ms ?s = ms (mach \<sigma>)"
    "tracefile ?s = tracefile (mach \<sigma>)"
    using assms(1) by (simp_all add: tick_def)
  have env: "linked env = ops" using assms(3) by (simp add: env_ok_def)
  let ?t = "time \<sigma> + CLOCK_TICK"
  show ?thesis
  proof (cases "pq ?s BLOCKED")
    case Nil
    with assms(2) obtain p q where p: "pq ?s RUNNABLE = p # q"
      by (auto simp: Simulator_notDone_def Process_existsWithStatus_def same neq_Nil_conv)
    have "\<not> head_due (mach \<sigma>)" "ticked (mach \<sigma>) = ?s" using Nil by (simp_all add: head_due_def ticked_def same)
    moreover have "sim_step env \<sigma> = run_head env (\<sigma>\<lparr>time := ?t, mach := ?s\<rparr>)"
      using Nil p by (simp add: sim_step_def Process_peek_def Process_existsWithStatus_def)
    ultimately show ?thesis
      using run_head_ok [of "\<sigma>\<lparr>time := ?t, mach := ?s\<rparr>" p q env] inv p p [unfolded same] assms(3)
      by (auto simp: turn_def serves_turn_def CLOCK_TICK_def)
  next
    case (Cons b B)
    note sched = core_sched [OF machine_inv_core [OF inv]]
    obtain bp where bp: "procs ?s b = Some bp" "status bp = BLOCKED"
      using sched by (rule sched_ok_blocked [where p = b]) (use Cons in simp)
    let ?bp = "bp\<lparr>waitTime := waitTime bp - CLOCK_TICK\<rparr>"
    let ?dec = "?s\<lparr>procs := (procs ?s)(b \<mapsto> ?bp)\<rparr>"
    have queue: "pq (mach \<sigma>) BLOCKED = b # B" "procs (mach \<sigma>) b = Some bp" using Cons bp(1) by (simp_all add: same)
    have due: "head_due (mach \<sigma>) \<longleftrightarrow> waitTime ?bp = 0"
      using queue by (simp add: head_due_def CLOCK_TICK_def)
    have ticked: "ticked (mach \<sigma>) = ?dec" using queue by (simp add: ticked_def same)
    show ?thesis
    proof (cases "waitTime ?bp = 0")
      case True
      then have bz: "?bp = bp\<lparr>waitTime := 0\<rparr>" by simp
      obtain s' where done_io: "disk_done env ?dec = Inr s'" "machine_inv rinv s'" "resumed b ?s s'"
        "stats s' = stats ?s" "page_in ops (waitingOnPage bp) (ms ?s) (rep ?s) = Inr (ms s', rep s')"
        unfolding bz using inv Cons bp(1) env by (rule disk_done_ok)
      have "resumed b (mach \<sigma>) s'"
        using done_io(3) by (simp add: resumed_def only_moves_def same) (simp add: tick_def)
      moreover have "sim_step env \<sigma> = Inr (\<sigma>\<lparr>mach := s', time := ?t\<rparr>)"
        using Cons bp(1) True done_io(1) by (simp add: sim_step_def Process_peek_def upd_proc_def)
      moreover have "delivers ops b (mach \<sigma>) s'"
        using done_io(5) queue(2) by (simp add: delivers_def same) (simp add: tick_def)
      ultimately show ?thesis
        using done_io(2) queue(1) due True by (simp add: turn_def serves_turn_def CLOCK_TICK_def)
    next
      case False
      have ok: "proc_ok (ms ?s) bp" using core_proc [OF machine_inv_core [OF inv] bp(1)] .
      have "0 < waitTime ?bp" using False by (simp add: word_gt_0)
      then have "proc_ok (ms ?s) ?bp"
        using ok bp(2) by (auto simp: proc_ok_def lines_ok_def pages_ok_def blocked_ok_def)
      then have dec: "machine_inv rinv ?dec"
        using inv bp(1) by (intro machine_inv_proc) simp_all
      show ?thesis
      proof (cases "pq ?s RUNNABLE")
        case Nil
        let ?\<sigma> = "\<sigma>\<lparr>time := ?t, mach := ?dec\<rparr>"
        have step: "sim_step env \<sigma> = skip_wait ?\<sigma>"
          using Cons bp(1) False Nil
          by (simp add: sim_step_def Process_peek_def upd_proc_def Process_existsWithStatus_def Let_def)
        have "machine_inv rinv (mach ?\<sigma>)" "pq (mach ?\<sigma>) BLOCKED = b # B" "procs (mach ?\<sigma>) b = Some ?bp"
          using dec Cons by simp_all
        then obtain \<sigma>' where skip: "skip_wait ?\<sigma> = Inr \<sigma>'" "machine_inv rinv (mach \<sigma>')"
          "\<sigma>' = ?\<sigma>\<lparr>mach := tick (waitTime ?bp - 1) (mach ?\<sigma>)\<lparr>procs := (procs (mach ?\<sigma>))(b \<mapsto> ?bp\<lparr>waitTime := 1\<rparr>)\<rparr>,
            time := time ?\<sigma> + (waitTime ?bp - 1)\<rparr>"
          by (rule skip_wait_ok)
        have "idled \<sigma> \<sigma>'"
          using queue unfolding skip(3) by (simp add: idled_def only_moves_def tick_def CLOCK_TICK_def)
        moreover have "rep (mach \<sigma>') = rep (mach \<sigma>)" unfolding skip(3) by (simp add: tick_def)
        ultimately show ?thesis using step skip(1,2) due False Nil by (simp add: turn_def serves_turn_def same)
      next
        case run: (Cons p q)
        have "sim_step env \<sigma> = run_head env (\<sigma>\<lparr>time := ?t, mach := ?dec\<rparr>)"
          using Cons bp(1) False run
          by (simp add: sim_step_def Process_peek_def upd_proc_def Process_existsWithStatus_def Let_def)
        then show ?thesis
          using run_head_ok [of "\<sigma>\<lparr>time := ?t, mach := ?dec\<rparr>" p q env] dec run run [unfolded same] assms(3) due False ticked
          by (auto simp: turn_def serves_turn_def CLOCK_TICK_def)
      qed
    qed
  qed
qed

text \<open>Along every run.\<close>

lemma steps_inv:
  "steps env \<sigma> \<sigma>' \<Longrightarrow> env_ok ops env \<Longrightarrow> machine_inv rinv (mach \<sigma>) \<Longrightarrow> machine_inv rinv (mach \<sigma>')"
proof (induction rule: steps.induct)
  case (steps_step \<sigma> \<sigma>1 \<sigma>2)
  then have "machine_inv rinv (mach \<sigma>1)" using sim_step_ok [of \<sigma> env] by auto
  with steps_step show ?case by blast
qed

text \<open>
  The only way not to get to the end: a turn is reached in which the disk is not due and the file, where it
  stands or where the process at the head has just moved it, does not go on with two numbers.
\<close>

definition good_end :: "'r env \<Rightarrow> 'r sim \<Rightarrow> 'r sim res \<Rightarrow> bool" where
  "good_end env \<sigma> out \<longleftrightarrow> out = Inl read_error \<and> stuck env \<sigma> \<or> (\<exists>\<sigma>'. out = Inr \<sigma>' \<and> steps env \<sigma> \<sigma>'
     \<and> \<not> Simulator_notDone (mach \<sigma>') \<and> machine_inv rinv (mach \<sigma>'))"

lemma loop_result:
  assumes "sim_loop env \<sigma> = Some out" "env_ok ops env" "machine_inv rinv (mach \<sigma>)"
  shows "good_end env \<sigma> out"
proof -
  let ?P = "\<lambda>env \<sigma> out. env_ok ops env \<longrightarrow> machine_inv rinv (mach \<sigma>) \<longrightarrow> good_end env \<sigma> out"
  have "?P env \<sigma> out"
  proof (rule sim_loop.raw_induct [rotated, where P = ?P, OF assms(1)], intro impI)
    fix f :: "'r env \<Rightarrow> 'r sim \<Rightarrow> 'r sim res option" and env :: "'r env" and \<sigma> :: "'r sim" and out
    assume IH: "\<And>env \<sigma> y. f env \<sigma> = Some y \<Longrightarrow> ?P env \<sigma> y"
      and body: "(if Simulator_notDone (mach \<sigma>)
        then case sim_step env \<sigma> of Inl e \<Rightarrow> Some (Inl e) | Inr \<sigma>' \<Rightarrow> f env \<sigma>' else Some (Inr \<sigma>)) = Some out"
      and env: "env_ok ops env" and inv: "machine_inv rinv (mach \<sigma>)"
    show "good_end env \<sigma> out"
    proof (cases "Simulator_notDone (mach \<sigma>)")
      case True
      from sim_step_ok [OF inv True env] show ?thesis
      proof (elim disjE exE conjE)
        fix p q assume stop: "sim_step env \<sigma> = Inl read_error" "\<not> head_due (mach \<sigma>)" "pq (mach \<sigma>) RUNNABLE = p # q"
          "unreadable (tracefile (sought (cur \<sigma>) p (ticked (mach \<sigma>))))"
        from stop(2-4) have "stuck env \<sigma>" unfolding stuck_def by (blast intro: steps_refl)
        with body True stop(1) show ?thesis by (simp add: good_end_def)
      next
        fix \<sigma>1 assume s: "sim_step env \<sigma> = Inr \<sigma>1" "machine_inv rinv (mach \<sigma>1)"
        with body True have "f env \<sigma>1 = Some out" by simp
        with IH env s(2) have "good_end env \<sigma>1 out" by blast
        with True s(1) stuck_step [of \<sigma> env \<sigma>1] show ?thesis unfolding good_end_def by (blast intro: steps_step)
      qed
    next
      case False
      with body inv show ?thesis by (auto simp: good_end_def intro: steps_refl)
    qed
  qed
  with assms(2,3) show ?thesis by blast
qed

end

end
