(* ===== verification/ParserInv.thy ===== *)
theory ParserInv
  imports TraceParser SimulatorInv
begin

text \<open>
  The first pass establishes the invariant of the machine: the lines of the file decide whether it
  reports an error, and which (\<open>trace_check\<close>), or leaves processes the simulator can run.
\<close>

section \<open>The pid map\<close>

lemma pidmap_compare_0 [simp]: "pidmap_compare l r = 0 \<longleftrightarrow> l = r"
  by (auto simp: pidmap_compare_def not_less dest!: order.antisym intro: signed_word_eqI)

lemma pidmap_find_Some: "pidmap_find k m = Some a \<Longrightarrow> (k, a) \<in> set m"
  by (induction k m rule: pidmap_find.induct) (auto split: if_splits)

lemma pidmap_find_None: "pidmap_find k m = None \<longleftrightarrow> k \<notin> fst ` set m"
  by (induction k m rule: pidmap_find.induct) auto

section \<open>What the pass has collected\<close>

text \<open>A process whose intervals end before line \<open>L\<close> and whose first line is not behind \<open>F\<close>.\<close>

definition parsed :: "ul64 \<Rightarrow> fpos \<Rightarrow> Process \<Rightarrow> bool" where
  "parsed L F pp \<longleftrightarrow> status pp = RUNNABLE \<and> pid pp \<noteq> 0 \<and> pageTable pp = Val [] \<and> currInterval pp = 0
     \<and> lines_ok pp \<and> currentPos pp \<le> F \<and> lastline pp < L
     \<and> (\<forall>c \<in> set (it_chain (lineIntervals pp)). fst c < L)"

definition collected :: "'r machine \<Rightarrow> pidmap \<Rightarrow> ul64 \<Rightarrow> fpos \<Rightarrow> bool" where
  "collected s m L F \<longleftrightarrow>
     pq s BLOCKED = [] \<and> distinct (pq s RUNNABLE) \<and> dom (procs s) = set (pq s RUNNABLE)
     \<and> (\<forall>a \<ge> pnext s. procs s a = None)
     \<and> distinct (map fst m) \<and> (\<forall>k a. (k, a) \<in> set m \<longrightarrow> (\<exists>pp. procs s a = Some pp \<and> make_PidMap (pid pp) = k))
     \<and> (\<forall>a pp. procs s a = Some pp \<longrightarrow> parsed L F pp \<and> (make_PidMap (pid pp), a) \<in> set m)
     \<and> run_sorted s \<and> length (pq s RUNNABLE) < unat L
     \<and> Suc (machine_work s) = unat L"

lemma collectedD:
  assumes "collected s m L F"
  shows "pq s BLOCKED = []" "distinct (pq s RUNNABLE)" "dom (procs s) = set (pq s RUNNABLE)"
    and collected_fresh: "\<And>a. pnext s \<le> a \<Longrightarrow> procs s a = None"
    and "distinct (map fst m)" and collected_map: "\<And>k a. (k, a) \<in> set m \<Longrightarrow> \<exists>pp. procs s a = Some pp \<and> make_PidMap (pid pp) = k"
    and collected_proc: "\<And>a pp. procs s a = Some pp \<Longrightarrow> parsed L F pp"
    and collected_key: "\<And>a pp. procs s a = Some pp \<Longrightarrow> (make_PidMap (pid pp), a) \<in> set m"
    and "run_sorted s" and collected_count: "length (pq s RUNNABLE) < unat L"
    and collected_work: "Suc (machine_work s) = unat L"
  using assms unfolding collected_def by blast+

lemma collectedI:
  assumes "pq s BLOCKED = []" "distinct (pq s RUNNABLE)" "dom (procs s) = set (pq s RUNNABLE)"
    and "\<And>a. pnext s \<le> a \<Longrightarrow> procs s a = None" "distinct (map fst m)"
    and "\<And>k a. (k, a) \<in> set m \<Longrightarrow> \<exists>pp. procs s a = Some pp \<and> make_PidMap (pid pp) = k"
    and "\<And>a pp. procs s a = Some pp \<Longrightarrow> parsed L F pp"
    and "\<And>a pp. procs s a = Some pp \<Longrightarrow> (make_PidMap (pid pp), a) \<in> set m" "run_sorted s"
    and "length (pq s RUNNABLE) < unat L" "Suc (machine_work s) = unat L"
  shows "collected s m L F"
  using assms unfolding collected_def by blast

lemma parsed_mono: "parsed L F pp \<Longrightarrow> L \<le> L' \<Longrightarrow> F \<le> F' \<Longrightarrow> parsed L' F' pp"
  by (auto simp: parsed_def)

lemma collected_cong:
  assumes "collected s m L F" "pq s' = pq s" "procs s' = procs s" "pnext s' = pnext s"
  shows "collected s' m L F"
proof -
  have "machine_work s' = machine_work s" "run_sorted s' = run_sorted s"
    using assms(2,3) by (simp_all add: machine_work_def run_sorted_def)
  with assms show ?thesis by (simp add: collected_def)
qed

text \<open>Appending an interval to a chain.\<close>

lemma parsed_append:
  assumes "parsed L F pp" "L \<le> l0" "l0 \<le> l1" "l1 < L'" "F \<le> F'"
    and node: "node = INode l0 l1 l1 (Val fp) NULLI NULLI"
    and "pp' = pp\<lparr>lastline := l1, lineIntervals := it_insert_recursive (lineIntervals pp) node\<rparr>"
  shows "parsed L' F' pp'" "work_left pp' = work_left pp + Suc (unat l1 - unat l0)"
    "it_chain (lineIntervals pp') = it_chain (lineIntervals pp) @ [(l0, l1, Val fp)]"
proof -
  let ?c = "it_chain (lineIntervals pp)"
  have low: "\<forall>c \<in> set ?c. fst c \<le> low node" and below: "\<forall>c \<in> set ?c. fst c < L"
    using assms(1,2) node by (auto simp: parsed_def intro: less_imp_le order.strict_trans2)
  show chain: "it_chain (lineIntervals pp') = ?c @ [(l0, l1, Val fp)]"
    using it_chain_insert [of node "lineIntervals pp"] low node assms(7) by simp
  have "L < L'" using assms(2-4) by order
  moreover have "\<forall>c \<in> set ?c. fst c < L'" using below \<open>L < L'\<close> by force
  moreover have "l0 < L'" using assms(3,4) by order
  ultimately show "parsed L' F' pp'"
    using chain assms(1,3-5,7) by (auto simp: parsed_def lines_ok_def nth_append)
  have first: "currInterval pp = 0" using assms(1) by (simp add: parsed_def)
  obtain c cs where "?c = c # cs" using assms(1) by (cases ?c) (auto simp: parsed_def lines_ok_def)
  with first show "work_left pp' = work_left pp + Suc (unat l1 - unat l0)"
    using chain assms(7) by (simp add: work_left_def later_lines_def)
qed

lemma collected_update:
  assumes "collected s m L F" "procs s a = Some pp" "parsed L' F' pp'" "pid pp' = pid pp"
    and "currentPos pp' = currentPos pp" "L \<le> L'" "F \<le> F'"
    and "work_left pp' + unat L = work_left pp + unat L'"
  shows "collected (s\<lparr>procs := (procs s)(a \<mapsto> pp')\<rparr>) m L' F'"
proof (rule collectedI)
  note c = collectedD [OF assms(1)]
  let ?s = "s\<lparr>procs := (procs s)(a \<mapsto> pp')\<rparr>"
  have "a \<in> dom (procs s)" using assms(2) by blast
  then show "dom (procs ?s) = set (pq ?s RUNNABLE)" using c(3) by auto
  show "run_sorted ?s" using c(9) assms(2,5) by (rule run_sorted_proc)
  show "length (pq ?s RUNNABLE) < unat L'"
    using collected_count [OF assms(1)] assms(6) by (simp add: word_le_nat_alt)
  have "only_moves a s ?s" by (simp add: only_moves_def)
  moreover have "finite (dom (procs s))" using c(3) by simp
  ultimately have "machine_work s + work_left pp' = machine_work ?s + work_left pp"
    using assms(2) by (rule only_moves_stays) simp
  then show "Suc (machine_work ?s) = unat L'" using collected_work [OF assms(1)] assms(8) by simp
  fix b bb
  show "procs ?s b = None" if "pnext ?s \<le> b"
    using that collected_fresh [OF assms(1), of b] assms(2) by (cases "b = a") simp_all
  show "\<exists>bb. procs ?s b = Some bb \<and> make_PidMap (pid bb) = k" if "(k, b) \<in> set m" for k
    using assms(2,4) collected_map [OF assms(1) that] by auto
  assume bb: "procs ?s b = Some bb"
  show "parsed L' F' bb"
    using bb assms(3) parsed_mono [OF collected_proc [OF assms(1)] assms(6,7), of b bb] by (cases "b = a") simp_all
  show "(make_PidMap (pid bb), b) \<in> set m"
    using bb assms(2,4) collected_key [OF assms(1), of b] by (cases "b = a") auto
qed (use collectedD [OF assms(1)] in simp_all)

lemma collected_new:
  assumes "collected s m L F" "parsed L' F' pp" "make_PidMap (pid pp) \<notin> fst ` set m"
    and "currentPos pp = F" "L < L'" "F \<le> F'" "a = pnext s"
    and "work_left pp + unat L = unat L'"
  shows "collected (s\<lparr>procs := (procs s)(a \<mapsto> pp), pnext := Suc a, pq := (pq s)(RUNNABLE := pq s RUNNABLE @ [a])\<rparr>)
    (m @ [(make_PidMap (pid pp), a)]) L' F'"
    (is "collected ?s ?m L' F'")
proof -
  note c = collectedD [OF assms(1)]
  have fresh: "procs s a = None" using collected_fresh [OF assms(1)] assms(7) by simp
  then have notin: "a \<notin> set (pq s RUNNABLE)" using c(3) by (metis domIff)
  have "saved_pos (procs s) b \<le> F" if "b \<in> set (pq s RUNNABLE)" for b
  proof -
    have "b \<in> dom (procs s)" using that c(3) by simp
    then obtain bb where "procs s b = Some bb" by blast
    with collected_proc [OF assms(1) this] show ?thesis by (simp add: saved_pos_def parsed_def)
  qed
  moreover have "map (saved_pos (procs ?s)) (pq s RUNNABLE) = map (saved_pos (procs s)) (pq s RUNNABLE)"
    using notin by auto
  ultimately have "run_sorted ?s"
    using c(9) assms(4) by (simp add: run_sorted_def sorted_append del: map_eq_conv)
  show ?thesis
  proof (rule collectedI)
    show "dom (procs ?s) = set (pq ?s RUNNABLE)" using c(3) by auto
    show "distinct (map fst ?m)" using c(5) assms(3) by auto
    show "length (pq ?s RUNNABLE) < unat L'"
      using collected_count [OF assms(1)] assms(5) by (simp add: word_less_nat_alt)
    have "machine_work ?s = machine_work s + work_left pp"
      using notin c(3) by (simp add: machine_work_def) (auto intro!: sum.cong)
    then show "Suc (machine_work ?s) = unat L'" using collected_work [OF assms(1)] assms(8) by simp
    fix b bb
    show "procs ?s b = None" if "pnext ?s \<le> b"
      using that collected_fresh [OF assms(1), of b] assms(7) by auto
    show "\<exists>bb. procs ?s b = Some bb \<and> make_PidMap (pid bb) = k" if "(k, b) \<in> set ?m" for k
      using that fresh collected_map [OF assms(1), of k b] assms(7) by auto
    assume bb: "procs ?s b = Some bb"
    show "parsed L' F' bb"
      using bb assms(2) parsed_mono [OF collected_proc [OF assms(1)] less_imp_le [OF assms(5)] assms(6), of b bb] by (cases "b = a") simp_all
    show "(make_PidMap (pid bb), b) \<in> set ?m"
      using bb collected_key [OF assms(1), of b] by (cases "b = a") auto
  qed (use c(1,2) notin \<open>run_sorted ?s\<close> in simp_all)
qed

section \<open>Closing a run of lines\<close>

text \<open>The run becomes the last interval of the process of its pid, or the only one of a new process.\<close>

definition closed_run :: "'r parse \<Rightarrow> 'r parse \<Rightarrow> bool" where
  "closed_run P P' \<longleftrightarrow> (let s = pmach P; s' = pmach P';
       c = (start_line_number P, curr_line_number P - 1, Val (start_fpos P)) in
     log s' = log s \<and> (\<exists>a pp'. procs s' = (procs s)(a \<mapsto> pp')
       \<and> (case procs s a of
           Some pp \<Rightarrow> make_PidMap (pid pp) = make_PidMap (last_pid P) \<and> pid pp' = pid pp
             \<and> it_chain (lineIntervals pp') = it_chain (lineIntervals pp) @ [c]
             \<and> currInterval pp' = currInterval pp \<and> currentline pp' = currentline pp
             \<and> currentPos pp' = currentPos pp \<and> pq s' = pq s
         | None \<Rightarrow> pid pp' = last_pid P \<and> it_chain (lineIntervals pp') = [c] \<and> currInterval pp' = 0
             \<and> currentline pp' = start_line_number P \<and> currentPos pp' = start_fpos P
             \<and> pq s' RUNNABLE = pq s RUNNABLE @ [a]
             \<and> (\<forall>b bb. procs s b = Some bb \<longrightarrow> make_PidMap (pid bb) \<noteq> make_PidMap (last_pid P)))))"

lemma close_run_ok:
  assumes "collected (pmach P) (search_tree P) (start_line_number P) (start_fpos P)"
    and "zeroed (ms (pmach P))" "last_pid P \<noteq> 0" "start_line_number P < curr_line_number P" "start_fpos P \<le> cf"
  obtains P' where "close_run env cf P = Inr P'"
    "collected (pmach P') (search_tree P') (start_line_number P') (start_fpos P')"
    "start_line_number P' = curr_line_number P" "curr_line_number P' = curr_line_number P"
    "start_fpos P' = cf" "last_pid P' = last_pid P"
    "ms (pmach P') = ms (pmach P)" "rep (pmach P') = rep (pmach P)" "tracefile (pmach P') = tracefile (pmach P)"
    "closed_run P P'"
proof -
  let ?s = "pmach P" and ?L = "start_line_number P" and ?L' = "curr_line_number P"
  let ?l1 = "?L' - 1"
  let ?node = "INode ?L ?l1 ?l1 (Val (start_fpos P)) NULLI NULLI"
  let ?key = "make_PidMap (last_pid P)"
  note col = assms(1)
  have node: "it_setFpos (it_initnode ?L ?l1) (start_fpos P) = Inr ?node"
    by (simp add: it_initnode_def)
  have pos: "0 < ?L'" using assms(4) by (rule le_less_trans [rotated]) simp
  have l1: "?L \<le> ?l1" "?l1 < ?L'"
    using assms(4) pos unat_minus_one_pos [OF pos] by (auto simp: word_le_nat_alt word_less_nat_alt)
  have lines: "Suc (unat ?l1 - unat ?L) + unat ?L = unat ?L'"
    using unat_minus_one_pos [OF pos] l1 pos by (simp add: word_le_nat_alt word_less_nat_alt)
  show thesis
  proof (cases "pidmap_find ?key (search_tree P)")
    case (Some a)
    then obtain pp where pp: "procs ?s a = Some pp" and key: "make_PidMap (pid pp) = ?key"
      using collected_map [OF col] pidmap_find_Some by blast
    have par: "parsed ?L (start_fpos P) pp" using collected_proc [OF col pp] .
    then have "lastline pp < ?l1" using l1(1) by (auto simp: parsed_def)
    let ?pp = "pp\<lparr>lastline := ?l1, lineIntervals := it_insert_recursive (lineIntervals pp) ?node\<rparr>"
    have "lineIntervals pp \<noteq> NULLI" using par by (auto simp: parsed_def lines_ok_def)
    let ?P = "P\<lparr>pmach := ?s\<lparr>procs := (procs ?s)(a \<mapsto> ?pp)\<rparr>, start_fpos := cf, start_line_number := ?L'\<rparr>"
    have "close_run env cf P = Inr ?P"
      using Some pp node \<open>lastline pp < ?l1\<close> \<open>lineIntervals pp \<noteq> NULLI\<close>
      by (simp add: close_run_def Let_def it_insert_def del: it_setFpos.simps)
    moreover have "collected (?s\<lparr>procs := (procs ?s)(a \<mapsto> ?pp)\<rparr>) (search_tree P) ?L' cf"
      using parsed_append [OF par order.refl l1 assms(5) refl refl] assms(4,5) lines
      by (intro collected_update [OF col pp]) simp_all
    moreover have "it_chain (lineIntervals ?pp) = it_chain (lineIntervals pp) @ [(?L, ?l1, Val (start_fpos P))]"
      using parsed_append(3) [OF par order.refl l1 assms(5) refl refl] by simp
    then have "closed_run P ?P"
      using pp key unfolding closed_run_def Let_def by (intro conjI exI [of _ a] exI [of _ ?pp]) simp_all
    ultimately show thesis by (intro that [of ?P]) simp_all
  next
    case None
    let ?a = "pnext ?s"
    let ?pp = "\<lparr>pid = last_pid P, status = RUNNABLE, firstline = ?L, currentline = ?L, lastline = ?l1,
       currentPos = start_fpos P, currInterval = 0, lineIntervals = ?node, waitTime = 0,
       waitingOnPage = None, pageTable = Val []\<rparr>"
    let ?s' = "?s\<lparr>procs := (procs ?s)(?a \<mapsto> ?pp), pnext := Suc ?a,
       pq := (pq ?s)(RUNNABLE := pq ?s RUNNABLE @ [?a])\<rparr>"
    have "pq ?s RUNNABLE \<noteq> [] \<Longrightarrow> procs ?s (last (pq ?s RUNNABLE)) \<noteq> None"
      using collectedD(3) [OF col] last_in_set by blast
    then have "stailq_insert_tail (freed_writable env) (procs ?s) ?a (pq ?s RUNNABLE) = Inr (pq ?s RUNNABLE @ [?a])"
      by (auto simp: stailq_insert_tail_def)
    then have "Process_init env (last_pid P) ?L ?l1 ?node ?s = Inr (?a, ?s')"
      using assms(2) by (simp add: Process_init_def PageTable_init_def Let_def)
    let ?P = "P\<lparr>pmach := ?s', search_tree := search_tree P @ [(?key, ?a)], start_fpos := cf,
        start_line_number := ?L'\<rparr>"
    have "close_run env cf P = Inr ?P"
      using None node \<open>Process_init _ _ _ _ _ _ = _\<close> by (simp add: close_run_def Let_def del: it_setFpos.simps)
    moreover have "parsed ?L' cf ?pp"
      using l1 assms(3-5) by (simp add: parsed_def lines_ok_def)
    then have "collected ?s' (search_tree P @ [(make_PidMap (pid ?pp), ?a)]) ?L' cf"
      using assms(4,5) None lines
      by (intro collected_new [OF col]) (simp_all add: pidmap_find_None work_left_def later_lines_def)
    moreover have fresh: "procs ?s ?a = None" using collected_fresh [OF col] by simp
    moreover have "\<forall>b bb. procs ?s b = Some bb \<longrightarrow> make_PidMap (pid bb) \<noteq> ?key"
      using collected_key [OF col] None by (force simp: pidmap_find_None)
    with fresh have "closed_run P ?P"
      unfolding closed_run_def Let_def by (intro conjI exI [of _ ?a] exI [of _ ?pp]) simp_all
    ultimately show thesis by (intro that [of ?P]) simp_all
  qed
qed

section \<open>The loop\<close>

lemma fscanf_offset:
  assumes "fscanf False f = (line, f')" "offset f \<le> length (contents f)"
  shows "contents f' = contents f" "offset f \<le> offset f'" "offset f' \<le> length (contents f)"
    "0 < fscanf_result line \<Longrightarrow> offset f < offset f'"
proof -
  obtain rest where rest: "scan_pair False (drop (offset f) (contents f)) = (line, rest)"
    "f' = f\<lparr>offset := offset f + (length (drop (offset f) (contents f)) - length rest)\<rparr>"
    using assms(1) by (auto simp: fscanf_def Let_def split: prod.splits)
  then show "contents f' = contents f" "offset f \<le> offset f'" "offset f' \<le> length (contents f)"
    using assms(2) by auto
  show "offset f < offset f'" if "0 < fscanf_result line"
    using scan_pair_shorter [OF rest(1) that] rest(2) assms(2) by simp
qed

definition pass_inv :: "'r parse \<Rightarrow> bool" where
  "pass_inv P \<longleftrightarrow> (let f = tracefile (pmach P) in
     collected (pmach P) (search_tree P) (start_line_number P) (start_fpos P)
     \<and> zeroed (ms (pmach P)) \<and> start_fpos P \<le> offset f
     \<and> start_line_number P \<le> curr_line_number P
     \<and> (last_pid P \<noteq> 0 \<longrightarrow> start_line_number P < curr_line_number P)
     \<and> unat (curr_line_number P) \<le> Suc (offset f)
     \<and> offset f \<le> length (contents f) \<and> length (contents f) < 2 ^ 64 - 2)"

definition pass_end :: "'r machine \<Rightarrow> 'r parse \<Rightarrow> bool" where
  "pass_end s P \<longleftrightarrow> (\<exists>L F. collected (pmach P) (search_tree P) L F \<and> unat L \<le> Suc (length (contents (tracefile s))))
     \<and> ms (pmach P) = ms s \<and> rep (pmach P) = rep s
     \<and> contents (tracefile (pmach P)) = contents (tracefile s)"

definition line_result :: "'r env \<Rightarrow> 'r parse \<Rightarrow> FILE \<Rightarrow> ul64 \<Rightarrow> bool" where
  "line_result env P f p \<longleftrightarrow>
     (if p = 0 then first_pass_turn env P = Inl (ExitFailure ''ERROR: Invalid trace file format'')
      else \<exists>P'. first_pass_turn env P = Inr (True, P') \<and> pass_inv P' \<and> pass_end (pmach P) P'
        \<and> last_pid P' = p \<and> curr_line_number P' = curr_line_number P + 1 \<and> tracefile (pmach P') = f)"

text \<open>A turn, by what was read.\<close>

definition turn_result :: "'r env \<Rightarrow> 'r parse \<Rightarrow> line_read \<Rightarrow> FILE \<Rightarrow> bool" where
  "turn_result env P line f \<longleftrightarrow> (case line of
     LNone \<Rightarrow> first_pass_turn env P = Inl Indeterminate
   | LEof \<Rightarrow> (\<exists>P'. first_pass_turn env P = Inr (False, P') \<and> pass_end (pmach P) P'
       \<and> (\<exists>F. collected (pmach P') (search_tree P')
              (if last_pid P \<noteq> 0 then curr_line_number P else start_line_number P) F))
   | LOne p \<Rightarrow> line_result env P f p
   | LPair p v \<Rightarrow> line_result env P f p)"

lemma first_pass_turn_result:
  assumes "pass_inv P" "fscanf False (tracefile (pmach P)) = (line, f)"
  shows "turn_result env P line f"
proof -
  let ?f = "tracefile (pmach P)"
  note read = assms(2)
  have inv: "collected (pmach P) (search_tree P) (start_line_number P) (start_fpos P)"
    "zeroed (ms (pmach P))" "start_fpos P \<le> offset ?f" "start_line_number P \<le> curr_line_number P"
    "last_pid P \<noteq> 0 \<longrightarrow> start_line_number P < curr_line_number P"
    "unat (curr_line_number P) \<le> Suc (offset ?f)" "offset ?f \<le> length (contents ?f)"
    "length (contents ?f) < 2 ^ 64 - 2"
    using assms(1) unfolding pass_inv_def Let_def by blast+
  note off = fscanf_offset [OF read inv(7)]
  let ?P = "P\<lparr>pmach := (pmach P)\<lparr>tracefile := f\<rparr>\<rparr>"
  have col: "collected (pmach ?P) (search_tree ?P) (start_line_number ?P) (start_fpos ?P)"
    using collected_cong [OF inv(1), of "(pmach P)\<lparr>tracefile := f\<rparr>"] by simp
  let ?close = "\<lambda>b. if b then close_run env (ftell ?f) ?P else Inr ?P"
  have closed: "\<exists>P1. ?close b = Inr P1 \<and> collected (pmach P1) (search_tree P1) (start_line_number P1) (start_fpos P1)
      \<and> start_line_number P1 \<le> curr_line_number P \<and> curr_line_number P1 = curr_line_number P
      \<and> start_fpos P1 \<le> offset ?f \<and> ms (pmach P1) = ms (pmach P) \<and> rep (pmach P1) = rep (pmach P)
      \<and> tracefile (pmach P1) = f \<and> start_line_number P1 = (if b then curr_line_number P else start_line_number P)" if "b \<longrightarrow> last_pid P \<noteq> 0" for b
  proof (cases b)
    case True
    have "zeroed (ms (pmach ?P))" "last_pid ?P \<noteq> 0" "start_line_number ?P < curr_line_number ?P"
      "start_fpos ?P \<le> ftell ?f"
      using inv(2,3,5) True that by (simp_all add: ftell_def)
    with col obtain P1 where "close_run env (ftell ?f) ?P = Inr P1"
      "collected (pmach P1) (search_tree P1) (start_line_number P1) (start_fpos P1)"
      "start_line_number P1 = curr_line_number ?P" "curr_line_number P1 = curr_line_number ?P"
      "start_fpos P1 = ftell ?f" "last_pid P1 = last_pid ?P"
      "ms (pmach P1) = ms (pmach ?P)" "rep (pmach P1) = rep (pmach ?P)" "tracefile (pmach P1) = tracefile (pmach ?P)"
      "closed_run ?P P1"
      by (rule close_run_ok)
    with True show ?thesis by (intro exI [of _ P1]) (simp add: ftell_def)
  next
    case False
    with col inv(3,4) show ?thesis by simp
  qed
  have pend: "pass_end (pmach P) P2" if "collected (pmach P2) (search_tree P2) L F" "L \<le> curr_line_number P"
    "ms (pmach P2) = ms (pmach P)" "rep (pmach P2) = rep (pmach P)" "tracefile (pmach P2) = f" for P2 L F
  proof -
    have "unat L \<le> Suc (length (contents ?f))" using that(2) inv(6,7) by (simp add: word_le_nat_alt)
    with that(1) have "\<exists>L F. collected (pmach P2) (search_tree P2) L F \<and> unat L \<le> Suc (length (contents ?f))" by blast
    with that(3-5) off(1) show ?thesis by (simp add: pass_end_def)
  qed
  have turn: "first_pass_turn env P = first_pass_body env (ftell ?f) line ?P"
    using read by (simp add: first_pass_turn_def)
  have next_line: "line_result env P f p" if line: "line = LOne p \<or> line = LPair p v" for p v
  proof (cases "p = 0")
    case True
    with line show ?thesis by (auto simp: line_result_def turn first_pass_body_def)
  next
    case False
    obtain P1 where P1: "?close (last_pid P \<noteq> 0 \<and> p \<noteq> last_pid P) = Inr P1"
      "collected (pmach P1) (search_tree P1) (start_line_number P1) (start_fpos P1)"
      "start_line_number P1 \<le> curr_line_number P" "curr_line_number P1 = curr_line_number P"
      "start_fpos P1 \<le> offset ?f" "ms (pmach P1) = ms (pmach P)" "rep (pmach P1) = rep (pmach P)"
      "tracefile (pmach P1) = f"
      using closed [of "last_pid P \<noteq> 0 \<and> p \<noteq> last_pid P"] by blast
    let ?P' = "P1\<lparr>last_pid := p, curr_line_number := curr_line_number P1 + 1\<rparr>"
    have run: "first_pass_turn env P = Inr (True, ?P')"
      unfolding turn using line False P1(1) by (auto simp: first_pass_body_def)
    have pos: "0 < fscanf_result line" using line by auto
    have small: "unat (curr_line_number P) < 2 ^ 64 - 1" using inv(6-8) by linarith
    then have "unat (curr_line_number P + 1) = Suc (unat (curr_line_number P))"
      by (simp add: unat_word_ariths)
    with off pos inv(6-8) P1(2-8)
    have "pass_inv ?P'"
      by (auto simp: pass_inv_def inv(2) word_le_nat_alt word_less_nat_alt)
    moreover have "pass_end (pmach P) ?P'" using P1(2,3,6-8) by (intro pend) simp_all
    ultimately show ?thesis using run False P1(4,8) by (simp add: line_result_def)
  qed
  show ?thesis
  proof (cases line)
    case LEof
    obtain P1 where P1: "?close (last_pid P \<noteq> 0) = Inr P1"
      "collected (pmach P1) (search_tree P1) (start_line_number P1) (start_fpos P1)"
      "start_line_number P1 \<le> curr_line_number P"
      "ms (pmach P1) = ms (pmach P)" "rep (pmach P1) = rep (pmach P)" "tracefile (pmach P1) = f"
      "start_line_number P1 = (if last_pid P \<noteq> 0 then curr_line_number P else start_line_number P)"
      using closed [of "last_pid P \<noteq> 0"] by blast
    let ?P' = "P1\<lparr>last_pid := last_pid P1, curr_line_number := curr_line_number P1 + 1\<rparr>"
    have "first_pass_turn env P = Inr (False, P1\<lparr>last_pid := last_pid P1, curr_line_number := curr_line_number P1 + 1\<rparr>)"
      unfolding turn using LEof P1(1) by (auto simp: first_pass_body_def)
    moreover have "pass_end (pmach P) ?P'" using P1(2-6) by (intro pend) simp_all
    moreover have "collected (pmach ?P') (search_tree ?P')
        (if last_pid P \<noteq> 0 then curr_line_number P else start_line_number P) (start_fpos P1)"
      using P1(2) unfolding P1(7) [symmetric] by simp
    ultimately show ?thesis using LEof unfolding turn_result_def by (auto simp del: split_paired_Ex)
  next
    case LNone
    then show ?thesis by (simp add: turn_result_def turn first_pass_body_def)
  next
    case (LOne p)
    then show ?thesis using next_line [of p 0] by (simp add: turn_result_def)
  next
    case (LPair p v)
    then show ?thesis using next_line [of p v] by (simp add: turn_result_def)
  qed
qed

lemma pass_end_trans: "pass_end s P \<Longrightarrow> pass_end (pmach P) P' \<Longrightarrow> pass_end s P'"
  by (simp add: pass_end_def)

subsection \<open>The lines of a file\<close>

text \<open>
  What the text of a file is for the first pass: the pids of its lines, or the error of the first line that
  does not begin with a number (its pid is read although nothing was assigned) or that has pid 0. A
  line with a pid and no page number passes.
\<close>

fun line_pid :: "line_read \<Rightarrow> ul64" where
  "line_pid (LOne p) = p"
| "line_pid (LPair p v) = p"
| "line_pid line = 0"

lemma read_something: "line \<noteq> LEof \<Longrightarrow> line \<noteq> LNone \<Longrightarrow> 0 < fscanf_result line"
  by (cases line) simp_all

function trace_check :: "string \<Rightarrow> ul64 list res" where
  "trace_check cs =
     (let (line, rest) = scan_pair False cs in
      if line = LEof then Inr []
      else if line = LNone then Inl Indeterminate
      else if line_pid line = 0 then Inl (ExitFailure ''ERROR: Invalid trace file format'')
      else bnd (trace_check rest) (\<lambda>ps. Inr (line_pid line # ps)))"
  by pat_completeness auto
termination
  by (relation "measure length") (auto intro: scan_pair_shorter [OF sym] read_something)

declare trace_check.simps [simp del]

lemma trace_check_read:
  assumes "fscanf False f = (line, f')"
  shows "trace_check (drop (offset f) (contents f)) =
     (if line = LEof then Inr []
      else if line = LNone then Inl Indeterminate
      else if line_pid line = 0 then Inl (ExitFailure ''ERROR: Invalid trace file format'')
      else bnd (trace_check (drop (offset f') (contents f'))) (\<lambda>ps. Inr (line_pid line # ps)))"
proof -
  let ?cs = "drop (offset f) (contents f)"
  obtain rest where rest: "scan_pair False ?cs = (line, rest)"
    "f' = f\<lparr>offset := offset f + (length ?cs - length rest)\<rparr>"
    using assms by (auto simp: fscanf_def Let_def split: prod.splits)
  obtain pre where "?cs = pre @ rest" using scan_pair_suffix [OF rest(1)] by blast
  then have "rest = drop (length ?cs - length rest) ?cs" by simp
  then have "drop (offset f') (contents f') = rest" using rest(2) by (simp add: add.commute)
  with rest(1) show ?thesis by (simp add: trace_check.simps [of ?cs])
qed

lemma trace_check_length: "trace_check cs = Inr ps \<Longrightarrow> length ps \<le> length cs"
proof (induction cs arbitrary: ps rule: trace_check.induct)
  case (1 cs)
  obtain line rest where read: "scan_pair False cs = (line, rest)" by fastforce
  show ?case
  proof (cases "line = LEof")
    case False
    with "1.prems" read obtain qs where qs: "trace_check rest = Inr qs" "ps = line_pid line # qs"
      "line \<noteq> LNone" "line_pid line \<noteq> 0"
      by (auto simp: trace_check.simps [of cs] bnd_eq_Inr split: if_splits)
    have "length qs \<le> length rest" using "1.IH" [OF read [symmetric] refl False qs(3,4)] qs(1) by simp
    moreover have "length rest < length cs" using read read_something [OF False qs(3)] by (rule scan_pair_shorter)
    ultimately show ?thesis using qs(2) by simp
  qed (use "1.prems" read in \<open>simp add: trace_check.simps [of cs]\<close>)
qed

lemma trace_check_trace:
  assumes "i \<le> length ls" "\<forall>l \<in> set ls. fst l \<noteq> 0"
  shows "trace_check (drop (gap_pos ls i) (trace_text ls)) = Inr (map fst (drop i ls))"
  using assms(1)
proof (induction "length ls - i" arbitrary: i)
  case 0
  then have "i = length ls" by simp
  then show ?case
    using fscanf_end [of "\<lparr>contents = trace_text ls, offset = gap_pos ls i\<rparr>" ls]
      trace_check_read [of "\<lparr>contents = trace_text ls, offset = gap_pos ls i\<rparr>" LEof] by auto
next
  case (Suc n)
  let ?f = "\<lparr>contents = trace_text ls, offset = gap_pos ls i\<rparr>"
  from Suc have i: "i < length ls" by simp
  have "fscanf False ?f = (LPair (fst (ls ! i)) (snd (ls ! i)), ?f\<lparr>offset := gap_pos ls (Suc i)\<rparr>)"
    using i by (intro fscanf_gap(1)) simp_all
  moreover have "fst (ls ! i) \<noteq> 0" using assms(2) i by simp
  moreover have "trace_check (drop (gap_pos ls (Suc i)) (trace_text ls)) = Inr (map fst (drop (Suc i) ls))"
    using Suc by (intro Suc.hyps(1)) simp_all
  ultimately show ?case
    using trace_check_read [of ?f] i by (simp flip: Cons_nth_drop_Suc)
qed

text \<open>The loop reports the error of the text, or collects every line of it.\<close>

lemma first_pass_loop_check:
  assumes "pass_inv P" "curr_line_number P = of_nat (Suc i)" "last_pid P = 0 \<longleftrightarrow> i = 0"
    and "i = 0 \<longrightarrow> start_line_number P = 1"
  shows "case trace_check (drop (offset (tracefile (pmach P))) (contents (tracefile (pmach P)))) of
      Inl e \<Rightarrow> first_pass_loop env P = Inl e
    | Inr ps \<Rightarrow> \<exists>P' F. first_pass_loop env P = Inr P' \<and> pass_end (pmach P) P'
        \<and> collected (pmach P') (search_tree P') (of_nat (Suc (i + length ps))) F"
  using assms
proof (induction env P arbitrary: i rule: first_pass_loop.induct)
  case (1 env P)
  obtain line f where read: "fscanf False (tracefile (pmach P)) = (line, f)" by fastforce
  let ?text = "\<lambda>f. trace_check (drop (offset f) (contents f))"
  note check = trace_check_read [OF read]
  note turn = first_pass_turn_result [OF "1.prems"(1) read, of env]
  have step: ?case if line: "line = LOne p \<or> line = LPair p v" for p v
  proof (cases "p = 0")
    case True
    with line turn have "first_pass_turn env P = Inl (ExitFailure ''ERROR: Invalid trace file format'')"
      by (auto simp: turn_result_def line_result_def)
    with True line check show ?thesis by (auto simp: first_pass_loop.simps [of env P])
  next
    case False
    with line turn obtain P1 where P1: "first_pass_turn env P = Inr (True, P1)" "pass_inv P1" "pass_end (pmach P) P1"
      "last_pid P1 = p" "curr_line_number P1 = curr_line_number P + 1" "tracefile (pmach P1) = f"
      by (auto simp: turn_result_def line_result_def)
    have loop: "first_pass_loop env P = first_pass_loop env P1"
      using P1(1) by (simp add: first_pass_loop.simps [of env P])
    have IH: "case ?text f of Inl e \<Rightarrow> first_pass_loop env P1 = Inl e
      | Inr ps \<Rightarrow> \<exists>P' F. first_pass_loop env P1 = Inr P' \<and> pass_end (pmach P1) P'
        \<and> collected (pmach P') (search_tree P') (of_nat (Suc (Suc i + length ps))) F"
      using "1.IH" [OF P1(1) refl _ P1(2), of "Suc i"] P1(4-6) False "1.prems"(2) by simp
    show ?thesis
    proof (cases "?text f")
      case (Inl e)
      with IH loop check line False show ?thesis by auto
    next
      case (Inr ps)
      with IH obtain P' F where "first_pass_loop env P1 = Inr P'" "pass_end (pmach P1) P'"
        "collected (pmach P') (search_tree P') (of_nat (Suc (Suc i + length ps))) F" by auto
      moreover from this have "pass_end (pmach P) P'" using pass_end_trans [OF P1(3)] by blast
      moreover have "?text (tracefile (pmach P)) = Inr (p # ps)" using Inr check line False by auto
      ultimately show ?thesis using loop by (auto simp: algebra_simps)
    qed
  qed
  show ?case
  proof (cases line)
    case LEof
    with turn obtain P' where P': "first_pass_turn env P = Inr (False, P')"
      "pass_end (pmach P) P'" "\<exists>F. collected (pmach P') (search_tree P')
        (if last_pid P \<noteq> 0 then curr_line_number P else start_line_number P) F"
      by (auto simp: turn_result_def)
    moreover have "(if last_pid P \<noteq> 0 then curr_line_number P else start_line_number P) = of_nat (Suc i)"
      using "1.prems"(2-4) by auto
    ultimately show ?thesis using LEof check by (auto simp: first_pass_loop.simps [of env P])
  next
    case LNone
    with turn have "first_pass_turn env P = Inl Indeterminate" by (simp add: turn_result_def)
    with LNone check show ?thesis by (simp add: first_pass_loop.simps [of env P])
  qed (use step in blast)+
qed

lemma first_pass_loop_stats:
  "first_pass_loop env P = Inr P' \<Longrightarrow> stats (pmach P') = stats (pmach P)"
proof (induction env P rule: first_pass_loop.induct)
  case (1 env P)
  have close: "close_run env cf Q = Inr Q' \<Longrightarrow> stats (pmach Q') = stats (pmach Q)" for cf and Q Q' :: "'a parse"
    by (auto simp: close_run_def Process_init_def Let_def bnd_eq_Inr split: option.splits)
  obtain more P1 where t: "first_pass_turn env P = Inr (more, P1)" "(if more then first_pass_loop env P1 else Inr P1) = Inr P'"
    using "1.prems" by (subst (asm) first_pass_loop.simps) (auto simp: bnd_eq_Inr)
  then have "stats (pmach P1) = stats (pmach P)"
    by (auto simp: first_pass_turn_def first_pass_body_def Let_def bnd_eq_Inr dest!: close split: if_splits prod.splits)
  with t "1.IH" [OF t(1)] show ?case by (cases more) simp_all
qed

section \<open>The machine after the pass\<close>

lemma collected_machine_inv:
  assumes "collected s m L F" "mem_inv (ms s)" "rinv (ms s) (rep s)" "zeroed (ms s)"
    and "frames (ms s) = (\<lambda>_. None)"
  shows "machine_inv rinv s"
proof (rule machine_invI)
  note c = collectedD [OF assms(1)]
  show "run_sorted s" by (rule c(9))
  show "core_inv rinv s"
    using assms(2-4)
  proof (rule core_invI)
    have "p = q" if p: "procs s p = Some pp" and q: "procs s q = Some qq" and "pid pp = pid qq" for p q pp qq
      using collected_key [OF assms(1) p] collected_key [OF assms(1) q] that(3) c(5)
      by (metis eq_key_imp_eq_value)
    moreover have "status pp = RUNNABLE \<and> p \<in> set (pq s RUNNABLE)" if "procs s p = Some pp" for p pp
      using that collected_proc [OF assms(1) that] c(3) by (auto simp: parsed_def)
    ultimately show "sched_ok (procs s) (pq s RUNNABLE) (pq s BLOCKED)"
      using c(1-3) unfolding sched_ok_def by simp
    fix p pp assume "procs s p = Some pp"
    then show "proc_ok (ms s) pp"
      using collected_proc [OF assms(1)] by (auto simp: proc_ok_def parsed_def pages_ok_def)
  next
    show "owned_ok (ms s) (procs s)" using assms(5) by (simp add: owned_ok_def)
  qed
qed

text \<open>The machine before the pass: memory and module initialised, no process.\<close>

definition blank :: "'r machine \<Rightarrow> bool" where
  "blank s \<longleftrightarrow> procs s = (\<lambda>_. None) \<and> pq s = (\<lambda>_. []) \<and> zeroed (ms s) \<and> frames (ms s) = (\<lambda>_. None)
     \<and> offset (tracefile s) = 0
     \<and> length (contents (tracefile s)) < 2 ^ 64 - 2"

lemma pass_inv_start:
  assumes "blank s"
  shows "pass_inv \<lparr>pmach = s, last_pid = 0, start_line_number = 1, curr_line_number = 1,
    start_fpos = ftell (tracefile s), search_tree = []\<rparr>"
proof -
  have "collected s [] 1 0"
    using assms by (intro collectedI) (simp_all add: blank_def run_sorted_def machine_work_def)
  then show ?thesis using assms by (simp add: pass_inv_def ftell_def blank_def Let_def)
qed

lemma first_pass_ok:
  assumes "blank s" "mem_inv (ms s)" "rinv (ms s) (rep s)"
  shows "case trace_check (contents (tracefile s)) of
      Inl e \<Rightarrow> first_pass env s = Inl e
    | Inr ps \<Rightarrow> \<exists>s'. first_pass env s = Inr s' \<and> machine_inv rinv s' \<and> ms s' = ms s \<and> rep s' = rep s
        \<and> pq s' BLOCKED = [] \<and> contents (tracefile s') = contents (tracefile s) \<and> stats s' = stats s
        \<and> machine_work s' = length ps \<and> card (dom (procs s')) \<le> length ps
        \<and> (\<forall>p pp. procs s' p = Some pp \<longrightarrow> pageTable pp = Val [])"
proof -
  let ?P = "\<lparr>pmach = s, last_pid = 0, start_line_number = 1, curr_line_number = 1,
    start_fpos = ftell (tracefile s), search_tree = []\<rparr>"
  have "drop (offset (tracefile s)) (contents (tracefile s)) = contents (tracefile s)"
    using assms(1) by (simp add: blank_def)
  with first_pass_loop_check [where i = 0, OF pass_inv_start [OF assms(1)], of env]
  have loop: "case trace_check (contents (tracefile s)) of Inl e \<Rightarrow> first_pass_loop env ?P = Inl e
    | Inr ps \<Rightarrow> \<exists>P' F. first_pass_loop env ?P = Inr P' \<and> pass_end s P'
        \<and> collected (pmach P') (search_tree P') (of_nat (Suc (length ps))) F"
    by (simp split: sum.splits)
  show ?thesis
  proof (cases "trace_check (contents (tracefile s))")
    case (Inr ps)
    with loop obtain P' F where P': "first_pass_loop env ?P = Inr P'" "pass_end s P'"
      and col: "collected (pmach P') (search_tree P') (of_nat (Suc (length ps))) F" by auto
    have "Suc (length ps) < 2 ^ 64"
      using trace_check_length [OF Inr] assms(1) by (simp add: blank_def)
    then have L: "unat (of_nat (Suc (length ps)) :: ul64) = Suc (length ps)" by (rule unat_of_nat_64)
    have "machine_inv rinv (pmach P')"
      using assms P'(2) by (intro collected_machine_inv [OF col]) (simp_all add: blank_def pass_end_def)
    moreover have "machine_work (pmach P') = length ps" using collected_work [OF col] L by simp
    moreover have "card (dom (procs (pmach P'))) \<le> length ps"
      using collectedD(2,3) [OF col] collected_count [OF col] L by (simp add: distinct_card)
    moreover have "pageTable pp = Val []" if "procs (pmach P') p = Some pp" for p pp
      using collected_proc [OF col that] by (simp add: parsed_def)
    ultimately show ?thesis
      using Inr P' collectedD(1) [OF col] first_pass_loop_stats [OF P'(1)] by (auto simp: first_pass_def pass_end_def)
  qed (use loop in \<open>simp add: first_pass_def\<close>)
qed

lemma first_pass_trace:
  assumes "blank s" "mem_inv (ms s)" "rinv (ms s) (rep s)" "contents (tracefile s) = trace_text ls"
    and "\<forall>l \<in> set ls. fst l \<noteq> 0"
  obtains s' where "first_pass env s = Inr s'" "machine_inv rinv s'" "pq s' BLOCKED = []"
    "machine_work s' = length ls" "stats s' = stats s" "contents (tracefile s') = trace_text ls"
    "ms s' = ms s" "rep s' = rep s" "\<forall>p pp. procs s' p = Some pp \<longrightarrow> pageTable pp = Val []"
  using first_pass_ok [where rinv = rinv and env = env, OF assms(1-3)] trace_check_trace [of 0 ls] assms(4,5)
  by (auto simp: gap_pos_def)

end
