(* ===== verification/TraceGroups.thy ===== *)
theory TraceGroups
  imports TraceFile
begin

text \<open>
  The grouping of the trace, as a reference definition on lists, and the proof that the first
  pass computes it: the processes are the pids in the order of their first line, the intervals of a
  process are the maximal runs of lines of its pid.
\<close>

section \<open>The reference\<close>

text \<open>The maximal runs of a trace whose first line has number \<open>k\<close>: pid, first and last line.\<close>

function runs :: "nat \<Rightarrow> ('a \<times> 'b) list \<Rightarrow> ('a \<times> nat \<times> nat) list" where
  "runs k [] = []"
| "runs k (l # ls) = (fst l, k, k + length (takeWhile (\<lambda>m. fst m = fst l) ls))
     # runs (Suc (k + length (takeWhile (\<lambda>m. fst m = fst l) ls))) (dropWhile (\<lambda>m. fst m = fst l) ls)"
  by pat_completeness auto
termination
  by (relation "measure (\<lambda>(k, ls). length ls)") (auto simp: length_dropWhile_le le_imp_less_Suc)

text \<open>The intervals of a pid, as the nodes of its tree.\<close>

definition intervals :: "(ul64 \<times> ul64) list \<Rightarrow> ul64 \<Rightarrow> (ul64 \<times> nat \<times> nat) list \<Rightarrow> (ul64 \<times> ul64 \<times> fpos cval) list" where
  "intervals ls i rs = map (\<lambda>(_, a, b). (of_nat (Suc a), of_nat (Suc b), Val (gap_pos ls a))) (filter (\<lambda>r. fst r = i) rs)"

definition firsts :: "'a list \<Rightarrow> 'a list" where
  "firsts xs = rev (remdups (rev xs))"

lemma while_all:
  assumes "\<forall>x \<in> set xs. P x"
  shows "takeWhile P xs = xs" "dropWhile P xs = []"
  using assms by (simp_all add: takeWhile_eq_all_conv)

lemma runs_same:
  assumes "xs \<noteq> []" "\<forall>m \<in> set xs. fst m = i"
  shows "runs k xs = [(i, k, k + length xs - 1)]"
proof (cases xs)
  case (Cons l ls)
  with assms(2) show ?thesis by (simp add: while_all [of ls "\<lambda>m. fst m = i"])
qed (use assms(1) in simp)

lemma runs_append:
  assumes "xs \<noteq> []" "ys \<noteq> []" "fst (last xs) \<noteq> fst (hd ys)"
  shows "runs k (xs @ ys) = runs k xs @ runs (k + length xs) ys"
  using assms
proof (induction k xs rule: runs.induct)
  case (2 k l ls)
  let ?P = "\<lambda>m. fst m = fst l"
  show ?case
  proof (cases "\<forall>m \<in> set ls. ?P m")
    case True
    then have "?P (last (l # ls))" by (cases ls) auto
    then have "\<not> ?P (hd ys)" using 2(4) by simp
    then have "takeWhile ?P ys = []" "dropWhile ?P ys = ys" using 2(3) by (cases ys; simp)+
    with True show ?thesis by (simp add: while_all [of ls ?P])
  next
    case False
    then have tw: "takeWhile ?P (ls @ ys) = takeWhile ?P ls" "dropWhile ?P (ls @ ys) = dropWhile ?P ls @ ys"
      and ne: "dropWhile ?P ls \<noteq> []"
      by (auto simp: takeWhile_append dropWhile_append)
    have "last (dropWhile ?P ls) = last (l # ls)"
      using ne by (metis last_appendR last_ConsR takeWhile_dropWhile_id append_is_Nil_conv)
    then have "runs (Suc (k + length (takeWhile ?P ls))) (dropWhile ?P ls @ ys)
        = runs (Suc (k + length (takeWhile ?P ls))) (dropWhile ?P ls)
          @ runs (Suc (k + length (takeWhile ?P ls)) + length (dropWhile ?P ls)) ys"
      using "2.IH" [OF ne 2(3)] 2(4) by simp
    moreover have "Suc (k + length (takeWhile ?P ls)) + length (dropWhile ?P ls) = k + length (l # ls)"
      using length_append [of "takeWhile ?P ls" "dropWhile ?P ls"] by simp
    ultimately show ?thesis using tw by (simp only: runs.simps(2) append_Cons)
  qed
qed simp

lemma firsts_append:
  assumes "ys \<noteq> []" "\<forall>y \<in> set ys. y = i"
  shows "firsts (xs @ ys) = (if i \<in> set xs then firsts xs else firsts xs @ [i])"
  using assms
proof (induction ys rule: rev_nonempty_induct)
  case (snoc y ys)
  then have "y = i" by simp
  moreover have "set (ys @ [y]) \<subseteq> {i}" using snoc.prems by auto
  moreover have "firsts (xs @ ys) = (if i \<in> set xs then firsts xs else firsts xs @ [i])" using snoc by simp
  moreover have "i \<in> set ys" using snoc.hyps snoc.prems by (cases ys) auto
  ultimately show ?case by (simp add: firsts_def)
qed (simp add: firsts_def)

lemma runs_pids: "r \<in> set (runs k xs) \<Longrightarrow> fst r \<in> fst ` set xs"
proof (induction k xs rule: runs.induct)
  case (2 k l ls)
  then show ?case using set_dropWhileD [of _ "\<lambda>m. fst m = fst l" ls] by fastforce
qed simp

text \<open>Every line is in a run of its pid.\<close>

lemma runs_bound: "(i, a, b) \<in> set (runs k xs) \<Longrightarrow> a \<le> b \<and> b < k + length xs"
proof (induction k xs rule: runs.induct)
  case (2 k l ls)
  have "length (takeWhile (\<lambda>m. fst m = fst l) ls) + length (dropWhile (\<lambda>m. fst m = fst l) ls) = length ls"
    by (metis length_append takeWhile_dropWhile_id)
  with 2 show ?case by (force simp: Let_def)
qed simp

lemma runs_cover: "j < length xs \<Longrightarrow> \<exists>a b. (fst (xs ! j), a, b) \<in> set (runs k xs) \<and> a \<le> k + j \<and> k + j \<le> b"
proof (induction k xs arbitrary: j rule: runs.induct)
  case (2 k l ls)
  let ?P = "\<lambda>m. fst m = fst l"
  let ?n = "length (takeWhile ?P ls)"
  show ?case
  proof (cases "j \<le> ?n")
    case True
    have "fst ((l # ls) ! j) = fst l"
    proof (cases j)
      case (Suc i)
      then have "i < ?n" using True by simp
      then have "ls ! i \<in> set (takeWhile ?P ls)" by (metis nth_mem takeWhile_nth)
      then show ?thesis using Suc by (auto dest: set_takeWhileD)
    qed simp
    then show ?thesis using True by (intro exI [of _ k] exI [of _ "k + ?n"]) simp
  next
    case False
    then obtain i where i: "j = Suc (?n + i)" by (metis add_Suc_right less_imp_Suc_add not_le)
    have len: "?n + length (dropWhile ?P ls) = length ls" by (metis length_append takeWhile_dropWhile_id)
    then have "i < length (dropWhile ?P ls)" using 2(2) i by simp
    then have "\<exists>a b. (fst (dropWhile ?P ls ! i), a, b) \<in> set (runs (Suc (k + ?n)) (dropWhile ?P ls))
        \<and> a \<le> Suc (k + ?n) + i \<and> Suc (k + ?n) + i \<le> b"
      by (rule 2(1))
    moreover have "ls ! (?n + i) = dropWhile ?P ls ! i"
      using nth_append_length_plus [of "takeWhile ?P ls" "dropWhile ?P ls" i] by (simp only: takeWhile_dropWhile_id)
    then have "(l # ls) ! j = dropWhile ?P ls ! i" using i by simp
    ultimately show ?thesis using i by (auto simp: add.assoc)
  qed
qed simp

text \<open>A run that ends where another pid begins.\<close>

lemma runs_take:
  assumes "k < i" "i \<le> length ls" "\<forall>j. k \<le> j \<longrightarrow> j < i \<longrightarrow> fst (ls ! j) = p" "k \<noteq> 0 \<longrightarrow> fst (ls ! (k - 1)) \<noteq> p"
  shows "runs 0 (take i ls) = runs 0 (take k ls) @ [(p, k, i - 1)]"
    and "firsts (map fst (take i ls)) = (if p \<in> set (map fst (take k ls)) then firsts (map fst (take k ls))
      else firsts (map fst (take k ls)) @ [p])"
proof -
  let ?xs = "take k ls" and ?ys = "take (i - k) (drop k ls)"
  have split: "take i ls = ?xs @ ?ys" using assms(1) by (metis le_add_diff_inverse less_imp_le take_add)
  have len: "length ?ys = i - k" using assms(1,2) by simp
  have all: "\<forall>m \<in> set ?ys. fst m = p"
  proof
    fix m assume "m \<in> set ?ys"
    then obtain j where "j < i - k" "m = ls ! (k + j)" using len assms(1,2) by (auto simp: in_set_conv_nth)
    with assms(1,3) show "fst m = p" by simp
  qed
  have ne: "?ys \<noteq> []" using len assms(1) by (metis list.size(3) not_less zero_less_diff le_refl)
  have new: "runs j ?ys = [(p, j, j + (i - k) - 1)]" for j using runs_same [OF ne all, of j] len by simp
  have "runs 0 (?xs @ ?ys) = runs 0 ?xs @ [(p, k, i - 1)]"
  proof (cases "k = 0")
    case True
    then have "?xs = []" by simp
    then show ?thesis using new [of 0] True by simp
  next
    case False
    then have "?xs \<noteq> []" using assms(1,2) by auto
    moreover from this have "last ?xs = ls ! (k - 1)" using assms(1,2) by (simp add: last_conv_nth)
    moreover have "fst (hd ?ys) = p" using all hd_in_set [OF ne] by blast
    ultimately have "runs 0 (?xs @ ?ys) = runs 0 ?xs @ runs (0 + length ?xs) ?ys"
      using ne assms(4) False by (intro runs_append) simp_all
    moreover have "0 + length ?xs = k" using assms(1,2) by simp
    ultimately show ?thesis using new [of k] assms(1) by simp
  qed
  then show "runs 0 (take i ls) = runs 0 ?xs @ [(p, k, i - 1)]" unfolding split .
  show "firsts (map fst (take i ls)) = (if p \<in> set (map fst ?xs) then firsts (map fst ?xs) else firsts (map fst ?xs) @ [p])"
    unfolding split map_append using ne all by (intro firsts_append) auto
qed

lemma intervals_append:
  "intervals ls j (rs @ [(p, a, b)]) = intervals ls j rs
    @ (if j = p then [(of_nat (Suc a), of_nat (Suc b), Val (gap_pos ls a))] else [])"
  by (simp add: intervals_def)

lemma set_firsts [simp]: "set (firsts xs) = set xs"
  by (simp add: firsts_def)

lemma distinct_firsts [simp]: "distinct (firsts xs)"
  by (simp add: firsts_def)

end
