(* ===== verification/TraceRuns.thy ===== *)
theory TraceRuns
  imports ParserInv TraceGroups
begin

text \<open>
  What the first pass finds in a well-formed trace: the intervals of a process are runs of
  lines of its pid, each with the file position from which its first line is read.
\<close>

section \<open>The lines of a process\<close>

definition own_lines :: "(ul64 \<times> ul64) list \<Rightarrow> ul64 \<Rightarrow> ul64 \<times> ul64 \<times> fpos cval \<Rightarrow> bool" where
  "own_lines ls i c \<longleftrightarrow> 0 < fst c \<and> fst c \<le> fst (snd c) \<and> unat (fst (snd c)) \<le> length ls
     \<and> snd (snd c) = Val (gap_pos ls (unat (fst c) - 1))
     \<and> (\<forall>j. unat (fst c) \<le> Suc j \<longrightarrow> Suc j \<le> unat (fst (snd c)) \<longrightarrow> fst (ls ! j) = i)"

definition has_lines :: "(ul64 \<times> ul64) list \<Rightarrow> Process \<Rightarrow> bool" where
  "has_lines ls pp \<longleftrightarrow> (\<forall>c \<in> set (it_chain (lineIntervals pp)). own_lines ls (pid pp) c)
     \<and> fst (it_chain (lineIntervals pp) ! currInterval pp) \<le> currentline pp"

text \<open>A position from which the current line is read: its first byte or the line break before it.\<close>

definition at_line :: "(ul64 \<times> ul64) list \<Rightarrow> Process \<Rightarrow> fpos \<Rightarrow> bool" where
  "at_line ls pp x \<longleftrightarrow> x = line_pos ls (unat (currentline pp) - 1) \<or> x = gap_pos ls (unat (currentline pp) - 1)"

definition placed :: "(ul64 \<times> ul64) list \<Rightarrow> 'r machine \<Rightarrow> bool" where
  "placed ls s \<longleftrightarrow> (\<forall>p pp. procs s p = Some pp \<longrightarrow> has_lines ls pp \<and> at_line ls pp (currentPos pp))
     \<and> (\<forall>p q. pq s RUNNABLE = p # q \<longrightarrow> saved_pos (procs s) p = 0)"

text \<open>The pids that the pid map keeps apart.\<close>

definition pids_ok :: "(ul64 \<times> ul64) list \<Rightarrow> bool" where
  "pids_ok ls \<longleftrightarrow> (\<forall>l \<in> set ls. fst l \<noteq> 0 \<and> unat (fst l) < 2 ^ 32)"

lemma make_PidMap_inj:
  assumes "make_PidMap p = make_PidMap q" "unat p < 2 ^ 32" "unat q < 2 ^ 32"
  shows "p = q"
proof -
  have "unat (ucast x :: u32) = unat x mod 2 ^ 32" for x :: ul64
    by (simp add: unsigned_ucast_eq take_bit_eq_mod)
  with assms show ?thesis by (metis make_PidMap_def mod_less word_unat_eq_iff)
qed

lemma own_line_number:
  assumes "own_lines ls i c" "fst c \<le> l" "l \<le> fst (snd c)"
  obtains j where "unat l = Suc j" "j < length ls" "fst (ls ! j) = i"
proof -
  from assms have l: "unat (fst c) \<le> unat l" "unat l \<le> unat (fst (snd c))" "0 < unat (fst c)" "unat (fst (snd c)) \<le> length ls"
    by (simp_all add: own_lines_def word_le_nat_alt word_less_nat_alt)
  then obtain j where j: "unat l = Suc j" by (cases "unat l") simp_all
  with l assms(1) have "fst (ls ! j) = i" by (simp add: own_lines_def)
  with j l that show thesis by simp
qed

lemma has_lines_pid:
  assumes "has_lines ls pp" "lines_ok pp" "pids_ok ls"
  shows "unat (pid pp) < 2 ^ 32"
proof -
  let ?c = "it_chain (lineIntervals pp) ! currInterval pp"
  have own: "own_lines ls (pid pp) ?c" using assms(1,2) by (simp add: has_lines_def lines_ok_def)
  then have "fst ?c \<le> fst (snd ?c)" by (simp add: own_lines_def)
  with own obtain j where "j < length ls" "fst (ls ! j) = pid pp"
    by (elim own_line_number [where l = "fst ?c"]) simp_all
  with assms(3) show ?thesis unfolding pids_ok_def by (metis nth_mem)
qed

text \<open>Reading the current line of a process.\<close>

lemma read_own_line:
  assumes "has_lines ls pp" "lines_ok pp" "at_line ls pp (ftell f)" "contents f = trace_text ls"
  shows "fscanf True f = (LPair (pid pp) (snd (ls ! (unat (currentline pp) - 1))),
    f\<lparr>offset := line_pos ls (unat (currentline pp))\<rparr>)"
proof -
  let ?c = "it_chain (lineIntervals pp) ! currInterval pp"
  have "own_lines ls (pid pp) ?c" "fst ?c \<le> currentline pp" "currentline pp \<le> fst (snd ?c)"
    using assms(1,2) by (simp_all add: has_lines_def lines_ok_def)
  then obtain j where j: "unat (currentline pp) = Suc j" "j < length ls" "fst (ls ! j) = pid pp"
    by (rule own_line_number)
  then have "fscanf True f = (LPair (fst (ls ! j)) (snd (ls ! j)), f\<lparr>offset := line_pos ls (Suc j)\<rparr>)"
    using assms(3,4) fscanf_line [of f ls j] fscanf_gap(2) [of f ls j] by (auto simp: at_line_def ftell_def)
  with j show ?thesis by simp
qed

section \<open>The runs that the pass closes\<close>

lemma closed_run_placed:
  assumes "closed_run P P'" "placed ls (pmach P)" "dom (procs (pmach P)) = set (pq (pmach P) RUNNABLE)"
    and "\<And>a pp. procs (pmach P) a = Some pp \<Longrightarrow> lines_ok pp"
    and "start_line_number P = of_nat (Suc k)" "start_fpos P = gap_pos ls k" "curr_line_number P = of_nat (Suc i)"
    and "k < i" "i \<le> length ls" "Suc (length ls) < 2 ^ 64" "\<forall>j. k \<le> j \<longrightarrow> j < i \<longrightarrow> fst (ls ! j) = last_pid P"
    and "pids_ok ls" "pq (pmach P) RUNNABLE = [] \<Longrightarrow> k = 0"
  shows "placed ls (pmach P')" "log (pmach P') = log (pmach P)" "pq (pmach P') RUNNABLE \<noteq> []"
proof -
  let ?s = "pmach P" and ?s' = "pmach P'"
  let ?c = "(start_line_number P, curr_line_number P - 1, Val (start_fpos P))"
  from assms(1) obtain a pp' where log: "log ?s' = log ?s" and a: "procs ?s' = (procs ?s)(a \<mapsto> pp')"
    and new: "case procs ?s a of
        Some pp \<Rightarrow> make_PidMap (pid pp) = make_PidMap (last_pid P) \<and> pid pp' = pid pp
          \<and> it_chain (lineIntervals pp') = it_chain (lineIntervals pp) @ [?c]
          \<and> currInterval pp' = currInterval pp \<and> currentline pp' = currentline pp
          \<and> currentPos pp' = currentPos pp \<and> pq ?s' = pq ?s
      | None \<Rightarrow> pid pp' = last_pid P \<and> it_chain (lineIntervals pp') = [?c] \<and> currInterval pp' = 0
          \<and> currentline pp' = start_line_number P \<and> currentPos pp' = start_fpos P
          \<and> pq ?s' RUNNABLE = pq ?s RUNNABLE @ [a]
          \<and> (\<forall>b bb. procs ?s b = Some bb \<longrightarrow> make_PidMap (pid bb) \<noteq> make_PidMap (last_pid P))"
    unfolding closed_run_def Let_def by blast
  show "log ?s' = log ?s" by (rule log)
  have "unat (of_nat (Suc k) :: ul64) = Suc k" "unat (of_nat i :: ul64) = i"
    using assms(8-10) by (simp_all add: unat_of_nat_64 del: of_nat_Suc)
  moreover have "curr_line_number P - 1 = of_nat i" using assms(7) by simp
  ultimately have c: "unat (start_line_number P) = Suc k" "unat (curr_line_number P - 1) = i"
    using assms(5) by simp_all
  then have "0 < start_line_number P" "start_line_number P \<le> curr_line_number P - 1"
    using assms(8) by (simp_all add: word_less_nat_alt word_le_nat_alt)
  with c have own: "own_lines ls (last_pid P) ?c"
    using assms(6,9,11) by (simp add: own_lines_def Suc_le_eq)
  have last: "unat (last_pid P) < 2 ^ 32"
  proof -
    have "k < length ls" "fst (ls ! k) = last_pid P" using assms(8,9,11) by simp_all
    then show ?thesis using assms(12) unfolding pids_ok_def by (metis nth_mem)
  qed
  have old: "has_lines ls pp \<and> at_line ls pp (currentPos pp)" if "procs ?s b = Some pp" for b pp
    using assms(2) that unfolding placed_def by blast
  have "has_lines ls pp' \<and> at_line ls pp' (currentPos pp') \<and> pq ?s' RUNNABLE \<noteq> []
    \<and> (\<forall>p q. pq ?s' RUNNABLE = p # q \<longrightarrow> saved_pos (procs ?s') p = 0)"
  proof (cases "procs ?s a")
    case None
    then have n: "pid pp' = last_pid P" "it_chain (lineIntervals pp') = [?c]" "currInterval pp' = 0"
      "currentline pp' = start_line_number P" "currentPos pp' = start_fpos P" "pq ?s' RUNNABLE = pq ?s RUNNABLE @ [a]"
      using new by simp_all
    have "saved_pos (procs ?s') p = 0" if "pq ?s' RUNNABLE = p # q" for p q
    proof (cases "pq ?s RUNNABLE")
      case Nil
      then have "p = a" "k = 0" using that n(6) assms(13) by simp_all
      then show ?thesis using a n(5) assms(6) by (simp add: saved_pos_def gap_pos_def)
    next
      case (Cons r q')
      then have "p = r" "r \<noteq> a" using that n(6) assms(3) None by (auto simp: domIff)
      with Cons a assms(2) show ?thesis by (simp add: placed_def saved_pos_def)
    qed
    moreover have "at_line ls pp' (currentPos pp')" using n(4,5) c(1) assms(6) by (simp add: at_line_def)
    ultimately show ?thesis using n own by (simp add: has_lines_def)
  next
    case (Some pp)
    then have n: "make_PidMap (pid pp) = make_PidMap (last_pid P)" "pid pp' = pid pp"
      "it_chain (lineIntervals pp') = it_chain (lineIntervals pp) @ [?c]" "currInterval pp' = currInterval pp"
      "currentline pp' = currentline pp" "currentPos pp' = currentPos pp" "pq ?s' = pq ?s"
      using new by simp_all
    have ok: "lines_ok pp" using assms(4) Some by blast
    then have "pid pp = last_pid P"
      using make_PidMap_inj [OF n(1) has_lines_pid last] old [OF Some] assms(12) by blast
    then have "has_lines ls pp'"
      using old [OF Some] own n(2-5) ok by (auto simp: has_lines_def nth_append lines_ok_def)
    moreover have "saved_pos (procs ?s') = saved_pos (procs ?s)"
      using a n(6) Some by (intro ext) (simp add: saved_pos_def)
    moreover have "pq ?s RUNNABLE \<noteq> []" using assms(3) Some by auto
    ultimately show ?thesis using old [OF Some] n(5-7) assms(2) by (simp add: placed_def at_line_def)
  qed
  with a old show "placed ls ?s'" "pq ?s' RUNNABLE \<noteq> []" by (simp_all add: placed_def)
qed

text \<open>
  The machine after the first \<open>k\<close> lines: the processes are the pids in the order of their first
  line, their intervals the runs of their lines.
\<close>

definition pid_at :: "'r machine \<Rightarrow> paddr \<Rightarrow> ul64" where
  "pid_at s a = (case procs s a of None \<Rightarrow> 0 | Some pp \<Rightarrow> pid pp)"

definition grouped :: "(ul64 \<times> ul64) list \<Rightarrow> nat \<Rightarrow> 'r machine \<Rightarrow> bool" where
  "grouped ls k s \<longleftrightarrow> map (pid_at s) (pq s RUNNABLE) = firsts (map fst (take k ls))
     \<and> (\<forall>a pp. procs s a = Some pp \<longrightarrow> currInterval pp = 0
          \<and> it_chain (lineIntervals pp) = intervals ls (pid pp) (runs 0 (take k ls))
          \<and> currentline pp = fst (it_chain (lineIntervals pp) ! 0))"

lemma grouped_file [simp]: "grouped ls k (s\<lparr>tracefile := f\<rparr>) = grouped ls k s"
proof -
  have "pid_at (s\<lparr>tracefile := f\<rparr>) = pid_at s" by (rule ext) (simp add: pid_at_def)
  then show ?thesis by (simp add: grouped_def)
qed

lemma closed_run_grouped:
  assumes "closed_run P P'" "grouped ls k (pmach P)" "dom (procs (pmach P)) = set (pq (pmach P) RUNNABLE)"
    and "\<And>a pp. procs (pmach P) a = Some pp \<Longrightarrow> it_chain (lineIntervals pp) \<noteq> [] \<and> unat (pid pp) < 2 ^ 32"
    and "start_line_number P = of_nat (Suc k)" "start_fpos P = gap_pos ls k" "curr_line_number P = of_nat (Suc i)"
    and "k < i" "i \<le> length ls" "\<forall>j. k \<le> j \<longrightarrow> j < i \<longrightarrow> fst (ls ! j) = last_pid P"
    and "k \<noteq> 0 \<longrightarrow> fst (ls ! (k - 1)) \<noteq> last_pid P" "pids_ok ls"
  shows "grouped ls i (pmach P')"
proof -
  let ?s = "pmach P" and ?s' = "pmach P'" and ?p = "last_pid P"
  let ?c = "(of_nat (Suc k), of_nat (Suc (i - 1)), Val (gap_pos ls k)) :: ul64 \<times> ul64 \<times> fpos cval"
  have "curr_line_number P - 1 = of_nat (Suc (i - 1))" using assms(7,8) by simp
  then have c: "(start_line_number P, curr_line_number P - 1, Val (start_fpos P)) = ?c" using assms(5,6) by simp
  obtain a pp' where a: "procs ?s' = (procs ?s)(a \<mapsto> pp')"
    and new: "case procs ?s a of
        Some pp \<Rightarrow> make_PidMap (pid pp) = make_PidMap ?p \<and> pid pp' = pid pp
          \<and> it_chain (lineIntervals pp') = it_chain (lineIntervals pp) @ [?c]
          \<and> currInterval pp' = currInterval pp \<and> currentline pp' = currentline pp
          \<and> currentPos pp' = currentPos pp \<and> pq ?s' = pq ?s
      | None \<Rightarrow> pid pp' = ?p \<and> it_chain (lineIntervals pp') = [?c] \<and> currInterval pp' = 0
          \<and> currentline pp' = start_line_number P \<and> currentPos pp' = start_fpos P
          \<and> pq ?s' RUNNABLE = pq ?s RUNNABLE @ [a]
          \<and> (\<forall>b bb. procs ?s b = Some bb \<longrightarrow> make_PidMap (pid bb) \<noteq> make_PidMap ?p)"
    using assms(1) unfolding closed_run_def Let_def c by blast
  note step = runs_take [OF assms(8,9,10,11)]
  have chain: "intervals ls j (runs 0 (take i ls))
      = intervals ls j (runs 0 (take k ls)) @ (if j = ?p then [?c] else [])" for j
    by (simp only: step(1) intervals_append)
  have order: "map (pid_at ?s) (pq ?s RUNNABLE) = firsts (map fst (take k ls))" using assms(2) by (simp add: grouped_def)
  have old: "currInterval pp = 0" "it_chain (lineIntervals pp) = intervals ls (pid pp) (runs 0 (take k ls))"
    "currentline pp = fst (it_chain (lineIntervals pp) ! 0)" if "procs ?s b = Some pp" for b pp
    using assms(2) that unfolding grouped_def by blast+
  have "k < length ls" "fst (ls ! k) = ?p" using assms(8,9,10) by simp_all
  then have small: "unat ?p < 2 ^ 32" using assms(12) unfolding pids_ok_def by (metis nth_mem)
  have pids: "pid_at ?s ` set (pq ?s RUNNABLE) = set (map fst (take k ls))"
    using arg_cong [OF order, of set] by simp
  show ?thesis
  proof (cases "procs ?s a")
    case None
    then have n: "pid pp' = ?p" "it_chain (lineIntervals pp') = [?c]" "currInterval pp' = 0"
      "currentline pp' = of_nat (Suc k)" "pq ?s' RUNNABLE = pq ?s RUNNABLE @ [a]"
      and far: "\<forall>b bb. procs ?s b = Some bb \<longrightarrow> make_PidMap (pid bb) \<noteq> make_PidMap ?p"
      using new assms(5) by simp_all
    have fresh: "pid bb \<noteq> ?p" if "procs ?s b = Some bb" for b bb using far that by metis
    have notin: "a \<notin> set (pq ?s RUNNABLE)" using None assms(3) by (metis domIff)
    have "?p \<notin> set (map fst (take k ls))"
    proof
      assume "?p \<in> set (map fst (take k ls))"
      then obtain b where b: "b \<in> set (pq ?s RUNNABLE)" "pid_at ?s b = ?p" using pids by force
      then have "b \<in> dom (procs ?s)" using assms(3) by simp
      then obtain bb where "procs ?s b = Some bb" by blast
      with fresh b(2) show False by (simp add: pid_at_def)
    qed
    moreover from this have "\<forall>r \<in> set (runs 0 (take k ls)). fst r \<noteq> ?p" using runs_pids by fastforce
    then have "intervals ls ?p (runs 0 (take k ls)) = []" by (simp add: intervals_def filter_empty_conv)
    moreover have "map (pid_at ?s') (pq ?s RUNNABLE) = map (pid_at ?s) (pq ?s RUNNABLE)"
      using notin a by (auto simp: pid_at_def)
    ultimately have "map (pid_at ?s') (pq ?s' RUNNABLE) = firsts (map fst (take i ls))"
      and empty: "intervals ls ?p (runs 0 (take k ls)) = []"
      using n(1,5) order step(2) a by (simp_all add: pid_at_def [of ?s' a])
    moreover have "currInterval bb = 0 \<and> it_chain (lineIntervals bb) = intervals ls (pid bb) (runs 0 (take i ls))
        \<and> currentline bb = fst (it_chain (lineIntervals bb) ! 0)" if "procs ?s' b = Some bb" for b bb
    proof (cases "b = a")
      case True
      with that a n(1-4) chain [of ?p] empty show ?thesis by simp
    next
      case False
      with that a have b: "procs ?s b = Some bb" by simp
      with old [OF b] fresh [OF b] chain show ?thesis by simp
    qed
    ultimately show ?thesis unfolding grouped_def by blast
  next
    case (Some pp)
    then have n: "make_PidMap (pid pp) = make_PidMap ?p" "pid pp' = pid pp"
      "it_chain (lineIntervals pp') = it_chain (lineIntervals pp) @ [?c]" "currInterval pp' = currInterval pp"
      "currentline pp' = currentline pp" "pq ?s' = pq ?s"
      using new by simp_all
    have pp: "it_chain (lineIntervals pp) \<noteq> []" "unat (pid pp) < 2 ^ 32" using assms(4) [OF Some] by blast+
    have p: "pid pp = ?p" using n(1) pp(2) small by (rule make_PidMap_inj)
    have run: "a \<in> set (pq ?s RUNNABLE)" using Some assms(3) by blast
    then have "pid_at ?s a \<in> set (map fst (take k ls))" unfolding pids [symmetric] by (rule imageI)
    then have mem: "?p \<in> set (map fst (take k ls))" using Some p by (simp add: pid_at_def)
    have inj: "inj_on (pid_at ?s) (set (pq ?s RUNNABLE))" using order distinct_firsts by (metis distinct_map)
    have other: "pid bb \<noteq> ?p" if b: "procs ?s b = Some bb" "b \<noteq> a" for b bb
    proof
      assume "pid bb = ?p"
      then have "pid_at ?s b = pid_at ?s a" using b(1) Some p by (simp add: pid_at_def)
      moreover have "b \<in> set (pq ?s RUNNABLE)" using b(1) assms(3) by blast
      ultimately show False using inj run b(2) by (simp add: inj_on_eq_iff)
    qed
    have "pid_at ?s' = pid_at ?s" using a n(2) Some by (intro ext) (simp add: pid_at_def)
    then have "map (pid_at ?s') (pq ?s' RUNNABLE) = firsts (map fst (take i ls))"
      using order step(2) mem n(6) by simp
    moreover have "currInterval bb = 0 \<and> it_chain (lineIntervals bb) = intervals ls (pid bb) (runs 0 (take i ls))
        \<and> currentline bb = fst (it_chain (lineIntervals bb) ! 0)" if "procs ?s' b = Some bb" for b bb
    proof (cases "b = a")
      case True
      with that a n(2-5) p pp(1) old [OF Some] chain [of ?p] show ?thesis by (simp add: nth_append)
    next
      case False
      with that a have b: "procs ?s b = Some bb" by simp
      with old [OF b] other [OF b False] chain show ?thesis by simp
    qed
    ultimately show ?thesis unfolding grouped_def by blast
  qed
qed

section \<open>The pass over a well-formed trace\<close>

text \<open>After \<open>i\<close> lines: the run that is open began with line \<open>k\<close>, counted from 0.\<close>

definition tracked :: "(ul64 \<times> ul64) list \<Rightarrow> nat \<Rightarrow> 'r parse \<Rightarrow> bool" where
  "tracked ls i P \<longleftrightarrow> tracefile (pmach P) = \<lparr>contents = trace_text ls, offset = gap_pos ls i\<rparr>
     \<and> curr_line_number P = of_nat (Suc i) \<and> (last_pid P = 0 \<longleftrightarrow> i = 0) \<and> placed ls (pmach P)
     \<and> (\<exists>k \<le> i. start_line_number P = of_nat (Suc k) \<and> start_fpos P = gap_pos ls k \<and> (i \<noteq> 0 \<longrightarrow> k < i)
          \<and> (\<forall>j. k \<le> j \<longrightarrow> j < i \<longrightarrow> fst (ls ! j) = last_pid P) \<and> (pq (pmach P) RUNNABLE = [] \<longrightarrow> k = 0)
          \<and> (k \<noteq> 0 \<longrightarrow> fst (ls ! (k - 1)) \<noteq> last_pid P) \<and> grouped ls k (pmach P))"

lemma trackedI:
  assumes "tracefile (pmach P) = \<lparr>contents = trace_text ls, offset = gap_pos ls i\<rparr>"
    and "curr_line_number P = of_nat (Suc i)" "last_pid P = 0 \<longleftrightarrow> i = 0" "placed ls (pmach P)"
    and "k \<le> i" "start_line_number P = of_nat (Suc k)" "start_fpos P = gap_pos ls k" "i \<noteq> 0 \<Longrightarrow> k < i"
    and "\<And>j. k \<le> j \<Longrightarrow> j < i \<Longrightarrow> fst (ls ! j) = last_pid P" "pq (pmach P) RUNNABLE = [] \<Longrightarrow> k = 0"
    and "k \<noteq> 0 \<Longrightarrow> fst (ls ! (k - 1)) \<noteq> last_pid P" "grouped ls k (pmach P)"
  shows "tracked ls i P"
  unfolding tracked_def by (intro conjI exI [of _ k] allI impI; rule assms; assumption)

lemma tracked_close:
  assumes "pass_inv P" "tracked ls i P" "i \<noteq> 0" "i \<le> length ls" "pids_ok ls" "Suc (length ls) < 2 ^ 64"
  obtains P1 where "close_run env (gap_pos ls i) (P\<lparr>pmach := (pmach P)\<lparr>tracefile := f\<rparr>\<rparr>) = Inr P1"
    "placed ls (pmach P1)" "log (pmach P1) = log (pmach P)" "pq (pmach P1) RUNNABLE \<noteq> []"
    "start_line_number P1 = of_nat (Suc i)" "start_fpos P1 = gap_pos ls i" "curr_line_number P1 = of_nat (Suc i)"
    "tracefile (pmach P1) = f" "grouped ls i (pmach P1)"
proof -
  let ?P = "P\<lparr>pmach := (pmach P)\<lparr>tracefile := f\<rparr>\<rparr>" and ?s = "pmach P"
  have inv: "collected ?s (search_tree P) (start_line_number P) (start_fpos P)" "zeroed (ms ?s)"
    "start_fpos P \<le> offset (tracefile ?s)" "last_pid P \<noteq> 0 \<longrightarrow> start_line_number P < curr_line_number P"
    using assms(1) unfolding pass_inv_def Let_def by blast+
  from assms(2,3) obtain k where k: "start_line_number P = of_nat (Suc k)" "start_fpos P = gap_pos ls k" "k < i"
    "\<forall>j. k \<le> j \<longrightarrow> j < i \<longrightarrow> fst (ls ! j) = last_pid P" "pq ?s RUNNABLE = [] \<longrightarrow> k = 0"
    "k \<noteq> 0 \<longrightarrow> fst (ls ! (k - 1)) \<noteq> last_pid P" "grouped ls k ?s"
    and t: "curr_line_number P = of_nat (Suc i)" "last_pid P \<noteq> 0" "placed ls ?s" "offset (tracefile ?s) = gap_pos ls i"
    unfolding tracked_def by auto
  have col: "collected (pmach ?P) (search_tree ?P) (start_line_number ?P) (start_fpos ?P)"
    using collected_cong [OF inv(1), of "?s\<lparr>tracefile := f\<rparr>"] by simp
  moreover have "zeroed (ms (pmach ?P))" "last_pid ?P \<noteq> 0" "start_line_number ?P < curr_line_number ?P"
    "start_fpos ?P \<le> gap_pos ls i"
    using inv(2-4) t(2,4) by simp_all
  ultimately obtain P1 where P1: "close_run env (gap_pos ls i) ?P = Inr P1"
    "collected (pmach P1) (search_tree P1) (start_line_number P1) (start_fpos P1)"
    "start_line_number P1 = curr_line_number ?P" "curr_line_number P1 = curr_line_number ?P"
    "start_fpos P1 = gap_pos ls i" "last_pid P1 = last_pid ?P"
    "ms (pmach P1) = ms (pmach ?P)" "rep (pmach P1) = rep (pmach ?P)" "tracefile (pmach P1) = tracefile (pmach ?P)"
    "closed_run ?P P1"
    by (rule close_run_ok)
  have ok: "lines_ok pp" if "procs (pmach ?P) a = Some pp" for a pp
    using collected_proc [OF col that] by (simp add: parsed_def)
  have pre: "placed ls (pmach ?P)" "dom (procs (pmach ?P)) = set (pq (pmach ?P) RUNNABLE)"
    "start_line_number ?P = of_nat (Suc k)" "start_fpos ?P = gap_pos ls k" "curr_line_number ?P = of_nat (Suc i)"
    "\<forall>j. k \<le> j \<longrightarrow> j < i \<longrightarrow> fst (ls ! j) = last_pid ?P"
    using t(1,3) k(1,2,4) collectedD(3) [OF inv(1)] by (simp_all add: placed_def)
  have "pq (pmach ?P) RUNNABLE = [] \<Longrightarrow> k = 0" using k(5) by simp
  note c = closed_run_placed [OF P1(10) pre(1,2) ok pre(3-5) k(3) assms(4,6) pre(6) assms(5) this]
  have chains: "it_chain (lineIntervals pp) \<noteq> [] \<and> unat (pid pp) < 2 ^ 32" if "procs (pmach ?P) a = Some pp" for a pp
  proof -
    have "has_lines ls pp" using pre(1) that unfolding placed_def by blast
    then show ?thesis using ok [OF that] assms(5) has_lines_pid by (auto simp: lines_ok_def)
  qed
  have same: "grouped ls k (pmach ?P)" using k(7) by simp
  have edge: "k \<noteq> 0 \<longrightarrow> fst (ls ! (k - 1)) \<noteq> last_pid ?P" using k(6) by simp
  note g = closed_run_grouped [OF P1(10) same pre(2) chains pre(3-5) k(3) assms(4) pre(6) edge assms(5)]
  show thesis using P1(1,3-5,9) c t(1) g by (intro that [of P1]) simp_all
qed

lemma tracked_line:
  assumes "pass_inv P" "tracked ls i P" "i < length ls" "pids_ok ls" "Suc (length ls) < 2 ^ 64"
    and "first_pass_turn env P = Inr (True, P')"
  shows "tracked ls (Suc i) P'" "log (pmach P') = log (pmach P)"
proof -
  let ?l = "fst (ls ! i)" and ?f = "\<lparr>contents = trace_text ls, offset = gap_pos ls (Suc i)\<rparr>"
  let ?P = "P\<lparr>pmach := (pmach P)\<lparr>tracefile := ?f\<rparr>\<rparr>"
  let ?b = "last_pid P \<noteq> 0 \<and> ?l \<noteq> last_pid P"
  let ?moved = "\<lambda>P1 :: 'a parse. P1\<lparr>last_pid := ?l, curr_line_number := curr_line_number P1 + 1\<rparr>"
  from assms(2) obtain k where k: "start_line_number P = of_nat (Suc k)" "start_fpos P = gap_pos ls k"
    "k \<le> i" "i \<noteq> 0 \<longrightarrow> k < i" "\<forall>j. k \<le> j \<longrightarrow> j < i \<longrightarrow> fst (ls ! j) = last_pid P" "pq (pmach P) RUNNABLE = [] \<longrightarrow> k = 0"
    "k \<noteq> 0 \<longrightarrow> fst (ls ! (k - 1)) \<noteq> last_pid P" "grouped ls k (pmach P)"
    and t: "tracefile (pmach P) = \<lparr>contents = trace_text ls, offset = gap_pos ls i\<rparr>"
      "curr_line_number P = of_nat (Suc i)" "last_pid P = 0 \<longleftrightarrow> i = 0" "placed ls (pmach P)"
    unfolding tracked_def by auto
  have nz: "?l \<noteq> 0" using assms(3,4) by (simp add: pids_ok_def)
  have "fscanf False (tracefile (pmach P)) = (LPair ?l (snd (ls ! i)), ?f)"
    using fscanf_gap(1) [of "tracefile (pmach P)" ls i] assms(3) t(1) by simp
  then have turn: "first_pass_turn env P =
      bnd (if ?b then close_run env (gap_pos ls i) ?P else Inr ?P) (\<lambda>P1. Inr (True, ?moved P1))"
    using nz t(1) by (simp add: first_pass_turn_def first_pass_body_def ftell_def)
  show "tracked ls (Suc i) P'" "log (pmach P') = log (pmach P)"
  proof (atomize (full), cases ?b)
    case True
    then have "i \<noteq> 0" using t(3) by simp
    with assms(1,2) obtain P1 where P1: "close_run env (gap_pos ls i) ?P = Inr P1"
      "placed ls (pmach P1)" "log (pmach P1) = log (pmach P)" "pq (pmach P1) RUNNABLE \<noteq> []"
      "start_line_number P1 = of_nat (Suc i)" "start_fpos P1 = gap_pos ls i" "curr_line_number P1 = of_nat (Suc i)"
      "tracefile (pmach P1) = ?f" "grouped ls i (pmach P1)"
      by (rule tracked_close) (use assms(3-5) in simp_all)
    have "P' = ?moved P1" using turn P1(1) assms(6) True by simp
    then have P': "tracefile (pmach P') = ?f" "curr_line_number P' = of_nat (Suc i) + 1" "last_pid P' = ?l"
      "pmach P' = pmach P1" "start_line_number P' = of_nat (Suc i)" "start_fpos P' = gap_pos ls i"
      using P1(5-8) by simp_all
    have "tracked ls (Suc i) P'"
    proof (rule trackedI [of _ _ _ i])
      show "curr_line_number P' = of_nat (Suc (Suc i))" using P'(2) by (simp add: add.commute)
      fix j assume "i \<le> j" "j < Suc i"
      then have "j = i" by simp
      then show "fst (ls ! j) = last_pid P'" using P'(3) by simp
    next
      have "fst (ls ! (i - 1)) = last_pid P" using k(4,5) \<open>i \<noteq> 0\<close> by simp
      then show "fst (ls ! (i - 1)) \<noteq> last_pid P'" using True P'(3) by auto
    qed (use P' P1(2,4,9) nz in simp_all)
    then show "tracked ls (Suc i) P' \<and> log (pmach P') = log (pmach P)"
      using P1(3) \<open>P' = ?moved P1\<close> by simp
  next
    case False
    have P'_eq: "P' = ?moved ?P" using turn assms(6) unfolding if_not_P [OF False] by simp
    then have P': "tracefile (pmach P') = ?f" "curr_line_number P' = of_nat (Suc i) + 1" "last_pid P' = ?l"
      "start_line_number P' = of_nat (Suc k)" "start_fpos P' = gap_pos ls k" "placed ls (pmach P')"
      "pq (pmach P') = pq (pmach P)" "grouped ls k (pmach P')"
      using k t by (simp_all add: placed_def)
    have "tracked ls (Suc i) P'"
    proof (rule trackedI [of _ _ _ k])
      show "curr_line_number P' = of_nat (Suc (Suc i))" using P'(2) by (simp add: add.commute)
      fix j assume "k \<le> j" "j < Suc i"
      then show "fst (ls ! j) = last_pid P'" using False k(3,5) t(3) P'(3) by (cases "j = i") simp_all
    next
      assume "k \<noteq> 0"
      then have "last_pid P = ?l" using False k(3) t(3) by auto
      then show "fst (ls ! (k - 1)) \<noteq> last_pid P'" using k(7) \<open>k \<noteq> 0\<close> P'(3) by simp
    qed (use P' k nz in simp_all)
    then show "tracked ls (Suc i) P' \<and> log (pmach P') = log (pmach P)"
      using P'_eq by simp
  qed
qed

text \<open>The end of the file closes the last run.\<close>

lemma tracked_end:
  assumes "pass_inv P" "tracked ls (length ls) P" "pids_ok ls" "Suc (length ls) < 2 ^ 64"
    and "first_pass_turn env P = Inr (go, P')"
  shows "placed ls (pmach P')" "log (pmach P') = log (pmach P)" "\<not> go" "grouped ls (length ls) (pmach P')"
proof -
  have t: "tracefile (pmach P) = \<lparr>contents = trace_text ls, offset = gap_pos ls (length ls)\<rparr>"
    "last_pid P = 0 \<longleftrightarrow> length ls = 0" "placed ls (pmach P)"
    using assms(2) unfolding tracked_def by blast+
  then obtain f where "fscanf False (tracefile (pmach P)) = (LEof, f)"
    using fscanf_end [of "tracefile (pmach P)" ls] by auto
  then have turn: "first_pass_turn env P =
      bnd (if last_pid P \<noteq> 0 then close_run env (gap_pos ls (length ls)) (P\<lparr>pmach := (pmach P)\<lparr>tracefile := f\<rparr>\<rparr>)
           else Inr (P\<lparr>pmach := (pmach P)\<lparr>tracefile := f\<rparr>\<rparr>))
        (\<lambda>P1. Inr (False, P1\<lparr>last_pid := last_pid P1, curr_line_number := curr_line_number P1 + 1\<rparr>))"
    using t(1) by (simp add: first_pass_turn_def first_pass_body_def ftell_def)
  have "placed ls (pmach P') \<and> log (pmach P') = log (pmach P) \<and> \<not> go \<and> grouped ls (length ls) (pmach P')"
  proof (cases "length ls = 0")
    case True
    moreover from this have "grouped ls 0 (pmach P)" using assms(2) by (auto simp: tracked_def)
    ultimately show ?thesis using t(2,3) turn assms(5) by (auto simp: placed_def)
  next
    case False
    with assms(1,2) obtain P1 where P1: "close_run env (gap_pos ls (length ls)) (P\<lparr>pmach := (pmach P)\<lparr>tracefile := f\<rparr>\<rparr>) = Inr P1"
      "placed ls (pmach P1)" "log (pmach P1) = log (pmach P)" "pq (pmach P1) RUNNABLE \<noteq> []"
      "start_line_number P1 = of_nat (Suc (length ls))" "start_fpos P1 = gap_pos ls (length ls)"
      "curr_line_number P1 = of_nat (Suc (length ls))" "tracefile (pmach P1) = f" "grouped ls (length ls) (pmach P1)"
      by (rule tracked_close) (use assms(3,4) in simp_all)
    with turn t(2) False assms(5) show ?thesis by (auto simp del: length_0_conv simp: placed_def)
  qed
  then show "placed ls (pmach P')" "log (pmach P') = log (pmach P)" "\<not> go" "grouped ls (length ls) (pmach P')"
    by simp_all
qed

lemma tracked_loop:
  assumes "pass_inv P" "tracked ls i P" "i \<le> length ls" "pids_ok ls" "Suc (length ls) < 2 ^ 64"
    and "first_pass_loop env P = Inr P'"
  shows "placed ls (pmach P') \<and> log (pmach P') = log (pmach P) \<and> grouped ls (length ls) (pmach P')"
  using assms
proof (induction "length ls - i" arbitrary: P i)
  case 0
  then have i: "i = length ls" by simp
  obtain go P1 where t: "first_pass_turn env P = Inr (go, P1)" "(if go then first_pass_loop env P1 else Inr P1) = Inr P'"
    using 0(7) by (subst (asm) first_pass_loop.simps) (auto simp: bnd_eq_Inr)
  with tracked_end [OF 0(2) _ 0(5,6) t(1)] 0(3) i show ?case by simp
next
  case (Suc n)
  then have i: "i < length ls" by simp
  obtain go P1 where t: "first_pass_turn env P = Inr (go, P1)" "(if go then first_pass_loop env P1 else Inr P1) = Inr P'"
    using Suc.prems(6) by (subst (asm) first_pass_loop.simps) (auto simp: bnd_eq_Inr)
  have "tracefile (pmach P) = \<lparr>contents = trace_text ls, offset = gap_pos ls i\<rparr>"
    using Suc.prems(2) unfolding tracked_def by blast
  then have "fscanf False (tracefile (pmach P)) = (LPair (fst (ls ! i)) (snd (ls ! i)),
      \<lparr>contents = trace_text ls, offset = gap_pos ls (Suc i)\<rparr>)"
    using fscanf_gap(1) [of "tracefile (pmach P)" ls i] i by simp
  from first_pass_turn_result [OF Suc.prems(1) this, of env] t(1) Suc.prems(4) i
  have "go" "pass_inv P1" by (simp_all add: turn_result_def line_result_def pids_ok_def)
  then have "first_pass_turn env P = Inr (True, P1)" "first_pass_loop env P1 = Inr P'" using t by simp_all
  note line = tracked_line [OF Suc.prems(1,2) i Suc.prems(4,5) this(1)]
  have "n = length ls - Suc i" using Suc.hyps(2) by simp
  from Suc.hyps(1) [OF this \<open>pass_inv P1\<close> line(1) _ Suc.prems(4,5) \<open>first_pass_loop env P1 = Inr P'\<close>] i line(2)
  show ?case by simp
qed

text \<open>The machine that the pass leaves.\<close>

lemma first_pass_placed:
  assumes "blank s" "contents (tracefile s) = trace_text ls" "pids_ok ls" "first_pass env s = Inr s'"
  shows "placed ls s'" "log s' = log s" "grouped ls (length ls) s'"
proof -
  let ?P = "\<lparr>pmach = s, last_pid = 0, start_line_number = 1, curr_line_number = 1,
    start_fpos = ftell (tracefile s), search_tree = []\<rparr>"
  have "Suc (length ls) < 2 ^ 64" using trace_text_length [of ls] assms(1,2) by (simp add: blank_def)
  moreover have "tracked ls 0 ?P"
    using assms(1,2) by (intro trackedI [of _ _ _ 0]) (simp_all add: blank_def placed_def gap_pos_def ftell_def
      grouped_def firsts_def)
  moreover have "first_pass_loop env ?P = Inr P' \<Longrightarrow> s' = pmach P'" for P'
    using assms(4) by (simp add: first_pass_def)
  moreover obtain P' where "first_pass_loop env ?P = Inr P'"
    using assms(4) by (auto simp: first_pass_def bnd_eq_Inr)
  ultimately have "placed ls s' \<and> log s' = log s \<and> grouped ls (length ls) s'"
    using tracked_loop [OF pass_inv_start [OF assms(1)] _ _ assms(3)] by fastforce
  then show "placed ls s'" "log s' = log s" "grouped ls (length ls) s'" by simp_all
qed

end
