(* ===== verification/SimulatorEnds.thy ===== *)
theory SimulatorEnds
  imports SimulatorInv
begin

text \<open>
  The simulation ends. Every turn either uses up a line of the trace or brings the machine
  closer to a turn that does: a page that the disk has brought in while no process was
  runnable is hit by the next line, and there are not enough processes to keep the disk busy
  with misses for as long as one disk access takes.
\<close>

section \<open>The waits of the blocked processes\<close>

definition wait_of :: "'r machine \<Rightarrow> paddr \<Rightarrow> nat" where
  "wait_of s b = (case procs s b of None \<Rightarrow> 0 | Some bp \<Rightarrow> unat (waitTime bp))"

definition waits_of :: "'r machine \<Rightarrow> nat list" where
  "waits_of s = map (wait_of s) (pq s BLOCKED)"

text \<open>Only the wait of the head runs; the others wait for the whole access.\<close>

fun waits_ok :: "nat list \<Rightarrow> bool" where
  "waits_ok [] = True"
| "waits_ok (w # ws) \<longleftrightarrow> 0 < w \<and> w \<le> unat DISK_PENALTY \<and> (\<forall>x \<in> set ws. x = unat DISK_PENALTY)"

definition ends_inv :: "'r machine \<Rightarrow> bool" where
  "ends_inv s \<longleftrightarrow> lines_wait s \<and> waits_ok (waits_of s) \<and> card (dom (procs s)) < unat DISK_PENALTY"

lemma unat_DISK_PENALTY [simp]: "unat DISK_PENALTY = 2000000"
  by (simp add: DISK_PENALTY_def)

lemma waits_of_cong:
  "pq s' BLOCKED = pq s BLOCKED \<Longrightarrow> (\<And>c. c \<in> set (pq s BLOCKED) \<Longrightarrow> procs s' c = procs s c) \<Longrightarrow> waits_of s' = waits_of s"
  by (simp add: waits_of_def wait_of_def)

lemma wait_of_other: "only_moves b s s' \<Longrightarrow> c \<noteq> b \<Longrightarrow> wait_of s' c = wait_of s c"
  by (simp add: wait_of_def only_moves_other)

lemma unat_dec: "(0 :: ul64) < w \<Longrightarrow> unat (w - 1) = unat w - 1"
  by (simp add: unat_minus_one word_gt_0)

lemma machine_sched: "machine_inv rinv s \<Longrightarrow> sched_ok (procs s) (pq s RUNNABLE) (pq s BLOCKED)"
  by (rule core_sched [OF machine_inv_core])

lemma machine_pid:
  "machine_inv rinv s \<Longrightarrow> procs s b = Some bp \<Longrightarrow> procs s c = Some cp \<Longrightarrow> c \<noteq> b \<Longrightarrow> pid cp \<noteq> pid bp"
  using sched_ok_pid [OF machine_sched] by metis

lemma machine_finite:
  assumes "machine_inv rinv s"
  shows "finite (dom (procs s))"
  using sched_ok_dom [OF machine_sched [OF assms]] by simp

lemma card_procs:
  assumes inv: "machine_inv rinv s"
  shows "card (dom (procs s)) = length (pq s RUNNABLE) + length (waits_of s)"
  using sched_ok_dom [OF machine_sched [OF inv]] distinct_card [OF sched_ok_distinct [OF machine_sched [OF inv]]]
  by (simp add: waits_of_def)

lemma ticked_proc:
  assumes "procs s p = Some pp" "p \<notin> set (pq s BLOCKED)"
  shows "procs (ticked s) p = Some pp"
  using assms by (auto simp: ticked_def tick_def split: list.split)

lemma ticked_other:
  assumes "procs (ticked s) c = Some cp"
  obtains cp1 where "procs s c = Some cp1" "cp = cp1 \<or> cp = cp1\<lparr>waitTime := waitTime cp1 - CLOCK_TICK\<rparr>"
  using assms by (auto simp: ticked_def tick_def split: list.splits if_splits)

lemma ticked_same:
  "pq (ticked s) = pq s" "tracefile (ticked s) = tracefile s" "ms (ticked s) = ms s"
  by (simp_all add: ticked_def tick_def split: list.split)

lemma ticked_dom: "dom (procs (ticked s)) = dom (procs s)"
  by (auto simp: ticked_def tick_def split: list.splits if_splits)

lemma ticked_waits:
  assumes inv: "machine_inv rinv s"
  shows "waits_of (ticked s) = (case waits_of s of [] \<Rightarrow> [] | w # ws \<Rightarrow> (w - 1) # ws)"
proof (cases "pq s BLOCKED")
  case (Cons b B)
  obtain bp where bp: "procs s b = Some bp" "status bp = BLOCKED"
    using machine_sched [OF inv] by (rule sched_ok_blocked [where p = b]) (use Cons in simp)
  then have "0 < waitTime bp"
    using core_proc [OF machine_inv_core [OF inv] bp(1)] by (simp add: proc_ok_def blocked_ok_def)
  moreover have "b \<notin> set B" using sched_ok_distinct [OF machine_sched [OF inv]] Cons by simp
  ultimately show ?thesis
    using bp(1) Cons by (simp add: waits_of_def wait_of_def ticked_def tick_def CLOCK_TICK_def unat_dec)
qed (simp add: waits_of_def ticked_same)

lemma ticked_lines_wait:
  assumes "lines_wait s"
  shows "lines_wait (ticked s)"
  unfolding lines_wait_def
proof (intro allI impI)
  fix b bp assume b: "procs (ticked s) b = Some bp" "status bp = BLOCKED"
  then obtain bp1 where "procs s b = Some bp1" "bp = bp1 \<or> bp = bp1\<lparr>waitTime := waitTime bp1 - CLOCK_TICK\<rparr>"
    by (elim ticked_other)
  moreover from this b(2) assms have "line_waits (tracefile s) (ms s) bp1" unfolding lines_wait_def by force
  ultimately show "line_waits (tracefile (ticked s)) (ms (ticked s)) bp"
    unfolding ticked_same by (auto elim: line_waits_cong)
qed

lemma ticked_work: "machine_work (ticked s) = machine_work s"
proof -
  have "work_left (the (procs (ticked s) c)) = work_left (the (procs s c))" if "c \<in> dom (procs s)" for c
  proof -
    have "c \<in> dom (procs (ticked s))" using that by (simp only: ticked_dom)
    then obtain cp where cp: "procs (ticked s) c = Some cp" by blast
    then obtain cp1 where "procs s c = Some cp1" "work_left cp = work_left cp1" by (elim ticked_other) auto
    with cp show ?thesis by simp
  qed
  then show ?thesis unfolding machine_work_def ticked_dom by (intro sum.cong) simp_all
qed

lemma head_wait:
  assumes inv: "machine_inv rinv s" and "waits_of s = w # ws"
  obtains b B bp where "pq s BLOCKED = b # B" "procs s b = Some bp" "w = unat (waitTime bp)" "status bp = BLOCKED"
    "head_due s \<longleftrightarrow> w = 1" "b \<notin> set B"
proof -
  obtain b B where B: "pq s BLOCKED = b # B" using assms by (cases "pq s BLOCKED") (auto simp: waits_of_def)
  obtain bp where bp: "procs s b = Some bp" "status bp = BLOCKED"
    using machine_sched [OF inv] by (rule sched_ok_blocked [where p = b]) (use B in simp)
  have w: "w = unat (waitTime bp)" using assms B bp(1) by (simp add: waits_of_def wait_of_def)
  moreover have "head_due s \<longleftrightarrow> w = 1"
    using B bp(1) word_unat_eq_iff [of "waitTime bp" 1] unfolding w by (simp add: head_due_def)
  moreover have "b \<notin> set B" using sched_ok_distinct [OF machine_sched [OF inv]] B by simp
  ultimately show thesis using B bp that by blast
qed

lemma runnable_head:
  assumes inv: "machine_inv rinv s" and "pq s RUNNABLE = p # q"
  obtains pp where "procs s p = Some pp" "procs (ticked s) p = Some pp" "p \<notin> set (pq s BLOCKED)"
    "\<forall>c cp. procs (ticked s) c = Some cp \<longrightarrow> c \<noteq> p \<longrightarrow> pid cp \<noteq> pid pp"
proof -
  obtain pp where pp: "procs s p = Some pp"
    using machine_sched [OF inv] by (rule sched_ok_runnable [where p = p]) (use assms in simp)
  moreover have p: "p \<notin> set (pq s BLOCKED)" using sched_ok_distinct [OF machine_sched [OF inv]] assms by auto
  moreover have "pid cp \<noteq> pid pp" if c: "procs (ticked s) c = Some cp" "c \<noteq> p" for c cp
  proof -
    obtain cp1 where "procs s c = Some cp1" "pid cp = pid cp1" using c(1) by (elim ticked_other) auto
    then show ?thesis using sched_ok_pid [OF machine_sched [OF inv] _ pp] c(2) by metis
  qed
  ultimately show thesis using that ticked_proc [OF pp p] by blast
qed

section \<open>The measure\<close>

text \<open>
  Between two turns that use up a line: no process is runnable and the disk is waited for; the
  only runnable process is about to hit; the runnable processes miss one after the other before
  the disk is done; the disk will be done before they have all missed.
\<close>

definition is_ready :: "'r machine \<Rightarrow> bool" where
  "is_ready s \<longleftrightarrow> (\<exists>p. pq s RUNNABLE = [p] \<and> ready_head p s \<and> \<not> head_due s)"

definition phase_of :: "nat \<Rightarrow> nat list \<Rightarrow> bool \<Rightarrow> nat" where
  "phase_of r ws ready =
     (if r = 0 then (if ws \<noteq> [] \<and> hd ws = 1 then 1 else 2)
      else if ready then 0
      else if ws = [] \<or> hd ws > r then 2 + r
      else 2 + unat DISK_PENALTY + hd ws)"

definition phase :: "'r machine \<Rightarrow> nat" where
  "phase s = phase_of (length (pq s RUNNABLE)) (waits_of s) (is_ready s)"

text \<open>A miss shortens the phase.\<close>

lemma phase_miss:
  assumes "waits_ok ws" "ws = [] \<or> hd ws \<noteq> 1" "Suc r < unat DISK_PENALTY"
    and "ws' = (case ws of [] \<Rightarrow> [] | w # t \<Rightarrow> (w - 1) # t) @ [unat DISK_PENALTY]"
  shows "phase_of r ws' ready' < phase_of (Suc r) ws False"
  using assms by (cases ws) (auto simp: phase_of_def)

text \<open>So does the end of a disk access.\<close>

lemma phase_resume:
  assumes "waits_ok (1 # ws)" "Suc r < unat DISK_PENALTY" "r = 0 \<Longrightarrow> ready'"
  shows "phase_of (Suc r) ws ready' < phase_of r (1 # ws) False"
  using assms by (cases ws) (auto simp: phase_of_def)

lemma waits_ok_miss:
  assumes "waits_ok ws" "ws = [] \<or> hd ws \<noteq> 1"
  shows "waits_ok ((case ws of [] \<Rightarrow> [] | w # t \<Rightarrow> (w - 1) # t) @ [unat DISK_PENALTY])"
    and "waits_ok (case ws of [] \<Rightarrow> [] | w # t \<Rightarrow> (w - 1) # t)"
  using assms by (cases ws; auto)+

lemma waits_ok_tl: "waits_ok (w # ws) \<Longrightarrow> waits_ok ws"
  by (cases ws) auto

definition gauge :: "'r sim \<Rightarrow> nat \<times> nat" where
  "gauge \<sigma> = (machine_work (mach \<sigma>), phase (mach \<sigma>))"

section \<open>Every turn shortens the rest\<close>

lemma ends_invD:
  assumes "ends_inv s"
  shows ends_lines: "lines_wait s" and ends_waits: "waits_ok (waits_of s)"
    and ends_card: "card (dom (procs s)) < 2000000"
  using assms by (simp_all add: ends_inv_def)

lemma ends_invI:
  assumes "lines_wait s'" "waits_ok (waits_of s')" "ends_inv s" "finite (dom (procs s))"
    and "dom (procs s') \<subseteq> dom (procs s)"
  shows "ends_inv s'"
  using assms card_mono [OF assms(4,5)] by (simp add: ends_inv_def)

lemma not_due: "\<not> head_due s \<Longrightarrow> machine_inv rinv s \<Longrightarrow> waits_of s = [] \<or> hd (waits_of s) \<noteq> 1"
  by (metis head_wait list.collapse)

lemma not_due_full: "machine_inv rinv s \<Longrightarrow> waits_ok (1 # waits_of s) \<Longrightarrow> \<not> head_due s"
  by (cases "waits_of s") (auto simp: head_due_def waits_of_def wait_of_def)

subsection \<open>The disk is done\<close>

lemma resume_ready:
  assumes "machine_inv rinv s" "machine_inv rinv s'" "lines_wait s" "resumed b s s'"
  shows "ready_head b s'"
proof -
  from assms(4) obtain bp v vp where b: "procs s b = Some bp" "waitingOnPage bp = Some v"
    "procs s' b = Some (bp\<lparr>waitTime := 0, waitingOnPage := None, status := RUNNABLE\<rparr>)"
    "ftell (tracefile s') = currentPos bp" "page_key (ms s') v = page_key (ms s) v"
    "vheap (ms s') v = Some vp" "inMemory vp" and B: "b \<in> set (pq s BLOCKED)" and "only_moves b s s'"
    unfolding resumed_def by force
  obtain st: "status bp = BLOCKED"
    using machine_sched [OF assms(1)] B by (rule sched_ok_blocked) (use b(1) in simp)
  then have "line_waits (tracefile s) (ms s) bp" using assms(3) b(1) unfolding lines_wait_def by blast
  then obtain k n f' where line: "page_key (ms s) v = Some (pid bp, n)"
    "fscanf True (fseek (tracefile s) (currentPos bp)) = (LPair k n, f')"
    using b(2) unfolding line_waits_def by auto
  have "fseek (tracefile s) (currentPos bp) = tracefile s'"
    using fseek_ftell [OF only_moves_file [OF \<open>only_moves b s s'\<close>, symmetric]] b(4) by simp
  moreover have "proc_ok (ms s) bp" using core_proc [OF machine_inv_core [OF assms(1)] b(1)] .
  then obtain ws where "pageTable bp = Val ws" "v \<in> set ws"
    using st b(2) unfolding proc_ok_def blocked_ok_def by auto
  ultimately show ?thesis
    using b line by (auto simp: ready_head_def ready_line_def page_key_Some)
qed

lemma resume_ends:
  assumes "machine_inv rinv s" "machine_inv rinv s'" "ends_inv s" "head_due s" "resumed b s s'"
  shows "ends_inv s'" "machine_work s' = machine_work s" "phase s' < phase s" "waits_of s = 1 # waits_of s'"
    "pq s RUNNABLE = [] \<Longrightarrow> is_ready s'"
proof -
  note inv = assms(1) and sched = machine_sched [OF assms(1)]
  from assms(5) obtain bp where b: "only_moves b s s'" "pq s BLOCKED = b # pq s' BLOCKED" "procs s b = Some bp"
    "pq s' RUNNABLE = place (procs s) b (currentPos bp) (pq s RUNNABLE)"
    "procs s' b = Some (bp\<lparr>waitTime := 0, waitingOnPage := None, status := RUNNABLE\<rparr>)"
    unfolding resumed_def by blast
  have notin: "b \<notin> set (pq s' BLOCKED)" using sched_ok_distinct [OF sched] b(2) by simp
  have "wait_of s b = 1" using assms(4) b(2,3) by (auto simp: head_due_def wait_of_def)
  moreover have "wait_of s' c = wait_of s c" if "c \<in> set (pq s' BLOCKED)" for c
    using notin that by (intro wait_of_other [OF b(1)]) auto
  ultimately show ws: "waits_of s = 1 # waits_of s'" using b(2) by (simp add: waits_of_def)
  have ok: "waits_ok (1 # waits_of s')" using ends_waits [OF assms(3)] ws by simp
  have "lines_wait s'"
    using ends_lines [OF assms(3)] b(1,3) machine_pid [OF inv b(3)]
    by (rule lines_wait_moves) (use b(5) in auto)
  then show "ends_inv s'"
    using waits_ok_tl [OF ok] assms(3) machine_finite [OF inv] only_moves_dom [OF b(1,3)] by (rule ends_invI)
  show "machine_work s' = machine_work s"
    using only_moves_stays [OF b(1) machine_finite [OF inv] b(3,5)] by simp
  let ?r = "length (pq s RUNNABLE)"
  have len: "length (pq s' RUNNABLE) = Suc ?r" using b(4) by simp
  have "Suc ?r < unat DISK_PENALTY"
    using ends_card [OF \<open>ends_inv s'\<close>] card_procs [OF assms(2)] len by simp
  moreover show ready: "is_ready s'" if "pq s RUNNABLE = []"
    using that b(4) resume_ready [OF inv assms(2) ends_lines [OF assms(3)] assms(5)]
      not_due_full [OF assms(2) ok] by (simp add: is_ready_def place_def)
  ultimately have "phase_of (Suc ?r) (waits_of s') (is_ready s') < phase_of ?r (1 # waits_of s') False"
    by (intro phase_resume [OF ok]) simp_all
  moreover have "\<not> is_ready s" using assms(4) by (simp add: is_ready_def)
  ultimately show "phase s' < phase s" by (simp add: phase_def len ws)
qed

subsection \<open>Nothing is runnable\<close>

lemma idle_ends:
  assumes "machine_inv rinv (mach \<sigma>)" "ends_inv (mach \<sigma>)" "\<not> head_due (mach \<sigma>)"
    and "pq (mach \<sigma>) RUNNABLE = []" "idled \<sigma> \<sigma>'"
  shows "ends_inv (mach \<sigma>')" "machine_work (mach \<sigma>') = machine_work (mach \<sigma>)" "phase (mach \<sigma>') < phase (mach \<sigma>)"
    "waits_of (mach \<sigma>') = 1 # tl (waits_of (mach \<sigma>))" "waits_of (mach \<sigma>) \<noteq> []"
    "time \<sigma>' = time \<sigma> + of_nat (hd (waits_of (mach \<sigma>)) - 1)"
proof -
  let ?s = "mach \<sigma>" and ?t = "mach \<sigma>'"
  note inv = assms(1) and sched = machine_sched [OF assms(1)]
  from assms(5) obtain b B bp where b: "pq ?s BLOCKED = b # B" "procs ?s b = Some bp" "pq ?t = pq ?s"
    "only_moves b ?s ?t" "ms ?t = ms ?s" "procs ?t b = Some (bp\<lparr>waitTime := 1\<rparr>)"
    "time \<sigma>' = time \<sigma> + (waitTime bp - 1)"
    unfolding idled_def by blast
  have notin: "b \<notin> set B" using sched_ok_distinct [OF sched] b(1) by simp
  have "wait_of ?t c = wait_of ?s c" if "c \<in> set B" for c
    using notin that by (intro wait_of_other [OF b(4)]) auto
  then show ws: "waits_of ?t = 1 # tl (waits_of ?s)" using b by (simp add: waits_of_def wait_of_def)
  show "waits_of ?s \<noteq> []" using b(1) by (simp add: waits_of_def)
  then have "0 < waitTime bp"
    using ends_waits [OF assms(2)] b(1,2) by (simp add: waits_of_def wait_of_def unat_gt_0 word_gt_0)
  then have "hd (waits_of ?s) - 1 = unat (waitTime bp - 1)"
    using b(1,2) unat_dec by (simp add: waits_of_def wait_of_def)
  then show "time \<sigma>' = time \<sigma> + of_nat (hd (waits_of ?s) - 1)" using b(7) by simp
  from \<open>waits_of ?s \<noteq> []\<close> have ok: "waits_ok (waits_of ?t)"
    using ends_waits [OF assms(2)] unfolding ws by (cases "waits_of ?s") auto
  have waits: "line_waits (tracefile ?t) (ms ?t) (bp\<lparr>waitTime := 1\<rparr>)" if "status bp = BLOCKED"
  proof (rule line_waits_cong)
    show "line_waits (tracefile ?s) (ms ?s) bp" using ends_lines [OF assms(2)] b(2) that unfolding lines_wait_def by blast
  qed (use b(5) only_moves_file [OF b(4)] in simp_all)
  have "lines_wait ?t"
    using ends_lines [OF assms(2)] b(4,2) machine_pid [OF inv b(2)]
    by (rule lines_wait_moves) (use waits b(6) in auto)
  then show "ends_inv ?t"
    using ok assms(2) machine_finite [OF inv] only_moves_dom [OF b(4,2)] by (rule ends_invI)
  show "machine_work ?t = machine_work ?s"
    using only_moves_stays [OF b(4) machine_finite [OF inv] b(2,6)] by simp
  have "hd (waits_of ?s) \<noteq> 1" using not_due [OF assms(3) inv] \<open>waits_of ?s \<noteq> []\<close> by simp
  then show "phase ?t < phase ?s" using assms(4) b(3) ws by (simp add: phase_def phase_of_def)
qed

subsection \<open>A line is read\<close>

lemma moved_waits:
  assumes "only_moves p s s'" "p \<notin> set ps"
  shows "map (wait_of s') ps = map (wait_of s) ps"
  using assms(2) by (intro map_cong refl wait_of_other [OF assms(1)]) auto

lemma hit_ends:
  assumes "machine_inv rinv s" "ends_inv s" "\<not> head_due s" "pq s RUNNABLE = p # q"
    and "progressed p (ticked s) s'"
  shows "ends_inv s'" "machine_work s = Suc (machine_work s')"
    "waits_of s' = (case waits_of s of [] \<Rightarrow> [] | w # ws \<Rightarrow> (w - 1) # ws)"
proof -
  note inv = assms(1)
  obtain pp where p: "procs s p = Some pp" "procs (ticked s) p = Some pp" "p \<notin> set (pq s BLOCKED)"
    "\<forall>c cp. procs (ticked s) c = Some cp \<longrightarrow> c \<noteq> p \<longrightarrow> pid cp \<noteq> pid pp"
    using inv assms(4) by (rule runnable_head)
  have others: "pid cp \<noteq> pid pp" if "procs (ticked s) c = Some cp" "c \<noteq> p" for c cp using p(4) that by blast
  have fin: "finite (dom (procs (ticked s)))" using machine_finite [OF inv] by (simp only: ticked_dom)
  from assms(5) p(2) have h: "only_moves p (ticked s) s'" "pq s' BLOCKED = pq s BLOCKED"
    "case procs s' p of None \<Rightarrow> work_left pp = 1
      | Some pp' \<Rightarrow> status pp' = RUNNABLE \<and> work_left pp = Suc (work_left pp')"
    by (simp_all add: progressed_def advanced_def ticked_same)
  have "waits_of s' = waits_of (ticked s)"
    using moved_waits [OF h(1) p(3)] h(2) by (simp add: waits_of_def ticked_same)
  then show "waits_of s' = (case waits_of s of [] \<Rightarrow> [] | w # ws \<Rightarrow> (w - 1) # ws)"
    by (simp only: ticked_waits [OF inv])
  then have "waits_ok (waits_of s')"
    using waits_ok_miss(2) [OF ends_waits [OF assms(2)] not_due [OF assms(3) inv]] by simp
  moreover have "lines_wait s'"
    using ticked_lines_wait [OF ends_lines [OF assms(2)]] h(1) p(2) others
    by (rule lines_wait_moves) (use h(3) in auto)
  moreover have "dom (procs s') \<subseteq> dom (procs s)"
    using only_moves_dom [OF h(1) p(2)] by (simp only: ticked_dom)
  ultimately show "ends_inv s'"
    using ends_invI [OF _ _ assms(2) machine_finite [OF inv]] by blast
  show "machine_work s = Suc (machine_work s')"
    using only_moves_gone [OF h(1) fin p(2)] only_moves_stays [OF h(1) fin p(2)] h(3)
    by (cases "procs s' p") (simp_all add: ticked_work)
qed

lemma ready_ticked:
  assumes "machine_inv rinv s" "is_ready s" "pq s RUNNABLE = p # q"
  shows "ready_head p (ticked s)"
proof -
  have "ready_head p s" "p \<in> set (pq s RUNNABLE)" using assms(2,3) by (auto simp: is_ready_def)
  moreover obtain pp where "procs s p = Some pp" "procs (ticked s) p = Some pp"
    using assms(1,3) by (rule runnable_head)
  ultimately show ?thesis by (simp add: ready_head_def ready_line_def ticked_same)
qed

lemma miss_ends:
  assumes "machine_inv rinv s" "ends_inv s" "\<not> head_due s" "pq s RUNNABLE = p # q"
    and "missed p (ticked s) s'" "\<not> ready_head p (ticked s)"
  shows "ends_inv s'" "machine_work s' = machine_work s" "phase s' < phase s"
    "waits_of s' = (case waits_of s of [] \<Rightarrow> [] | w # ws \<Rightarrow> (w - 1) # ws) @ [unat DISK_PENALTY]"
proof -
  note inv = assms(1)
  obtain pp where p: "procs s p = Some pp" "procs (ticked s) p = Some pp" "p \<notin> set (pq s BLOCKED)"
    "\<forall>c cp. procs (ticked s) c = Some cp \<longrightarrow> c \<noteq> p \<longrightarrow> pid cp \<noteq> pid pp"
    using inv assms(4) by (rule runnable_head)
  have others: "pid cp \<noteq> pid pp" if "procs (ticked s) c = Some cp" "c \<noteq> p" for c cp using p(4) that by blast
  have fin: "finite (dom (procs (ticked s)))" using machine_finite [OF inv] by (simp only: ticked_dom)
  from assms(5) p(2) obtain pp' where h: "only_moves p (ticked s) s'" "pq s RUNNABLE = p # pq s' RUNNABLE"
    "pq s' BLOCKED = pq s BLOCKED @ [p]" "procs s' p = Some pp'" "work_left pp' = work_left pp"
    "waitTime pp' = DISK_PENALTY" "line_waits (tracefile s') (ms s') pp'"
    by (auto simp: missed_def ticked_same)
  let ?ws = "(case waits_of s of [] \<Rightarrow> [] | w # t \<Rightarrow> (w - 1) # t) @ [unat DISK_PENALTY]"
  have "map (wait_of s') (pq s BLOCKED) = waits_of (ticked s)"
    using moved_waits [OF h(1) p(3)] by (simp add: waits_of_def ticked_same)
  moreover have "waits_of s' = map (wait_of s') (pq s BLOCKED) @ [unat DISK_PENALTY]"
    using h(3,4,6) by (simp add: waits_of_def wait_of_def [of s' p])
  ultimately show ws: "waits_of s' = ?ws" by (simp only: ticked_waits [OF inv])
  note due = not_due [OF assms(3) inv]
  have "waits_ok (waits_of s')" unfolding ws using waits_ok_miss(1) ends_waits [OF assms(2)] due by blast
  moreover have "lines_wait s'"
    using ticked_lines_wait [OF ends_lines [OF assms(2)]] h(1) p(2) others
    by (rule lines_wait_moves) (use h(4,7) in auto)
  moreover have "dom (procs s') \<subseteq> dom (procs s)"
    using only_moves_dom [OF h(1) p(2)] by (simp only: ticked_dom)
  ultimately show "ends_inv s'"
    using ends_invI [OF _ _ assms(2) machine_finite [OF inv]] by blast
  show "machine_work s' = machine_work s"
    using only_moves_stays [OF h(1) fin p(2) h(4)] h(5) by (simp add: ticked_work)
  let ?r = "length (pq s' RUNNABLE)"
  have len: "length (pq s RUNNABLE) = Suc ?r" using h(2) by simp
  have "Suc ?r < unat DISK_PENALTY" using ends_card [OF assms(2)] card_procs [OF inv] len by simp
  then have "phase_of ?r (waits_of s') (is_ready s') < phase_of (Suc ?r) (waits_of s) False"
    using phase_miss [OF ends_waits [OF assms(2)] due _ ws] by simp
  moreover have "\<not> is_ready s" using ready_ticked [OF inv _ assms(4)] assms(6) by blast
  ultimately show "phase s' < phase s" by (simp add: phase_def len)
qed

section \<open>The simulation ends\<close>

text \<open>
  What a turn does to the lines that are left, the counters, and the time: \<open>H\<close> hits, \<open>M\<close> misses,
  and \<open>k\<close> ticks in which the disk is idle.
\<close>

definition accounts :: "'r sim \<Rightarrow> 'r sim \<Rightarrow> nat \<Rightarrow> nat \<Rightarrow> nat \<Rightarrow> bool" where
  "accounts \<sigma> \<sigma>' H M k \<longleftrightarrow>
     machine_work (mach \<sigma>) = H + machine_work (mach \<sigma>') \<and> k \<le> H + M
     \<and> tmr (stats (mach \<sigma>')) = tmr (stats (mach \<sigma>)) + of_nat H
     \<and> tpi (stats (mach \<sigma>')) = tpi (stats (mach \<sigma>)) + of_nat M
     \<and> time \<sigma>' + of_nat (sum_list (waits_of (mach \<sigma>')))
       = time \<sigma> + of_nat (sum_list (waits_of (mach \<sigma>)) + 2000000 * M + k)"

text \<open>
  The misses whose line has not been read yet: the blocked processes, and the one that is about to
  hit. A process that is resumed while others are runnable may lose its page again.
\<close>

definition pending :: "'r machine \<Rightarrow> nat" where
  "pending s = length (waits_of s) + of_bool (is_ready s)"

lemma accounts_refl: "accounts \<sigma> \<sigma> 0 0 0"
  by (simp add: accounts_def)

lemma accounts_trans: "accounts \<sigma> \<sigma>1 H M k \<Longrightarrow> accounts \<sigma>1 \<sigma>2 H' M' k' \<Longrightarrow> accounts \<sigma> \<sigma>2 (H + H') (M + M') (k + k')"
  by (simp add: accounts_def algebra_simps)

lemma line_accounts:
  assumes "waits_ok ws" "ws' = (case ws of [] \<Rightarrow> [] | w # t \<Rightarrow> (w - 1) # t) @ replicate M (unat DISK_PENALTY)"
  shows "Suc (sum_list ws') = sum_list ws + 2000000 * M + (if ws = [] then 1 else 0)"
  using assms by (cases ws) (simp_all add: sum_list_replicate)

lemma turn_accounts:
  assumes "machine_inv rinv (mach \<sigma>)" "machine_inv rinv (mach \<sigma>')" "ends_inv (mach \<sigma>)" "turn \<sigma> \<sigma>'"
  obtains H M k where "ends_inv (mach \<sigma>')" "accounts \<sigma> \<sigma>' H M k" "H = 0 \<longrightarrow> phase (mach \<sigma>') < phase (mach \<sigma>)"
    "(head_due (mach \<sigma>) \<longrightarrow> pq (mach \<sigma>) RUNNABLE = []) \<longrightarrow> M + pending (mach \<sigma>) \<le> H + pending (mach \<sigma>')"
    "waits_of (mach \<sigma>) = [] \<or> pq (mach \<sigma>) RUNNABLE = [] \<longrightarrow> k = H + M"
    "H + M = of_bool (\<not> head_due (mach \<sigma>) \<and> pq (mach \<sigma>) RUNNABLE \<noteq> [])"
proof -
  let ?s = "mach \<sigma>" and ?t = "mach \<sigma>'"
  note ok = ends_waits [OF assms(3)]
  show thesis
  proof (cases "head_due ?s")
    case True
    with assms(4) have r: "resumed (hd (pq ?s BLOCKED)) ?s ?t" "time \<sigma>' = time \<sigma> + 1" by (simp_all add: turn_def)
    note e = resume_ends [OF assms(1-3) True r(1)]
    have "accounts \<sigma> \<sigma>' 0 0 0" using r e(2,4) by (simp add: accounts_def resumed_def)
    moreover have "\<not> is_ready ?s" using True by (simp add: is_ready_def)
    then have "pq ?s RUNNABLE = [] \<longrightarrow> pending ?s \<le> pending ?t" using e(4,5) by (simp add: pending_def)
    ultimately show thesis using e(1,3) True by (intro that [of 0 0 0]) simp_all
  next
    case due: False
    show thesis
    proof (cases "pq ?s RUNNABLE")
      case Nil
      with assms(4) due have i: "idled \<sigma> \<sigma>'" by (simp add: turn_def)
      note e = idle_ends [OF assms(1,3) due Nil i]
      obtain w ws where w: "waits_of ?s = w # ws" using e(5) by (cases "waits_of ?s") auto
      have "0 < w" using ok w by simp
      then have "(of_nat (w - 1) :: ul64) = of_nat w - 1" by (simp add: of_nat_diff)
      then have "accounts \<sigma> \<sigma>' 0 0 0" using i e(2,4,6) w by (auto simp: accounts_def idled_def)
      moreover have "\<not> is_ready ?s" using Nil by (simp add: is_ready_def)
      then have "pending ?s \<le> pending ?t" using e(4) w by (simp add: pending_def)
      ultimately show thesis using e(1,3) Nil by (intro that [of 0 0 0]) simp_all
    next
      case (Cons p q)
      with assms(4) due have time: "time \<sigma>' = time \<sigma> + 1" by (simp add: turn_def)
      have tick: "tmr (stats (ticked ?s)) = tmr (stats ?s)" "tpi (stats (ticked ?s)) = tpi (stats ?s)"
        by (simp_all add: ticked_def tick_def split: list.split)
      let ?k = "if waits_of ?s = [] then 1 else 0"
      consider (hit) "progressed p (ticked ?s) ?t" | (miss) "missed p (ticked ?s) ?t" "\<not> ready_head p (ticked ?s)"
        using assms(4) due Cons by (auto simp: turn_def)
      then show thesis
      proof cases
        case hit
        note e = hit_ends [OF assms(1,3) due Cons hit]
        have "Suc (sum_list (waits_of ?t)) = sum_list (waits_of ?s) + 2000000 * 0 + ?k"
          by (rule line_accounts [OF ok]) (simp add: e(3))
        then have "(1 :: ul64) + of_nat (sum_list (waits_of ?t)) = of_nat (sum_list (waits_of ?s) + 2000000 * 0 + ?k)"
          by (metis of_nat_Suc)
        then have "accounts \<sigma> \<sigma>' 1 0 ?k"
          using hit e(2) time tick by (simp add: accounts_def progressed_def)
        moreover have "pending ?s \<le> Suc (pending ?t)"
          using e(3) by (cases "waits_of ?s") (simp_all add: pending_def)
        ultimately show thesis using e(1) due Cons by (intro that [of 1 0 ?k]) simp_all
      next
        case miss
        note e = miss_ends [OF assms(1,3) due Cons miss]
        have "Suc (sum_list (waits_of ?t)) = sum_list (waits_of ?s) + 2000000 * 1 + ?k"
          by (rule line_accounts [OF ok]) (simp add: e(4))
        then have "(1 :: ul64) + of_nat (sum_list (waits_of ?t)) = of_nat (sum_list (waits_of ?s) + 2000000 * 1 + ?k)"
          by (metis of_nat_Suc)
        then have "accounts \<sigma> \<sigma>' 0 1 ?k"
          using miss e(2) time tick by (simp add: accounts_def missed_def)
        moreover have "\<not> is_ready ?s" using ready_ticked [OF assms(1) _ Cons] miss(2) by blast
        then have "Suc (pending ?s) \<le> pending ?t"
          using e(4) by (cases "waits_of ?s") (simp_all add: pending_def)
        ultimately show thesis using e(1,3) due Cons by (intro that [of 0 1 ?k]) simp_all
      qed
    qed
  qed
qed

lemma turn_gauge:
  assumes "machine_inv rinv (mach \<sigma>)" "machine_inv rinv (mach \<sigma>')" "ends_inv (mach \<sigma>)" "turn \<sigma> \<sigma>'"
  shows "ends_inv (mach \<sigma>')" "(gauge \<sigma>', gauge \<sigma>) \<in> less_than <*lex*> less_than"
proof -
  obtain H M k where t: "ends_inv (mach \<sigma>')" "accounts \<sigma> \<sigma>' H M k"
    "H = 0 \<longrightarrow> phase (mach \<sigma>') < phase (mach \<sigma>)"
    "(head_due (mach \<sigma>) \<longrightarrow> pq (mach \<sigma>) RUNNABLE = []) \<longrightarrow> M + pending (mach \<sigma>) \<le> H + pending (mach \<sigma>')"
    "waits_of (mach \<sigma>) = [] \<or> pq (mach \<sigma>) RUNNABLE = [] \<longrightarrow> k = H + M"
    "H + M = of_bool (\<not> head_due (mach \<sigma>) \<and> pq (mach \<sigma>) RUNNABLE \<noteq> [])"
    using assms by (rule turn_accounts)
  show "ends_inv (mach \<sigma>')" by (rule t(1))
  show "(gauge \<sigma>', gauge \<sigma>) \<in> less_than <*lex*> less_than"
    using t(2,3) by (cases "H = 0") (simp_all add: gauge_def accounts_def)
qed

context replacement_module
begin

theorem sim_loop_ends:
  assumes "machine_inv rinv (mach \<sigma>)" "ends_inv (mach \<sigma>)" "env_ok ops env"
  shows "\<exists>out. sim_loop env \<sigma> = Some out"
  using assms(1,2)
proof (induction \<sigma> rule: wf_induct_rule [OF wf_inv_image [OF wf_lex_prod [OF wf_less_than wf_less_than], where f = gauge]])
  case (1 \<sigma>)
  show ?case
  proof (cases "Simulator_notDone (mach \<sigma>)")
    case True
    from sim_step_ok [OF "1.prems"(1) True assms(3)] show ?thesis
    proof (elim disjE exE conjE)
      assume "sim_step env \<sigma> = Inl read_error"
      with True show ?thesis by (simp add: sim_loop.simps [of env \<sigma>])
    next
      fix \<sigma>' assume s: "sim_step env \<sigma> = Inr \<sigma>'" "machine_inv rinv (mach \<sigma>')" "turn \<sigma> \<sigma>'"
      note g = turn_gauge [OF "1.prems"(1) s(2) "1.prems"(2) s(3)]
      from g(2) have "(\<sigma>', \<sigma>) \<in> inv_image (less_than <*lex*> less_than) gauge" by simp
      then have "\<exists>out. sim_loop env \<sigma>' = Some out" using s(2) g(1) by (rule "1.IH")
      with True s(1) show ?thesis by (simp add: sim_loop.simps [of env \<sigma>])
    qed
  qed (simp add: sim_loop.simps [of env \<sigma>])
qed

end

text \<open>The machine that the first pass leaves, where no process is blocked yet.\<close>

lemma ends_inv_start:
  assumes "machine_inv rinv s" "pq s BLOCKED = []" "card (dom (procs s)) < 2000000"
  shows "ends_inv (mach (sim_start s))"
proof -
  have "status pp = RUNNABLE" if "procs s p = Some pp" for p pp
    using sched_ok_status [OF machine_sched [OF assms(1)] that] sched_ok_dom [OF machine_sched [OF assms(1)]]
      assms(2) that by (cases "p \<in> set (pq s RUNNABLE)") auto
  then have "lines_wait (mach (sim_start s))" by (auto simp: lines_wait_def sim_start_def)
  with assms(2,3) show ?thesis by (simp add: ends_inv_def sim_start_def waits_of_def)
qed

end
