(* ===== verification/Leaks.thy ===== *)
theory Leaks
  imports SimulatorEnds
begin

text \<open>
  What the simulation never frees: every line that is run looks its page up twice with success,
  and each time the page that serves as the query stays allocated. All other pages are in the
  table of a process, which frees them when it ends.
\<close>

section \<open>Pages in tables\<close>

lemma queries_id: "page_id m' = page_id m \<Longrightarrow> queries m' = queries m"
proof -
  have *: "queries m = {w. \<exists>x. page_id m w = Some (0, x)}" for m
    by (auto simp: queries_def page_id_def)
  show "page_id m' = page_id m \<Longrightarrow> queries m' = queries m" by (simp add: *)
qed

lemma managed_id:
  assumes "page_id m' = page_id m" "managed m' w \<noteq> None"
  shows "managed m w \<noteq> None"
proof -
  have *: "managed m w \<noteq> None \<longleftrightarrow> (\<exists>i x. page_id m w = Some (i, x) \<and> i \<noteq> 0)" for m
    by (auto simp: managed_def page_id_def split: option.splits)
  show ?thesis using assms by (simp only: *)
qed

definition tabled :: "mstate \<Rightarrow> (paddr \<Rightarrow> Process option) \<Rightarrow> bool" where
  "tabled m h \<longleftrightarrow> (\<forall>w. managed m w \<noteq> None \<longrightarrow> (\<exists>c cp ws. h c = Some cp \<and> pageTable cp = Val ws \<and> w \<in> set ws))"

lemma tabled_cong:
  assumes "tabled m h" "\<And>w. managed m' w \<noteq> None \<Longrightarrow> managed m w \<noteq> None"
    and "\<And>c cp. h c = Some cp \<Longrightarrow> \<exists>cp'. h' c = Some cp' \<and> pageTable cp' = pageTable cp"
  shows "tabled m' h'"
  using assms unfolding tabled_def by metis

lemma tabled_ticked: "tabled m (procs s) \<Longrightarrow> tabled m (procs (ticked s))"
  by (erule tabled_cong) (auto simp: ticked_def tick_def split: list.split)

text \<open>At the start there is no page, at the end only queries are left.\<close>

lemma no_pages:
  assumes "vheap m = (\<lambda>_. None)"
  shows "tabled m h" "queries m = {}"
  using assms by (simp_all add: tabled_def managed_def queries_def)

lemma tabled_over:
  assumes "tabled m (\<lambda>_. None)"
  shows "dom (vheap m) = queries m"
proof (rule set_eqI)
  fix w
  have "managed m w = None" using assms by (simp add: tabled_def)
  then show "w \<in> dom (vheap m) \<longleftrightarrow> w \<in> queries m"
    by (auto simp: managed_def queries_def split: option.splits if_splits)
qed

section \<open>A line\<close>

lemma serves_leaks:
  assumes "serves ops rinv p s s'" "only_moves p s s'" "tabled (ms s) (procs s)"
  shows "card (queries (ms s')) = card (queries (ms s)) + 2" "tabled (ms s') (procs s')"
proof -
  from assms(1) [unfolded serves_def] obtain pp m r v vp ws where pp: "procs s p = Some pp"
    and "vheap m v = Some vp" and leak: "leaks 2 (set ws) (ms s) m" and pok: "pages_ok m (pp\<lparr>pageTable := Val ws\<rparr>)"
    and adds: "table_adds m pp v ws"
    and line: "page_served ops m r v vp ws p s s'"
    by blast
  have other: "\<exists>c cp us. c \<noteq> p \<and> procs s' c = Some cp \<and> pageTable cp = Val us \<and> w \<in> set us"
    if "managed m w \<noteq> None" "w \<notin> set ws" for w
  proof -
    have "managed (ms s) w \<noteq> None" using leak that unfolding leaks_def by blast
    then obtain c cp us where c: "procs s c = Some cp" "pageTable cp = Val us" "w \<in> set us"
      using assms(3) unfolding tabled_def by blast
    then have "c \<noteq> p" using adds pp that(2) by (auto simp: table_adds_def)
    with c only_moves_other [OF assms(2)] show ?thesis by metis
  qed
  consider (stays) pp' where "ms s' = m" "procs s' p = Some pp'" "pageTable pp' = Val ws"
    | (ends) "procs s' p = None" "\<forall>w. vheap (ms s') w = (if w \<in> set ws then None else vheap m w)"
    using line unfolding page_served_def by (cases "procs s' p") (auto split: if_splits)
  then have "card (queries (ms s')) = card (queries (ms s)) + 2 \<and> tabled (ms s') (procs s')"
  proof cases
    case stays
    have "tabled m (procs s')"
      unfolding tabled_def
    proof (intro allI impI)
      fix w assume "managed m w \<noteq> None"
      with other stays(2,3) show "\<exists>c cp ws. procs s' c = Some cp \<and> pageTable cp = Val ws \<and> w \<in> set ws"
        by (cases "w \<in> set ws") blast+
    qed
    with stays(1) leak show ?thesis by (simp add: leaks_def)
  next
    case ends
    have "w \<notin> set ws" if "w \<in> queries m" for w
      using that pok by (fastforce simp: queries_def pages_ok_def page_key_Some)
    then have "queries (ms s') = queries m" using ends(2) by (auto simp: queries_def)
    moreover have "tabled (ms s') (procs s')"
      unfolding tabled_def
    proof (intro allI impI)
      fix w assume "managed (ms s') w \<noteq> None"
      then have "w \<notin> set ws" "managed m w \<noteq> None" using ends(2) by (auto simp: managed_def split: if_splits)
      with other show "\<exists>c cp ws. procs s' c = Some cp \<and> pageTable cp = Val ws \<and> w \<in> set ws" by blast
    qed
    ultimately show ?thesis using leak by (simp add: leaks_def)
  qed
  then show "card (queries (ms s')) = card (queries (ms s)) + 2" "tabled (ms s') (procs s')" by blast+
qed

section \<open>The turns\<close>

context replacement_module
begin

text \<open>The page that the disk delivers.\<close>

lemma delivered:
  assumes "machine_inv rinv s" "resumed b s s'" "delivers ops b s s'"
  obtains bp v ws vp where "only_moves b s s'" "procs s b = Some bp" "status bp = BLOCKED" "waitingOnPage bp = Some v"
    "procs s' b = Some (bp\<lparr>waitTime := 0, waitingOnPage := None, status := RUNNABLE\<rparr>)"
    "tpi (stats s') = tpi (stats s)" "pageTable bp = Val ws" "v \<in> set ws" "managed (ms s) v = Some vp" "\<not> inMemory vp"
    "page_in ops (Some v) (ms s) (rep s) = Inr (ms s', rep s')" "page_id (ms s') = page_id (ms s)"
    "length (memory (ms s')) = length (memory (ms s))"
proof -
  from assms(2) obtain bp v where b: "only_moves b s s'" "procs s b = Some bp" "waitingOnPage bp = Some v"
    "b \<in> set (pq s BLOCKED)" "procs s' b = Some (bp\<lparr>waitTime := 0, waitingOnPage := None, status := RUNNABLE\<rparr>)"
    "tpi (stats s') = tpi (stats s)"
    unfolding resumed_def by fastforce
  note core = machine_inv_core [OF assms(1)]
  have st: "status bp = BLOCKED"
    using machine_sched [OF assms(1)] b(4) by (rule sched_ok_blocked) (use b(2) in simp)
  have ok: "proc_ok (ms s) bp" using core_proc [OF core b(2)] .
  with st b(3) obtain ws vp where v: "pageTable bp = Val ws" "v \<in> set ws" "vheap (ms s) v = Some vp" "\<not> inMemory vp"
    unfolding proc_ok_def blocked_ok_def by auto
  then have m: "managed (ms s) v = Some vp"
    using ok by (fastforce simp: managed_Some page_key_Some proc_ok_def pages_ok_def)
  have run: "page_in ops (Some v) (ms s) (rep s) = Inr (ms s', rep s')"
    using assms(3) b(2,3) by (simp add: delivers_def)
  obtain s2 r2 and x :: ul64 where "page_in ops (Some v) (ms s) (rep s) = Inr (s2, r2)" "mem_inv s2" "rinv s2 r2"
    "frames s2 (unat x) = Some v" "page_id s2 = page_id (ms s)" "vnext s2 = vnext (ms s)" "zeroed s2 = zeroed (ms s)"
    "\<forall>i w. frames s2 i = Some w \<longrightarrow> w = v \<or> frames (ms s) i = Some w" "length (memory s2) = length (memory (ms s))"
    using core_mem [OF core] core_rinv [OF core] m v(4) by (rule page_in_ok)
  then show thesis using run by (intro that [OF b(1,2) st b(3,5,6) v(1,2) m v(4) run]) simp_all
qed

lemma turn_leaks:
  assumes "machine_inv rinv (mach \<sigma>)" "turn \<sigma> \<sigma>'" "serves_turn ops rinv \<sigma> \<sigma>'"
    and "tabled (ms (mach \<sigma>)) (procs (mach \<sigma>))"
  shows "card (queries (ms (mach \<sigma>'))) = card (queries (ms (mach \<sigma>)))
      + 2 * of_bool (\<not> head_due (mach \<sigma>) \<and> pq (mach \<sigma>) RUNNABLE \<noteq> [])" (is ?leak)
    and "tabled (ms (mach \<sigma>')) (procs (mach \<sigma>'))" (is ?tabled)
proof -
  let ?s = "mach \<sigma>" and ?t = "mach \<sigma>'"
  have "?leak \<and> ?tabled"
  proof (cases "head_due ?s")
    case True
    let ?b = "hd (pq ?s BLOCKED)"
    have "resumed ?b ?s ?t" "delivers ops ?b ?s ?t"
      using True assms(2,3) by (simp_all add: turn_def serves_turn_def)
    with assms(1) obtain bp v ws vp where d: "only_moves ?b ?s ?t" "procs ?s ?b = Some bp" "status bp = BLOCKED"
      "waitingOnPage bp = Some v" "procs ?t ?b = Some (bp\<lparr>waitTime := 0, waitingOnPage := None, status := RUNNABLE\<rparr>)"
      "tpi (stats ?t) = tpi (stats ?s)" "pageTable bp = Val ws" "v \<in> set ws" "managed (ms ?s) v = Some vp" "\<not> inMemory vp"
      "page_in ops (Some v) (ms ?s) (rep ?s) = Inr (ms ?t, rep ?t)" "page_id (ms ?t) = page_id (ms ?s)"
      "length (memory (ms ?t)) = length (memory (ms ?s))"
      by (rule delivered)
    have "tabled (ms ?t) (procs ?t)"
      using assms(4) managed_id [OF d(12)]
    proof (rule tabled_cong)
      fix c cp assume "procs ?s c = Some cp"
      then show "\<exists>cp'. procs ?t c = Some cp' \<and> pageTable cp' = pageTable cp"
        using d(2,5) only_moves_other [OF d(1), of c] by (cases "c = ?b") auto
    qed
    then show ?thesis using True queries_id [OF d(12)] by simp
  next
    case due: False
    show ?thesis
    proof (cases "pq ?s RUNNABLE")
      case Nil
      with assms(2) due have "idled \<sigma> \<sigma>'" by (simp add: turn_def)
      then obtain b bp where i: "procs ?s b = Some bp" "procs ?t b = Some (bp\<lparr>waitTime := 1\<rparr>)"
        "only_moves b ?s ?t" "ms ?t = ms ?s" unfolding idled_def by blast
      have "tabled (ms ?s) (procs ?t)"
        using assms(4)
      proof (rule tabled_cong)
        fix c cp assume "procs ?s c = Some cp"
        then show "\<exists>cp'. procs ?t c = Some cp' \<and> pageTable cp' = pageTable cp"
          using i(1,2) only_moves_other [OF i(3), of c] by (cases "c = b") auto
      qed simp
      with i(4) Nil show ?thesis by simp
    next
      case (Cons p q)
      let ?u = "sought (cur \<sigma>) p (ticked ?s)"
      have u: "ms ?u = ms ?s" "procs ?u = procs (ticked ?s)" "contents (tracefile ?u) = contents (tracefile (ticked ?s))"
        by (simp_all add: sought_def ticked_same fseek_def split: option.split)
      have "serves ops rinv p ?u ?t" using assms(3) due Cons by (simp add: serves_turn_def)
      moreover have "only_moves p (ticked ?s) ?t"
        using assms(2) due Cons by (auto simp: turn_def progressed_def advanced_def missed_def)
      then have "only_moves p ?u ?t" using u by (simp add: only_moves_def ticked_same)
      moreover have "tabled (ms ?u) (procs ?u)" using tabled_ticked [OF assms(4)] u by simp
      ultimately show ?thesis using serves_leaks [of ops rinv p ?u ?t] u(1) due Cons by simp
    qed
  qed
  then show ?leak ?tabled by blast+
qed

text \<open>A run, in lines, faults and queries.\<close>

lemma steps_account:
  assumes "steps env \<sigma> \<sigma>'" "env_ok ops env" "machine_inv rinv (mach \<sigma>)" "ends_inv (mach \<sigma>)"
    and "tabled (ms (mach \<sigma>)) (procs (mach \<sigma>))"
  shows "\<exists>H M k. accounts \<sigma> \<sigma>' H M k \<and> tabled (ms (mach \<sigma>')) (procs (mach \<sigma>'))
    \<and> card (queries (ms (mach \<sigma>'))) = card (queries (ms (mach \<sigma>))) + 2 * (H + M)"
  using assms
proof (induction rule: steps.induct)
  case (steps_refl \<sigma>)
  then show ?case using accounts_refl by fastforce
next
  case (steps_step \<sigma> \<sigma>1 \<sigma>2)
  from sim_step_ok [OF steps_step.prems(2) steps_step.hyps(1) steps_step.prems(1)] steps_step.hyps(2)
  have t: "machine_inv rinv (mach \<sigma>1)" "turn \<sigma> \<sigma>1" "serves_turn ops rinv \<sigma> \<sigma>1" by auto
  obtain H M k where a: "ends_inv (mach \<sigma>1)" "accounts \<sigma> \<sigma>1 H M k"
    "H = 0 \<longrightarrow> phase (mach \<sigma>1) < phase (mach \<sigma>)"
    "(head_due (mach \<sigma>) \<longrightarrow> pq (mach \<sigma>) RUNNABLE = []) \<longrightarrow> M + pending (mach \<sigma>) \<le> H + pending (mach \<sigma>1)"
    "waits_of (mach \<sigma>) = [] \<or> pq (mach \<sigma>) RUNNABLE = [] \<longrightarrow> k = H + M"
    "H + M = of_bool (\<not> head_due (mach \<sigma>) \<and> pq (mach \<sigma>) RUNNABLE \<noteq> [])"
    using steps_step.prems(2) t(1) steps_step.prems(3) t(2) by (rule turn_accounts)
  note l = turn_leaks [OF steps_step.prems(2) t(2,3) steps_step.prems(4)]
  obtain H' M' k' where b: "accounts \<sigma>1 \<sigma>2 H' M' k'" "tabled (ms (mach \<sigma>2)) (procs (mach \<sigma>2))"
    "card (queries (ms (mach \<sigma>2))) = card (queries (ms (mach \<sigma>1))) + 2 * (H' + M')"
    using steps_step.IH [OF steps_step.prems(1) t(1) a(1) l(2)] by blast
  have "card (queries (ms (mach \<sigma>2))) = card (queries (ms (mach \<sigma>))) + 2 * ((H + H') + (M + M'))"
    using b(3) l(1) a(6) by simp
  with accounts_trans [OF a(2) b(1)] b(2) show ?case by blast
qed

end

end
