(* ===== verification/Busy.thy ===== *)
theory Busy
  imports Simulator
begin

text \<open>
  The counter \<open>trp\<close> of the time in which a process is runnable: nothing but the tick changes it, and a
  turn adds one to it exactly when a process is runnable at its start.
\<close>

section \<open>Operations that leave the statistics alone\<close>

named_theorems stats_kept \<open>operations that leave the statistics alone\<close>

lemma upd_proc_stats [stats_kept]: "upd_proc p f s = Inr s' \<Longrightarrow> stats s' = stats s"
  by (auto simp: upd_proc_def bnd_eq_Inr)

lemma enqueue_stats [stats_kept]: "ProcessQueue_enqueue env p st s = Inr s' \<Longrightarrow> stats s' = stats s"
  by (auto simp: ProcessQueue_enqueue_def bnd_eq_Inr)

lemma switchStatus_stats [stats_kept]: "Process_switchStatus env a b s = Inr (q, s') \<Longrightarrow> stats s' = stats s"
  by (auto simp: Process_switchStatus_def bnd_eq_Inr split: list.splits dest!: stats_kept)

lemma on_pager_stats [stats_kept]: "on_pager f s = Inr (x, s') \<Longrightarrow> stats s' = stats s"
  by (auto simp: on_pager_def bnd_eq_Inr)

lemma getVirtualPage_stats [stats_kept]: "Process_getVirtualPage env p n s = Inr (v, s') \<Longrightarrow> stats s' = stats s"
  by (auto simp: Process_getVirtualPage_def bnd_eq_Inr dest!: stats_kept)

lemma allocVirtualPage_stats [stats_kept]: "Process_allocVirtualPage env p n s = Inr (v, s') \<Longrightarrow> stats s' = stats s"
  by (auto simp: Process_allocVirtualPage_def bnd_eq_Inr dest!: stats_kept)

lemma virtualPageInMemory_stats [stats_kept]:
  "Process_virtualPageInMemory env p n s = Inr (b, s') \<Longrightarrow> stats s' = stats s"
  by (auto simp: Process_virtualPageInMemory_def bnd_eq_Inr split: option.splits dest!: stats_kept)

lemma jump_stats [stats_kept]: "Process_jumpToNextInterval p s = Inr s' \<Longrightarrow> stats s' = stats s"
  by (auto simp: Process_jumpToNextInterval_def Let_def bnd_eq_Inr split: option.splits if_splits)

lemma quit_stats [stats_kept]: "Process_quit env p s = Inr s' \<Longrightarrow> stats s' = stats s"
  by (auto simp: Process_quit_def Process_free_def bnd_eq_Inr)

lemma seekSavedLine_stats [stats_kept]: "Simulator_seekSavedLine p s = Inr s' \<Longrightarrow> stats s' = stats s"
  by (auto simp: Simulator_seekSavedLine_def Let_def bnd_eq_Inr split: if_splits)

lemma finishCurrentDiskIO_stats [stats_kept]: "Simulator_finishCurrentDiskIO env s = Inr s' \<Longrightarrow> stats s' = stats s"
  by (auto simp: Simulator_finishCurrentDiskIO_def bnd_eq_Inr dest!: stats_kept)

lemma safelySwitchStatus_stats [stats_kept]:
  assumes run: "Simulator_safelySwitchStatus env p new fp s = Inr s'"
  shows "stats s' = stats s"
proof -
  obtain pp where pp: "deref (procs s) p = Inr pp"
    using run by (auto simp: Simulator_safelySwitchStatus_def bnd_eq_Inr)
  show ?thesis
    by (cases "status pp"; cases new)
      (use run pp in \<open>auto simp: Simulator_safelySwitchStatus_def Let_def bnd_eq_Inr split: if_splits dest!: stats_kept\<close>)
qed

lemma find_page_stats [stats_kept]: "find_page env p n s = Inr (v, s') \<Longrightarrow> stats s' = stats s"
  by (auto simp: find_page_def bnd_eq_Inr split: option.splits dest!: stats_kept)

lemma advance_stats [stats_kept]: "advance env p s = Inr (s', c) \<Longrightarrow> stats s' = stats s"
  by (auto simp: advance_def bnd_eq_Inr split: if_splits dest!: stats_kept)

lemma disk_done_stats [stats_kept]: "disk_done env s = Inr s' \<Longrightarrow> stats s' = stats s"
  by (auto simp: disk_done_def bnd_eq_Inr dest!: stats_kept)

section \<open>A turn\<close>

lemma hit_page_trp: "hit_page env v s = Inr s' \<Longrightarrow> trp (stats s') = trp (stats s)"
  by (auto simp: hit_page_def bnd_eq_Inr)

lemma miss_page_trp: "miss_page env p v fp s = Inr s' \<Longrightarrow> trp (stats s') = trp (stats s)"
  by (auto simp: miss_page_def bnd_eq_Inr dest!: stats_kept)

lemma run_line_trp:
  assumes run: "run_line env p s = Inr (s', c)"
  shows "trp (stats s') = trp (stats s)"
proof -
  obtain line f where "fscanf True (tracefile s) = (line, f)" by fastforce
  with run show ?thesis
    by (cases line) (auto simp: run_line_def Let_def bnd_eq_Inr split: if_splits
      dest!: stats_kept hit_page_trp miss_page_trp)
qed

lemma tick_trp: "trp (stats (tick n s)) = trp (stats s) + of_bool (pq s RUNNABLE \<noteq> []) * n"
  by (simp add: tick_def Stat_default_def Process_existsWithStatus_def)

lemma tick_pq [simp]: "pq (tick n s) = pq s"
  by (simp add: tick_def)

lemma upd_proc_pq: "upd_proc p f s = Inr s' \<Longrightarrow> pq s' = pq s"
  by (auto simp: upd_proc_def bnd_eq_Inr)

lemma skip_wait_trp:
  assumes "skip_wait \<sigma> = Inr \<sigma>'" "pq (mach \<sigma>) RUNNABLE = []"
  shows "trp (stats (mach \<sigma>')) = trp (stats (mach \<sigma>))"
  using assms by (auto simp: skip_wait_def Let_def bnd_eq_Inr tick_trp dest!: stats_kept)

lemma run_head_trp: "run_head env \<sigma> = Inr \<sigma>' \<Longrightarrow> trp (stats (mach \<sigma>')) = trp (stats (mach \<sigma>))"
  by (auto simp: run_head_def bnd_eq_Inr split: if_splits dest!: stats_kept run_line_trp)

lemma sim_step_trp:
  assumes "sim_step env \<sigma> = Inr \<sigma>'"
  shows "trp (stats (mach \<sigma>')) = trp (stats (mach \<sigma>)) + of_bool (pq (mach \<sigma>) RUNNABLE \<noteq> [])"
proof -
  let ?s = "tick CLOCK_TICK (mach \<sigma>)" and ?\<sigma> = "\<sigma>\<lparr>mach := tick CLOCK_TICK (mach \<sigma>), time := time \<sigma> + CLOCK_TICK\<rparr>"
  let ?rest = "\<lambda>s1 ready. if ready then bnd (disk_done env s1) (\<lambda>s2. Inr (?\<sigma>\<lparr>mach := s1, mach := s2\<rparr>))
    else if \<not> Process_existsWithStatus RUNNABLE s1 then skip_wait (?\<sigma>\<lparr>mach := s1\<rparr>) else run_head env (?\<sigma>\<lparr>mach := s1\<rparr>)"
  obtain s1 ready where s1: "stats s1 = stats ?s" "pq s1 = pq (mach \<sigma>)" and rest: "?rest s1 ready = Inr \<sigma>'"
  proof (cases "Process_peek BLOCKED ?s")
    case None
    with assms show thesis by (intro that [of ?s False]) (simp_all add: sim_step_def Let_def)
  next
    case (Some b)
    with assms obtain s1 bp where u: "upd_proc b (\<lambda>bp. bp\<lparr>waitTime := waitTime bp - CLOCK_TICK\<rparr>) ?s = Inr s1"
      "deref (procs s1) b = Inr bp"
      by (auto simp: sim_step_def Let_def bnd_eq_Inr)
    have "?rest s1 (waitTime bp = 0) = Inr \<sigma>'" using assms Some u by (simp add: sim_step_def Let_def)
    then show thesis using upd_proc_stats [OF u(1)] upd_proc_pq [OF u(1)] by (intro that [of s1 "waitTime bp = 0"]) simp_all
  qed
  have "trp (stats (mach \<sigma>')) = trp (stats s1)"
  proof (cases ready)
    case True
    with rest obtain s2 where "disk_done env s1 = Inr s2" "mach \<sigma>' = s2" by (auto simp: bnd_eq_Inr)
    then show ?thesis using disk_done_stats by metis
  next
    case False
    with rest show ?thesis
      using skip_wait_trp [of "?\<sigma>\<lparr>mach := s1\<rparr>" \<sigma>'] run_head_trp [of env "?\<sigma>\<lparr>mach := s1\<rparr>" \<sigma>']
      by (cases "pq s1 RUNNABLE = []") (simp_all add: Process_existsWithStatus_def)
  qed
  then show ?thesis by (simp add: s1 tick_trp CLOCK_TICK_def)
qed

end
