(* ===== verification/OnTrack.thy ===== *)
theory OnTrack
  imports TraceRuns Leaks Busy
begin

text \<open>
  Short traces: when the trace has fewer lines than half the ticks of a disk access, no disk
  access ends while a process is runnable, the file always stands at a line of the process that
  reads, and the simulation cannot fail.
\<close>

section \<open>The disk is slower than the trace\<close>

definition calm :: "'r machine \<Rightarrow> bool" where
  "calm s \<longleftrightarrow> machine_work s + card (dom (procs s)) < unat DISK_PENALTY
     \<and> (pq s RUNNABLE \<noteq> [] \<longrightarrow> waits_of s \<noteq> [] \<longrightarrow> machine_work s + length (pq s RUNNABLE) < hd (waits_of s))"

lemma calm_due:
  assumes "calm s" "machine_inv rinv s" "head_due s"
  shows "pq s RUNNABLE = []"
proof (rule ccontr)
  assume run: "pq s RUNNABLE \<noteq> []"
  obtain w ws where w: "waits_of s = w # ws"
    using assms(3) by (cases "waits_of s") (auto simp: head_due_def waits_of_def)
  obtain b B bp where "head_due s \<longleftrightarrow> w = 1" using assms(2) w by (rule head_wait)
  with assms(1,3) run w show False by (simp add: calm_def)
qed

lemma calm_turn:
  assumes "machine_inv rinv (mach \<sigma>)" "machine_inv rinv (mach \<sigma>')" "ends_inv (mach \<sigma>)" "turn \<sigma> \<sigma>'" "calm (mach \<sigma>)"
  shows "calm (mach \<sigma>')"
proof -
  let ?s = "mach \<sigma>" and ?t = "mach \<sigma>'"
  note ok = ends_waits [OF assms(3)]
  note card = card_procs [OF assms(1)] card_procs [OF assms(2)]
  have total: "machine_work ?s + card (dom (procs ?s)) < 2000000" using assms(5) by (simp add: calm_def)
  show ?thesis
  proof (cases "head_due ?s")
    case True
    with assms(4) have r: "resumed (hd (pq ?s BLOCKED)) ?s ?t" by (simp add: turn_def)
    note e = resume_ends [OF assms(1-3) True r]
    have "pq ?s RUNNABLE = []" using calm_due assms(5,1) True by blast
    then have "length (pq ?t RUNNABLE) = 1" using r by (auto simp: resumed_def)
    moreover have "hd (waits_of ?t) = 2000000" if "waits_of ?t \<noteq> []"
      using ok that unfolding e(4) by (cases "waits_of ?t") auto
    ultimately show ?thesis using total card e(2,4) \<open>pq ?s RUNNABLE = []\<close> by (simp add: calm_def)
  next
    case due: False
    show ?thesis
    proof (cases "pq ?s RUNNABLE")
      case Nil
      with assms(4) due have i: "idled \<sigma> \<sigma>'" by (simp add: turn_def)
      note e = idle_ends [OF assms(1,3) due Nil i]
      have "pq ?t RUNNABLE = []" using i Nil by (auto simp: idled_def)
      with total card e(2,4,5) Nil show ?thesis by (cases "waits_of ?s") (simp_all add: calm_def)
    next
      case (Cons p q)
      then have fast: "waits_of ?s \<noteq> [] \<Longrightarrow> machine_work ?s + length (pq ?s RUNNABLE) < hd (waits_of ?s)"
        using assms(5) by (simp add: calm_def)
      consider (hit) "progressed p (ticked ?s) ?t" | (miss) "missed p (ticked ?s) ?t" "\<not> ready_head p (ticked ?s)"
        using assms(4) due Cons by (auto simp: turn_def)
      then show ?thesis
      proof cases
        case hit
        note e = hit_ends [OF assms(1,3) due Cons hit]
        obtain pp where pp: "procs (ticked ?s) p = Some pp" using assms(1) Cons by (rule runnable_head)
        have "only_moves p (ticked ?s) ?t" using hit by (simp add: progressed_def advanced_def)
        then have "dom (procs ?t) \<subseteq> dom (procs ?s)" using only_moves_dom [OF _ pp] by (simp add: ticked_dom)
        then have "card (dom (procs ?t)) \<le> card (dom (procs ?s))" using machine_finite [OF assms(1)] by (simp add: card_mono)
        then have "length (pq ?t RUNNABLE) \<le> length (pq ?s RUNNABLE)"
          using card e(3) by (cases "waits_of ?s") simp_all
        with \<open>card (dom (procs ?t)) \<le> _\<close> total e(2,3) fast show ?thesis
          by (cases "waits_of ?s") (auto simp: calm_def)
      next
        case miss
        note e = miss_ends [OF assms(1,3) due Cons miss]
        have len: "length (pq ?s RUNNABLE) = Suc (length (pq ?t RUNNABLE))"
          using miss(1) by (simp add: missed_def ticked_same)
        moreover from this have "card (dom (procs ?t)) = card (dom (procs ?s))"
          using card e(4) by (cases "waits_of ?s") simp_all
        ultimately show ?thesis using total card e(2,4) fast by (cases "waits_of ?s") (auto simp: calm_def)
      qed
    qed
  qed
qed

section \<open>The file stands at the line that is read\<close>

definition on_track :: "(ul64 \<times> ul64) list \<Rightarrow> 'r sim \<Rightarrow> bool" where
  "on_track ls \<sigma> \<longleftrightarrow> contents (tracefile (mach \<sigma>)) = trace_text ls
     \<and> (\<forall>p pp. procs (mach \<sigma>) p = Some pp \<longrightarrow> has_lines ls pp
          \<and> at_line ls pp (if cur \<sigma> = Some p \<and> (\<exists>q. pq (mach \<sigma>) RUNNABLE = p # q)
              then ftell (tracefile (mach \<sigma>)) else currentPos pp))"

lemma on_trackI:
  assumes "contents (tracefile (mach \<sigma>)) = trace_text ls"
    and "\<And>p pp. procs (mach \<sigma>) p = Some pp \<Longrightarrow> has_lines ls pp"
    and "\<And>p pp. procs (mach \<sigma>) p = Some pp \<Longrightarrow> cur \<sigma> = Some p \<Longrightarrow> \<exists>q. pq (mach \<sigma>) RUNNABLE = p # q \<Longrightarrow>
      at_line ls pp (ftell (tracefile (mach \<sigma>)))"
    and "\<And>p pp. procs (mach \<sigma>) p = Some pp \<Longrightarrow> cur \<sigma> \<noteq> Some p \<or> (\<nexists>q. pq (mach \<sigma>) RUNNABLE = p # q) \<Longrightarrow>
      at_line ls pp (currentPos pp)"
  shows "on_track ls \<sigma>"
  using assms unfolding on_track_def by simp

lemma on_trackD:
  assumes "on_track ls \<sigma>"
  shows track_file: "contents (tracefile (mach \<sigma>)) = trace_text ls"
    and track_lines: "\<And>p pp. procs (mach \<sigma>) p = Some pp \<Longrightarrow> has_lines ls pp"
    and track_head: "\<And>p pp q. procs (mach \<sigma>) p = Some pp \<Longrightarrow> cur \<sigma> = Some p \<Longrightarrow> pq (mach \<sigma>) RUNNABLE = p # q \<Longrightarrow>
      at_line ls pp (ftell (tracefile (mach \<sigma>)))"
    and track_other: "\<And>p pp. procs (mach \<sigma>) p = Some pp \<Longrightarrow> cur \<sigma> \<noteq> Some p \<or> (\<nexists>q. pq (mach \<sigma>) RUNNABLE = p # q) \<Longrightarrow>
      at_line ls pp (currentPos pp)"
  using assms unfolding on_track_def by (blast, blast, force, force)

lemma place_of_upd [simp]:
  "has_lines ls (pp\<lparr>waitTime := w\<rparr>) = has_lines ls pp" "at_line ls (pp\<lparr>waitTime := w\<rparr>) = at_line ls pp"
  "has_lines ls (pp\<lparr>waitingOnPage := v\<rparr>) = has_lines ls pp" "at_line ls (pp\<lparr>waitingOnPage := v\<rparr>) = at_line ls pp"
  "has_lines ls (pp\<lparr>status := st\<rparr>) = has_lines ls pp" "at_line ls (pp\<lparr>status := st\<rparr>) = at_line ls pp"
  by (simp_all add: has_lines_def at_line_def fun_eq_iff)

lemma track_idled:
  assumes "on_track ls \<sigma>" "idled \<sigma> \<sigma>'"
  shows "on_track ls \<sigma>'"
proof -
  from assms(2) obtain b bp where b: "procs (mach \<sigma>) b = Some bp" "procs (mach \<sigma>') b = Some (bp\<lparr>waitTime := 1\<rparr>)"
    "only_moves b (mach \<sigma>) (mach \<sigma>')" and same: "tracefile (mach \<sigma>') = tracefile (mach \<sigma>)" "cur \<sigma>' = cur \<sigma>"
      "pq (mach \<sigma>') = pq (mach \<sigma>)"
    unfolding idled_def by blast
  have "\<exists>cp1. procs (mach \<sigma>) c = Some cp1 \<and> (cp = cp1 \<or> cp = cp1\<lparr>waitTime := 1\<rparr>)" if "procs (mach \<sigma>') c = Some cp" for c cp
    using that b(1,2) only_moves_other [OF b(3), of c] by (cases "c = b") auto
  with assms(1) same show ?thesis unfolding on_track_def by fastforce
qed

lemma track_resumed:
  assumes "on_track ls \<sigma>" "resumed b (mach \<sigma>) (mach \<sigma>')" "pq (mach \<sigma>) RUNNABLE = []"
  shows "on_track ls \<sigma>'"
proof -
  from assms(2) obtain bp where b: "only_moves b (mach \<sigma>) (mach \<sigma>')" "procs (mach \<sigma>) b = Some bp"
    "pq (mach \<sigma>') RUNNABLE = [b]" "procs (mach \<sigma>') b = Some (bp\<lparr>waitTime := 0, waitingOnPage := None, status := RUNNABLE\<rparr>)"
    "ftell (tracefile (mach \<sigma>')) = currentPos bp"
    using assms(3) unfolding resumed_def place_def by auto
  have old: "has_lines ls cp" "at_line ls cp (currentPos cp)" if "procs (mach \<sigma>) c = Some cp" for c cp
    using track_lines [OF assms(1) that] track_other [OF assms(1) that] assms(3) by simp_all
  show ?thesis
  proof (rule on_trackI)
    show "contents (tracefile (mach \<sigma>')) = trace_text ls"
      using only_moves_file [OF b(1)] track_file [OF assms(1)] by simp
    fix c cp assume c: "procs (mach \<sigma>') c = Some cp"
    then have "has_lines ls cp \<and> at_line ls cp (currentPos cp) \<and> (c = b \<longrightarrow> currentPos cp = ftell (tracefile (mach \<sigma>')))"
      using old [of c] old [OF b(2)] b(4,5) only_moves_other [OF b(1), of c] by (cases "c = b") auto
    then show "has_lines ls cp" "at_line ls cp (currentPos cp)" "\<exists>q. pq (mach \<sigma>') RUNNABLE = c # q \<Longrightarrow>
        at_line ls cp (ftell (tracefile (mach \<sigma>')))" using b(3) by auto
  qed
qed

text \<open>The line that the head of the run queue reads is its own.\<close>

lemma track_sought:
  assumes "on_track ls \<sigma>" "machine_inv rinv (mach \<sigma>)" "pq (mach \<sigma>) RUNNABLE = p # q" "procs (mach \<sigma>) p = Some pp"
  shows "contents (tracefile (sought (cur \<sigma>) p (ticked (mach \<sigma>)))) = trace_text ls"
    and "at_line ls pp (ftell (tracefile (sought (cur \<sigma>) p (ticked (mach \<sigma>)))))"
    and "fscanf True (tracefile (sought (cur \<sigma>) p (ticked (mach \<sigma>)))) = (LPair (pid pp) (snd (ls ! (unat (currentline pp) - 1))),
      \<lparr>contents = trace_text ls, offset = line_pos ls (unat (currentline pp))\<rparr>)"
proof -
  let ?f = "tracefile (sought (cur \<sigma>) p (ticked (mach \<sigma>)))"
  have "p \<notin> set (pq (mach \<sigma>) BLOCKED)"
    using sched_ok_distinct [OF machine_sched [OF assms(2)]] assms(3) by auto
  then have "procs (ticked (mach \<sigma>)) p = Some pp" by (rule ticked_proc [OF assms(4)])
  then have f: "?f = (if cur \<sigma> = Some p then tracefile (mach \<sigma>) else fseek (tracefile (mach \<sigma>)) (currentPos pp))"
    by (simp add: sought_def ticked_same)
  then show c: "contents ?f = trace_text ls" using track_file [OF assms(1)] by (simp add: fseek_def)
  show at: "at_line ls pp (ftell ?f)"
    using f track_head [OF assms(1,4) _ assms(3)] track_other [OF assms(1,4)] by (simp add: fseek_def ftell_def)
  have "lines_ok pp" using core_proc [OF machine_inv_core [OF assms(2)] assms(4)] by (simp add: proc_ok_def)
  then have "fscanf True ?f = (LPair (pid pp) (snd (ls ! (unat (currentline pp) - 1))),
      ?f\<lparr>offset := line_pos ls (unat (currentline pp))\<rparr>)"
    by (rule read_own_line [OF track_lines [OF assms(1,4)] _ at c])
  moreover have "?f\<lparr>offset := x\<rparr> = \<lparr>contents = trace_text ls, offset = x\<rparr>" for x using c by (cases ?f) simp
  ultimately show "fscanf True ?f = (LPair (pid pp) (snd (ls ! (unat (currentline pp) - 1))),
      \<lparr>contents = trace_text ls, offset = line_pos ls (unat (currentline pp))\<rparr>)"
    by (simp only:)
qed

lemma lands_track:
  assumes "lands pp \<lparr>contents = trace_text ls, offset = line_pos ls (unat (currentline pp))\<rparr> (p # q) p s' c"
    and "procs s' p = Some pp'" "has_lines ls pp" "lines_ok pp'"
  shows "has_lines ls pp'" "c = Some p"
    and "at_line ls pp' (ftell (tracefile s'))" "at_line ls pp' (currentPos pp') \<or> pq s' RUNNABLE = p # q"
proof -
  let ?c = "it_chain (lineIntervals pp)"
  from assms(1,2) have c: "c = Some p" "lineIntervals pp' = lineIntervals pp" "pid pp' = pid pp" by (simp_all add: lands_def)
  show "c = Some p" by (rule c(1))
  have own: "\<forall>x \<in> set ?c. own_lines ls (pid pp) x" using assms(3) by (simp add: has_lines_def)
  from assms(1,2) consider (more) "currInterval pp' = currInterval pp" "currentline pp' = currentline pp + 1"
      "currentline pp < fst (snd (?c ! currInterval pp))" "offset (tracefile s') = line_pos ls (unat (currentline pp))"
      "pq s' RUNNABLE = p # q"
    | (jump) h where "currInterval pp' = Suc (currInterval pp)" "ftell (tracefile s') = currentPos pp'"
      "?c ! Suc (currInterval pp) = (currentline pp', h, Val (currentPos pp'))"
    by (auto simp: lands_def)
  then have "has_lines ls pp' \<and> at_line ls pp' (ftell (tracefile s'))
    \<and> (at_line ls pp' (currentPos pp') \<or> pq s' RUNNABLE = p # q)"
  proof cases
    case more
    have "unat (currentline pp') = Suc (unat (currentline pp))" unfolding more(2) using more(3) by (rule unat_plus_one_less)
    then have "at_line ls pp' (ftell (tracefile s'))" "currentline pp \<le> currentline pp'"
      using more(4) by (simp_all add: at_line_def ftell_def word_le_nat_alt)
    with more(1,5) c own assms(3) show ?thesis by (auto simp: has_lines_def)
  next
    case jump
    have "Suc (currInterval pp) < length ?c" using assms(4) jump(1) c(2) by (simp add: lines_ok_def)
    then have "own_lines ls (pid pp) (currentline pp', h, Val (currentPos pp'))" using own jump(3) by (metis nth_mem)
    with jump c own show ?thesis by (auto simp: has_lines_def at_line_def own_lines_def)
  qed
  then show "has_lines ls pp'" "at_line ls pp' (ftell (tracefile s'))"
    "at_line ls pp' (currentPos pp') \<or> pq s' RUNNABLE = p # q" by simp_all
qed

lemma track_line:
  assumes "on_track ls \<sigma>" "machine_inv rinv (mach \<sigma>)" "machine_inv rinv (mach \<sigma>')" "pq (mach \<sigma>) RUNNABLE = p # q"
    and "only_moves p (ticked (mach \<sigma>)) (mach \<sigma>')"
    and "reads_line p (sought (cur \<sigma>) p (ticked (mach \<sigma>))) (mach \<sigma>') (cur \<sigma>')"
  shows "on_track ls \<sigma>'" "log (mach \<sigma>') = log (mach \<sigma>)"
proof -
  let ?s = "mach \<sigma>" and ?t = "mach \<sigma>'" and ?u = "sought (cur \<sigma>) p (ticked (mach \<sigma>))"
  obtain pp where pp: "procs ?s p = Some pp" "procs (ticked ?s) p = Some pp" using assms(2,4) by (rule runnable_head)
  note so = track_sought [OF assms(1,2,4) pp(1)]
  have u: "procs ?u p = Some pp" "log ?u = log ?s" "pq ?u = pq ?s"
    using pp(2) by (simp_all add: sought_def ticked_same) (simp add: ticked_def tick_def split: list.split)
  with so(3) assms(6) u assms(4) have log: "log ?t = log ?s"
    and moved: "lands pp \<lparr>contents = trace_text ls, offset = line_pos ls (unat (currentline pp))\<rparr> (p # q) p ?t (cur \<sigma>')
      \<or> stalls pp (ftell (tracefile ?u)) p ?t (cur \<sigma>')"
    unfolding reads_line_def by auto
  show "log ?t = log ?s" by (rule log)
  have hl: "has_lines ls pp" using track_lines [OF assms(1) pp(1)] .
  have cont: "contents (tracefile ?t) = trace_text ls"
    using only_moves_file [OF assms(5)] track_file [OF assms(1)] by (simp add: ticked_same)
  have other: "has_lines ls cp \<and> at_line ls cp (currentPos cp)" if c: "procs ?t c = Some cp" "c \<noteq> p" for c cp
  proof -
    have "procs (ticked ?s) c = Some cp" using only_moves_other [OF assms(5) c(2)] c(1) by simp
    then obtain cp1 where cp1: "procs ?s c = Some cp1" "cp = cp1 \<or> cp = cp1\<lparr>waitTime := waitTime cp1 - CLOCK_TICK\<rparr>"
      by (rule ticked_other)
    then show ?thesis
      using track_lines [OF assms(1) cp1(1)] track_other [OF assms(1) cp1(1)] assms(4) c(2) by auto
  qed
  have own: "has_lines ls pp' \<and> (if cur \<sigma>' = Some p \<and> (\<exists>q. pq ?t RUNNABLE = p # q)
      then at_line ls pp' (ftell (tracefile ?t)) else at_line ls pp' (currentPos pp')) \<and> cur \<sigma>' = Some p" if "procs ?t p = Some pp'" for pp'
    using moved
  proof
    assume l: "lands pp \<lparr>contents = trace_text ls, offset = line_pos ls (unat (currentline pp))\<rparr> (p # q) p ?t (cur \<sigma>')"
    have "lines_ok pp'" using core_proc [OF machine_inv_core [OF assms(3)] that] by (simp add: proc_ok_def)
    from lands_track [OF l that hl this] show ?thesis by auto
  next
    assume "stalls pp (ftell (tracefile ?u)) p ?t (cur \<sigma>')"
    with that have "lineIntervals pp' = lineIntervals pp" "pid pp' = pid pp" "currInterval pp' = currInterval pp"
      "currentline pp' = currentline pp" "currentPos pp' = ftell (tracefile ?u)" "p \<notin> set (pq ?t RUNNABLE)" "cur \<sigma>' = Some p"
      by (auto simp: stalls_def)
    with hl so(2) show ?thesis by (auto simp: has_lines_def at_line_def)
  qed
  have "cur \<sigma>' \<noteq> Some c" if "c \<noteq> p" for c
    using moved that by (auto simp: lands_def stalls_def split: option.splits)
  then show "on_track ls \<sigma>'"
    using cont other own by (intro on_trackI) (metis, metis, metis, metis)
qed

lemma track_turn:
  assumes "on_track ls \<sigma>" "machine_inv rinv (mach \<sigma>)" "machine_inv rinv (mach \<sigma>')" "calm (mach \<sigma>)" "turn \<sigma> \<sigma>'"
  shows "on_track ls \<sigma>'" "log (mach \<sigma>') = log (mach \<sigma>)"
proof -
  have "on_track ls \<sigma>' \<and> log (mach \<sigma>') = log (mach \<sigma>)"
  proof (cases "head_due (mach \<sigma>)")
    case True
    then have "resumed (hd (pq (mach \<sigma>) BLOCKED)) (mach \<sigma>) (mach \<sigma>')" using assms(5) by (simp add: turn_def)
    moreover from this have "log (mach \<sigma>') = log (mach \<sigma>)" by (simp add: resumed_def)
    ultimately show ?thesis using track_resumed [OF assms(1)] calm_due [OF assms(4,2) True] by blast
  next
    case due: False
    show ?thesis
    proof (cases "pq (mach \<sigma>) RUNNABLE")
      case Nil
      with assms(5) due have i: "idled \<sigma> \<sigma>'" by (simp add: turn_def)
      then have "log (mach \<sigma>') = log (mach \<sigma>)" by (auto simp: idled_def)
      with track_idled [OF assms(1) i] show ?thesis by simp
    next
      case (Cons p q)
      with assms(5) due have "only_moves p (ticked (mach \<sigma>)) (mach \<sigma>')"
        "reads_line p (sought (cur \<sigma>) p (ticked (mach \<sigma>))) (mach \<sigma>') (cur \<sigma>')"
        by (auto simp: turn_def progressed_def advanced_def missed_def)
      from track_line [OF assms(1-3) Cons this] show ?thesis by simp
    qed
  qed
  then show "on_track ls \<sigma>'" "log (mach \<sigma>') = log (mach \<sigma>)" by simp_all
qed

section \<open>A short trace is simulated to its end\<close>

context replacement_module
begin

theorem sim_loop_on_track:
  assumes "machine_inv rinv (mach \<sigma>)" "ends_inv (mach \<sigma>)" "calm (mach \<sigma>)" "on_track ls \<sigma>" "env_ok ops env"
  shows "\<exists>\<sigma>'. sim_loop env \<sigma> = Some (Inr \<sigma>') \<and> log (mach \<sigma>') = log (mach \<sigma>)"
  using assms(1-4)
proof (induction \<sigma> rule: wf_induct_rule [OF wf_inv_image [OF wf_lex_prod [OF wf_less_than wf_less_than], where f = gauge]])
  case (1 \<sigma>)
  show ?case
  proof (cases "Simulator_notDone (mach \<sigma>)")
    case True
    from sim_step_ok [OF "1.prems"(1) True assms(5)] show ?thesis
    proof (elim disjE exE conjE)
      fix p q assume p: "pq (mach \<sigma>) RUNNABLE = p # q"
        and bad: "unreadable (tracefile (sought (cur \<sigma>) p (ticked (mach \<sigma>))))"
      obtain pp where "procs (mach \<sigma>) p = Some pp" using "1.prems"(1) p by (rule runnable_head)
      from track_sought(3) [OF "1.prems"(4,1) p this] bad show ?thesis by (auto simp: unreadable_def)
    next
      fix \<sigma>' assume s: "sim_step env \<sigma> = Inr \<sigma>'" "machine_inv rinv (mach \<sigma>')" "turn \<sigma> \<sigma>'"
      note g = turn_gauge [OF "1.prems"(1) s(2) "1.prems"(2) s(3)]
      note t = track_turn [OF "1.prems"(4,1) s(2) "1.prems"(3) s(3)]
      from g(2) have "(\<sigma>', \<sigma>) \<in> inv_image (less_than <*lex*> less_than) gauge" by simp
      then have "\<exists>\<tau>. sim_loop env \<sigma>' = Some (Inr \<tau>) \<and> log (mach \<tau>) = log (mach \<sigma>')"
        using s(2) g(1) calm_turn [OF "1.prems"(1) s(2) "1.prems"(2) s(3) "1.prems"(3)] t(1) by (rule "1.IH")
      with True s(1) t(2) show ?thesis by (simp add: sim_loop.simps [of env \<sigma>])
    qed
  qed (simp add: sim_loop.simps [of env \<sigma>])
qed

text \<open>
  Then a line is missed at most once. A single process is runnable or waits, so that the disk never
  works while lines are read, and the time is known exactly.
\<close>

lemma turn_dom:
  assumes "machine_inv rinv (mach \<sigma>)" "turn \<sigma> \<sigma>'"
  shows "dom (procs (mach \<sigma>')) \<subseteq> dom (procs (mach \<sigma>))"
proof -
  let ?s = "mach \<sigma>"
  consider b bp where "only_moves b ?s (mach \<sigma>')" "procs ?s b = Some bp"
    | p q where "pq ?s RUNNABLE = p # q" "only_moves p (ticked ?s) (mach \<sigma>')"
    using assms(2) by (auto simp: turn_def resumed_def idled_def progressed_def advanced_def missed_def
      split: if_splits list.splits)
  then show ?thesis
  proof cases
    case 1
    then show ?thesis by (rule only_moves_dom)
  next
    case 2
    obtain pp where "procs (ticked ?s) p = Some pp" using assms(1) 2(1) by (rule runnable_head)
    with only_moves_dom [OF 2(2)] show ?thesis by (simp only: ticked_dom)
  qed
qed

lemma lone_waits:
  assumes "machine_inv rinv s" "card (dom (procs s)) \<le> 1"
  shows "waits_of s = [] \<or> pq s RUNNABLE = []"
  using card_procs [OF assms(1)] assms(2) by (cases "waits_of s"; cases "pq s RUNNABLE") simp_all

text \<open>\<open>f\<close> is a potential that a turn without a fault does not lower, and one with a fault lowers by one.\<close>

lemma steps_account_calm:
  assumes "steps env \<sigma> \<sigma>'" "env_ok ops env" "machine_inv rinv (mach \<sigma>)" "ends_inv (mach \<sigma>)" "calm (mach \<sigma>)"
    and "on_track ls \<sigma>" "tabled (ms (mach \<sigma>)) (procs (mach \<sigma>))"
    and fault: "\<And>\<sigma> \<sigma>'. machine_inv rinv (mach \<sigma>) \<Longrightarrow> machine_inv rinv (mach \<sigma>') \<Longrightarrow> on_track ls \<sigma> \<Longrightarrow> turn \<sigma> \<sigma>' \<Longrightarrow>
      serves_turn ops rinv \<sigma> \<sigma>' \<Longrightarrow> f \<sigma> \<le> f \<sigma>' + (of_bool (tpi (stats (mach \<sigma>')) \<noteq> tpi (stats (mach \<sigma>))) :: nat)"
  shows "\<exists>H M k. accounts \<sigma> \<sigma>' H M k \<and> M + pending (mach \<sigma>) \<le> H + pending (mach \<sigma>')
    \<and> (card (dom (procs (mach \<sigma>))) \<le> 1 \<longrightarrow> k = H + M) \<and> f \<sigma> \<le> M + f \<sigma>'
    \<and> tabled (ms (mach \<sigma>')) (procs (mach \<sigma>'))
    \<and> card (queries (ms (mach \<sigma>'))) = card (queries (ms (mach \<sigma>))) + 2 * (H + M)"
  using assms(1-7)
proof (induction rule: steps.induct)
  case (steps_refl \<sigma>)
  then show ?case using accounts_refl by fastforce
next
  case (steps_step \<sigma> \<sigma>1 \<sigma>2)
  from sim_step_ok [OF steps_step.prems(2) steps_step.hyps(1) steps_step.prems(1)] steps_step.hyps(2)
  have t: "machine_inv rinv (mach \<sigma>1)" "turn \<sigma> \<sigma>1" "serves_turn ops rinv \<sigma> \<sigma>1" by auto
  note l = turn_leaks [OF steps_step.prems(2) t(2,3) steps_step.prems(6)]
  have due: "head_due (mach \<sigma>) \<longrightarrow> pq (mach \<sigma>) RUNNABLE = []"
    using calm_due [OF steps_step.prems(4,2)] by blast
  obtain H M k where a: "ends_inv (mach \<sigma>1)" "accounts \<sigma> \<sigma>1 H M k" "H = 0 \<longrightarrow> phase (mach \<sigma>1) < phase (mach \<sigma>)"
    "(head_due (mach \<sigma>) \<longrightarrow> pq (mach \<sigma>) RUNNABLE = []) \<longrightarrow> M + pending (mach \<sigma>) \<le> H + pending (mach \<sigma>1)"
    "waits_of (mach \<sigma>) = [] \<or> pq (mach \<sigma>) RUNNABLE = [] \<longrightarrow> k = H + M"
    "H + M = of_bool (\<not> head_due (mach \<sigma>) \<and> pq (mach \<sigma>) RUNNABLE \<noteq> [])"
    using steps_step.prems(2) t(1) steps_step.prems(3) t(2) by (rule turn_accounts)
  obtain H' M' k' where b: "accounts \<sigma>1 \<sigma>2 H' M' k'" "M' + pending (mach \<sigma>1) \<le> H' + pending (mach \<sigma>2)"
    "card (dom (procs (mach \<sigma>1))) \<le> 1 \<longrightarrow> k' = H' + M'" "f \<sigma>1 \<le> M' + f \<sigma>2"
    "tabled (ms (mach \<sigma>2)) (procs (mach \<sigma>2))"
    "card (queries (ms (mach \<sigma>2))) = card (queries (ms (mach \<sigma>1))) + 2 * (H' + M')"
    using steps_step.IH [OF steps_step.prems(1) t(1) a(1)
        calm_turn [OF steps_step.prems(2) t(1) steps_step.prems(3) t(2) steps_step.prems(4)]
        track_turn(1) [OF steps_step.prems(5,2) t(1) steps_step.prems(4) t(2)] l(2)] by blast
  have "M \<noteq> 0 \<or> tpi (stats (mach \<sigma>1)) = tpi (stats (mach \<sigma>))" using a(2) by (cases "M = 0") (simp_all add: accounts_def)
  then have "f \<sigma> \<le> M + f \<sigma>1"
    using fault [OF steps_step.prems(2) t(1) steps_step.prems(5) t(2,3)] by (auto simp: of_bool_def split: if_splits)
  then have "f \<sigma> \<le> (M + M') + f \<sigma>2" using b(4) by simp
  moreover  have "(M + M') + pending (mach \<sigma>) \<le> (H + H') + pending (mach \<sigma>2)" using a(4) due b(2) by simp
  moreover have "k + k' = (H + H') + (M + M')" if one: "card (dom (procs (mach \<sigma>))) \<le> 1"
  proof -
    have "card (dom (procs (mach \<sigma>1))) \<le> 1"
      using card_mono [OF machine_finite [OF steps_step.prems(2)] turn_dom [OF steps_step.prems(2) t(2)]] one by simp
    then show ?thesis using a(5) b(3) lone_waits [OF steps_step.prems(2) one] by simp
  qed
  moreover have "card (queries (ms (mach \<sigma>2))) = card (queries (ms (mach \<sigma>))) + 2 * ((H + H') + (M + M'))"
    using b(6) l(1) a(6) by simp
  ultimately show ?case using accounts_trans [OF a(2) b(1)] b(5) by blast
qed

end

text \<open>What every turn of a short trace keeps holds at its end.\<close>

context replacement_module
begin

lemma steps_calm_inv:
  assumes "steps env \<sigma> \<sigma>'" "env_ok ops env" "machine_inv rinv (mach \<sigma>)" "ends_inv (mach \<sigma>)" "calm (mach \<sigma>)"
    and "on_track ls \<sigma>" "P \<sigma>"
    and turn: "\<And>\<sigma> \<sigma>'. machine_inv rinv (mach \<sigma>) \<Longrightarrow> machine_inv rinv (mach \<sigma>') \<Longrightarrow> calm (mach \<sigma>) \<Longrightarrow> on_track ls \<sigma> \<Longrightarrow>
      sim_step env \<sigma> = Inr \<sigma>' \<Longrightarrow> turn \<sigma> \<sigma>' \<Longrightarrow> serves_turn ops rinv \<sigma> \<sigma>' \<Longrightarrow> P \<sigma> \<Longrightarrow> P \<sigma>'"
  shows "P \<sigma>'"
  using assms(1-7)
proof (induction rule: steps.induct)
  case (steps_step \<sigma> \<sigma>1 \<sigma>2)
  note pre = steps_step.prems
  from sim_step_ok [OF pre(2) steps_step.hyps(1) pre(1)] steps_step.hyps(2)
  have t: "machine_inv rinv (mach \<sigma>1)" "turn \<sigma> \<sigma>1" "serves_turn ops rinv \<sigma> \<sigma>1" by auto
  show ?case
    by (rule steps_step.IH [OF pre(1) t(1) turn_gauge(1) [OF pre(2) t(1) pre(3) t(2)]
          calm_turn [OF pre(2) t(1) pre(3) t(2) pre(4)] track_turn(1) [OF pre(5,2) t(1) pre(4) t(2)]
          turn [OF pre(2) t(1) pre(4,5) steps_step.hyps(2) t(2,3) pre(6)]])
qed simp

text \<open>The time in which a process is runnable is that of the hits and the misses.\<close>

lemma steps_busy:
  assumes "steps env \<sigma> \<sigma>'" "env_ok ops env" "machine_inv rinv (mach \<sigma>)" "ends_inv (mach \<sigma>)" "calm (mach \<sigma>)"
    and "on_track ls \<sigma>" "trp (stats (mach \<sigma>)) = tmr (stats (mach \<sigma>)) + tpi (stats (mach \<sigma>))"
  shows "trp (stats (mach \<sigma>')) = tmr (stats (mach \<sigma>')) + tpi (stats (mach \<sigma>'))"
  using assms
proof (rule steps_calm_inv [where P = "\<lambda>\<sigma>. trp (stats (mach \<sigma>)) = tmr (stats (mach \<sigma>)) + tpi (stats (mach \<sigma>))"])
  fix \<sigma> \<sigma>' :: "'r sim"
  let ?s = "mach \<sigma>" and ?t = "mach \<sigma>'"
  assume inv: "machine_inv rinv ?s" and calm: "calm ?s" and run: "sim_step env \<sigma> = Inr \<sigma>'" and turn: "turn \<sigma> \<sigma>'"
    and old: "trp (stats ?s) = tmr (stats ?s) + tpi (stats ?s)"
  have "tmr (stats (ticked ?s)) = tmr (stats ?s)" "tpi (stats (ticked ?s)) = tpi (stats ?s)"
    by (simp_all add: ticked_def tick_def split: list.split)
  then have "tmr (stats ?t) + tpi (stats ?t) = tmr (stats ?s) + tpi (stats ?s) + of_bool (pq ?s RUNNABLE \<noteq> [])"
    using turn calm_due [OF calm inv]
    by (cases "pq ?s RUNNABLE") (auto simp: turn_def resumed_def idled_def progressed_def missed_def split: if_splits)
  with sim_step_trp [OF run] old show "trp (stats ?t) = tmr (stats ?t) + tpi (stats ?t)" by simp
qed

end

text \<open>The machine that the first pass leaves is on track.\<close>

lemma work_count:
  assumes "finite (dom (procs s))"
  shows "card (dom (procs s)) \<le> machine_work s"
proof -
  have "(\<Sum>p \<in> dom (procs s). 1) \<le> (\<Sum>p \<in> dom (procs s). work_left (the (procs s p)))"
    using work_left_pos by (intro sum_mono) (simp add: Suc_le_eq)
  then show ?thesis by (simp add: machine_work_def)
qed

lemma start_on_track:
  assumes "machine_inv rinv s" "placed ls s" "contents (tracefile s) = trace_text ls"
  shows "on_track ls (sim_start s)"
proof (rule on_trackI)
  have start: "procs (mach (sim_start s)) = procs s" "pq (mach (sim_start s)) = pq s"
    "contents (tracefile (mach (sim_start s))) = trace_text ls" "offset (tracefile (mach (sim_start s))) = 0"
    using assms(3) by (simp_all add: sim_start_def fseek_def)
  then show "contents (tracefile (mach (sim_start s))) = trace_text ls" by simp
  fix p pp assume "procs (mach (sim_start s)) p = Some pp"
  then have pp: "procs s p = Some pp" using start(1) by simp
  then show "has_lines ls pp" "at_line ls pp (currentPos pp)" using assms(2) unfolding placed_def by blast+
  assume "\<exists>q. pq (mach (sim_start s)) RUNNABLE = p # q"
  then obtain q where "pq s RUNNABLE = p # q" using start(2) by auto
  then have "saved_pos (procs s) p = 0" using assms(2) unfolding placed_def by blast
  with pp \<open>at_line ls pp (currentPos pp)\<close> start(4) show "at_line ls pp (ftell (tracefile (mach (sim_start s))))"
    by (simp add: saved_pos_def ftell_def)
qed

lemma start_calm:
  assumes "machine_inv rinv s" "pq s BLOCKED = []" "machine_work s < 1000000"
  shows "calm (mach (sim_start s))" "card (dom (procs s)) < 1000000"
proof -
  have "card (dom (procs s)) \<le> machine_work s" using machine_finite [OF assms(1)] by (rule work_count)
  then show "calm (mach (sim_start s))" "card (dom (procs s)) < 1000000"
    using assms(2,3) by (simp_all add: calm_def sim_start_def waits_of_def machine_work_def)
qed

end
