(* ===== verification/LoneProcess.thy ===== *)
theory LoneProcess
  imports OnTrack
begin

text \<open>
  A trace of a single pid. There is one process, which misses a page, waits for the disk, and
  then hits it; the replacement module sees the page numbers of the trace in their order, each of
  them once. The faults of the simulation are those of the reference queue on the page numbers.
\<close>

section \<open>The numbers of the pages\<close>

definition vpn_of :: "mstate \<Rightarrow> vaddr \<Rightarrow> ul64" where
  "vpn_of m w = (case vheap m w of None \<Rightarrow> 0 | Some vp \<Rightarrow> vpn vp)"

lemma vpn_of_key: "page_key m w = Some (i, n) \<Longrightarrow> vpn_of m w = n"
  by (auto simp: vpn_of_def page_key_Some)

lemma vpn_of_id: "page_id m' = page_id m \<Longrightarrow> vpn_of m' = vpn_of m"
proof
  fix w assume "page_id m' = page_id m"
  then have "page_id m' w = page_id m w" by simp
  then show "vpn_of m' w = vpn_of m w"
    by (cases "vheap m w"; cases "vheap m' w") (auto simp: page_id_def vpn_of_def)
qed

lemma vpn_of_grows:
  assumes "grows m m'" "\<forall>w \<in> set q. vheap m w \<noteq> None"
  shows "map (vpn_of m') q = map (vpn_of m) q"
proof (rule map_cong [OF refl])
  fix w assume "w \<in> set q"
  with assms(2) obtain wp where "vheap m w = Some wp" by blast
  with grows_heap [OF assms(1) this] show "vpn_of m' w = vpn_of m w" by (simp add: vpn_of_def)
qed

lemma vpn_of_inj:
  assumes "pages_ok m pp" "pageTable pp = Val ws"
  shows "inj_on (vpn_of m) (set ws)"
proof -
  have ws: "distinct (map (page_key m) ws)" "\<forall>w \<in> set ws. \<exists>n. page_key m w = Some (pid pp, n)"
    using assms by (simp_all add: pages_ok_def)
  have "page_key m w = Some (pid pp, vpn_of m w)" if "w \<in> set ws" for w
    using ws(2) that vpn_of_key by fastforce
  then show ?thesis using ws(1) by (auto simp: inj_on_def distinct_map)
qed

section \<open>The single process\<close>

definition one_run :: "(ul64 \<times> ul64) list \<Rightarrow> Process \<Rightarrow> bool" where
  "one_run ls pp \<longleftrightarrow> length ls < 2 ^ 64 \<and> it_chain (lineIntervals pp) = [(1, of_nat (length ls), Val 0)]"

definition left_of :: "(ul64 \<times> ul64) list \<Rightarrow> Process \<Rightarrow> ul64 list" where
  "left_of ls pp = map snd (drop (unat (currentline pp) - 1) ls)"

lemma one_run_line:
  assumes "one_run ls pp" "lines_ok pp" "has_lines ls pp"
  shows "currInterval pp = 0"
    "left_of ls pp = snd (ls ! (unat (currentline pp) - 1)) # map snd (drop (unat (currentline pp)) ls)"
    "work_left pp = 1 \<Longrightarrow> drop (unat (currentline pp)) ls = []"
proof -
  let ?l = "unat (currentline pp)" and ?N = "of_nat (length ls) :: ul64"
  show z: "currInterval pp = 0" using assms(1,2) by (simp add: one_run_def lines_ok_def)
  have "1 \<le> currentline pp" using assms(1,3) z by (simp add: one_run_def has_lines_def)
  then have pos: "0 < ?l" by (simp add: word_le_nat_alt)
  have "unat ?N = length ls" using assms(1) by (simp add: one_run_def unat_of_nat_64)
  moreover have "currentline pp \<le> fst (snd (it_chain (lineIntervals pp) ! currInterval pp))"
    using assms(2) by (simp only: lines_ok_def)
  then have "currentline pp \<le> ?N" using assms(1) z by (simp only: one_run_def nth_Cons_0 fst_conv snd_conv)
  ultimately have le: "?l \<le> length ls" by (simp add: word_le_nat_alt)
  have "drop (?l - 1) ls = ls ! (?l - 1) # drop ?l ls"
    using Cons_nth_drop_Suc [of "?l - 1" ls] pos le by simp
  then show "left_of ls pp = snd (ls ! (?l - 1)) # map snd (drop ?l ls)" by (simp add: left_of_def)
  have "work_left pp = Suc (length ls - ?l)"
    using assms(1) z \<open>unat ?N = length ls\<close> by (simp add: work_left_def later_lines_def one_run_def)
  then show "drop ?l ls = []" if "work_left pp = 1" using that by simp
qed

lemma one_run_lands:
  assumes "lands pp f R p s' c" "one_run ls pp" "lines_ok pp" "has_lines ls pp" "procs s' p = Some pp'" "lines_ok pp'"
  shows "one_run ls pp'" "left_of ls pp' = map snd (drop (unat (currentline pp)) ls)" "pq s' RUNNABLE = R"
proof -
  have same: "lineIntervals pp' = lineIntervals pp" using assms(1,5) by (simp add: lands_def)
  with assms(2) show run: "one_run ls pp'" by (simp add: one_run_def)
  have "currInterval pp' = 0" using run assms(6) by (simp add: one_run_def lines_ok_def)
  then have step: "currentline pp' = currentline pp + 1"
    "currentline pp < fst (snd (it_chain (lineIntervals pp) ! currInterval pp))" and R: "pq s' RUNNABLE = R"
    using assms(1,5) by (auto simp: lands_def)
  show "pq s' RUNNABLE = R" by (rule R)
  have "unat (currentline pp + 1) = Suc (unat (currentline pp))" using step(2) by (rule unat_plus_one_less)
  then show "left_of ls pp' = map snd (drop (unat (currentline pp)) ls)" using step(1) by (simp add: left_of_def)
qed

text \<open>
  The counter of the faults, with those that the reference queue still has to make, is the same at
  every turn; the page a process waits for is counted already.
\<close>

definition lone :: "('r \<Rightarrow> vaddr list) \<Rightarrow> (ul64 \<Rightarrow> ul64 list \<Rightarrow> ul64 list) \<Rightarrow> nat \<Rightarrow> (ul64 \<times> ul64) list \<Rightarrow> ul64
    \<Rightarrow> 'r machine \<Rightarrow> bool" where
  "lone order vtouch n ls T s \<longleftrightarrow> procs s = (\<lambda>_. None) \<and> tpi (stats s) = T
     \<or> (\<exists>p pp. procs s = [p \<mapsto> pp] \<and> one_run ls pp \<and> length (memory (ms s)) = n
          \<and> tpi (stats s) + of_nat (faults vtouch n (map (vpn_of (ms s)) (order (rep s))) (left_of ls pp))
            = T + of_bool (status pp = BLOCKED)
          \<and> (status pp = BLOCKED \<longrightarrow> (\<exists>v. waitingOnPage pp = Some v
              \<and> page_key (ms s) v = Some (pid pp, snd (ls ! (unat (currentline pp) - 1))))))"

lemma loneI:
  assumes "length (memory (ms s)) = n" "procs s = [p \<mapsto> pp]" "one_run ls pp"
    and "tpi (stats s) + of_nat (faults vtouch n (map (vpn_of (ms s)) (order (rep s))) (left_of ls pp))
      = T + of_bool (status pp = BLOCKED)"
    and "status pp = BLOCKED \<Longrightarrow> \<exists>v. waitingOnPage pp = Some v
      \<and> page_key (ms s) v = Some (pid pp, snd (ls ! (unat (currentline pp) - 1)))"
  shows "lone order vtouch n ls T s"
  using assms unfolding lone_def by blast

lemma loneD:
  assumes "lone order vtouch n ls T s" "procs s p = Some pp"
  shows "length (memory (ms s)) = n" "procs s = [p \<mapsto> pp]" "one_run ls pp"
    and "tpi (stats s) + of_nat (faults vtouch n (map (vpn_of (ms s)) (order (rep s))) (left_of ls pp))
      = T + of_bool (status pp = BLOCKED)"
    and "status pp = BLOCKED \<Longrightarrow> \<exists>v. waitingOnPage pp = Some v
      \<and> page_key (ms s) v = Some (pid pp, snd (ls ! (unat (currentline pp) - 1)))"
proof -
  from assms obtain q qq where q: "procs s = [q \<mapsto> qq]"
    and rest: "length (memory (ms s)) = n" "one_run ls qq"
      "tpi (stats s) + of_nat (faults vtouch n (map (vpn_of (ms s)) (order (rep s))) (left_of ls qq))
        = T + of_bool (status qq = BLOCKED)"
      "status qq = BLOCKED \<longrightarrow> (\<exists>v. waitingOnPage qq = Some v
        \<and> page_key (ms s) v = Some (pid qq, snd (ls ! (unat (currentline qq) - 1))))"
    unfolding lone_def by auto
  then have "q = p" "qq = pp" using assms(2) by (simp_all split: if_splits)
  with q rest show "length (memory (ms s)) = n" "procs s = [p \<mapsto> pp]" "one_run ls pp"
    "tpi (stats s) + of_nat (faults vtouch n (map (vpn_of (ms s)) (order (rep s))) (left_of ls pp))
      = T + of_bool (status pp = BLOCKED)"
    "status pp = BLOCKED \<Longrightarrow> \<exists>v. waitingOnPage pp = Some v
      \<and> page_key (ms s) v = Some (pid pp, snd (ls ! (unat (currentline pp) - 1)))" by blast+
qed

context ordered_module
begin

text \<open>The pages in memory are pages of the process, known by their numbers.\<close>

lemma lone_resident:
  assumes "machine_inv rinv s" "procs s = [p \<mapsto> pp]" "pageTable pp = Val ws" "rinv (ms s) r"
  shows "set (order r) \<subseteq> set ws" "inj_on (vpn_of (ms s)) (set ws)"
    and "v \<in> set ws \<Longrightarrow> vheap (ms s) v = Some vp \<Longrightarrow> v \<in> set (order r) \<longleftrightarrow> inMemory vp"
    and "v \<in> set ws \<Longrightarrow> vheap (ms s) v = Some vp \<Longrightarrow> vpn_of (ms s) v \<in> set (map (vpn_of (ms s)) (order r)) \<longleftrightarrow> inMemory vp"
proof -
  have core: "core_inv rinv s" using assms(1) by (rule machine_inv_core)
  show sub: "set (order r) \<subseteq> set ws"
  proof
    fix w assume "w \<in> set (order r)"
    then obtain wp where "managed (ms s) w = Some wp" "inMemory wp" using order_set [OF assms(4)] by blast
    then obtain i where "frames (ms s) i = Some w"
      using resident_frame [OF core_mem [OF core]] by (metis managed_Some)
    then show "w \<in> set ws"
      using core_owned [OF core] assms(2,3) unfolding owned_ok_def by (fastforce split: if_splits)
  qed
  have ok: "pages_ok (ms s) pp" using core_proc [OF core, of p pp] assms(2) by (simp add: proc_ok_def)
  then show inj: "inj_on (vpn_of (ms s)) (set ws)" using assms(3) by (rule vpn_of_inj)
  show mem: "v \<in> set (order r) \<longleftrightarrow> inMemory vp" if "v \<in> set ws" "vheap (ms s) v = Some vp" for v vp
  proof -
    obtain us where "pageTable pp = Val us" "\<forall>w \<in> set us. \<exists>vp. managed (ms s) w = Some vp \<and> vp_pid vp = pid pp"
      using ok by (rule pages_okE)
    then have "managed (ms s) v = Some vp" using assms(3) that by (auto simp: managed_Some)
    then show ?thesis using order_set [OF assms(4), of v] by simp
  qed
  show "vpn_of (ms s) v \<in> set (map (vpn_of (ms s)) (order r)) \<longleftrightarrow> inMemory vp"
    if "v \<in> set ws" "vheap (ms s) v = Some vp" for v vp
    using mem [OF that] inj_onD [OF inj _ that(1)] sub by auto
qed

lemma order_renews:
  assumes "renews ops r r'" "rinv s r"
  shows "order r' = order r"
  using assms order_new by (auto simp: renews_def)

end

lemma lone_over: "lone order vtouch n ls T s \<Longrightarrow> procs s = (\<lambda>_. None) \<Longrightarrow> tpi (stats s) = T"
  unfolding lone_def by (metis fun_upd_same option.distinct(1))

section \<open>The turns\<close>

lemma lone_procs:
  assumes "only_moves p s s'" "procs s = [p \<mapsto> pp]"
  shows "procs s' = (case procs s' p of None \<Rightarrow> (\<lambda>_. None) | Some pp' \<Rightarrow> [p \<mapsto> pp'])"
proof
  fix c
  show "procs s' c = (case procs s' p of None \<Rightarrow> (\<lambda>_. None) | Some pp' \<Rightarrow> [p \<mapsto> pp']) c"
    using only_moves_other [OF assms(1), of c] assms(2) by (cases "c = p") (auto split: option.split)
qed

lemma lone_idle:
  assumes "lone order vtouch n ls T (mach \<sigma>)" "idled \<sigma> \<sigma>'" "rep (mach \<sigma>') = rep (mach \<sigma>)"
  shows "lone order vtouch n ls T (mach \<sigma>')"
proof -
  from assms(2) obtain b bp where b: "procs (mach \<sigma>) b = Some bp" "procs (mach \<sigma>') b = Some (bp\<lparr>waitTime := 1\<rparr>)"
    "only_moves b (mach \<sigma>) (mach \<sigma>')" "ms (mach \<sigma>') = ms (mach \<sigma>)" "tpi (stats (mach \<sigma>')) = tpi (stats (mach \<sigma>))"
    unfolding idled_def by blast
  note l = loneD [OF assms(1) b(1)]
  have "procs (mach \<sigma>') = [b \<mapsto> bp\<lparr>waitTime := 1\<rparr>]" using lone_procs [OF b(3) l(2)] b(2) by simp
  moreover have "one_run ls (bp\<lparr>waitTime := 1\<rparr>)" "left_of ls (bp\<lparr>waitTime := 1\<rparr>) = left_of ls bp"
    using l(3) by (simp_all add: one_run_def left_of_def)
  ultimately show ?thesis using assms(3) b(4,5) l(1,4,5) by (intro loneI [where p = b and pp = "bp\<lparr>waitTime := 1\<rparr>"]) auto
qed

context numbered_module
begin

lemma lone_resume:
  assumes "lone order vtouch n ls T s" "machine_inv rinv s" "machine_inv rinv s'" "on_track ls \<sigma>" "mach \<sigma> = s"
    and "resumed b s s'" "delivers ops b s s'"
  shows "lone order vtouch n ls T s'"
proof -
  obtain bp v ws vp where b: "only_moves b s s'" "procs s b = Some bp" "status bp = BLOCKED" "waitingOnPage bp = Some v"
    "procs s' b = Some (bp\<lparr>waitTime := 0, waitingOnPage := None, status := RUNNABLE\<rparr>)"
    "tpi (stats s') = tpi (stats s)"
    and v: "pageTable bp = Val ws" "v \<in> set ws" "managed (ms s) v = Some vp" "\<not> inMemory vp"
    and run: "page_in ops (Some v) (ms s) (rep s) = Inr (ms s', rep s')" and id: "page_id (ms s') = page_id (ms s)"
    and size: "length (memory (ms s')) = length (memory (ms s))"
    using assms(2,6,7) by (rule delivered)
  let ?bp = "bp\<lparr>waitTime := 0, waitingOnPage := None, status := RUNNABLE\<rparr>"
  let ?m = "ms s" and ?q = "order (rep s)" and ?w = "snd (ls ! (unat (currentline bp) - 1))"
  note core = machine_inv_core [OF assms(2)]
  note d = loneD [OF assms(1) b(2)]
  have l: "procs s = [b \<mapsto> bp]" "one_run ls bp" "length (memory ?m) = n"
    "tpi (stats s) + of_nat (faults vtouch n (map (vpn_of ?m) ?q) (left_of ls bp)) = T + 1"
    "page_key ?m v = Some (pid bp, ?w)"
    using d b(3,4) by auto
  have ok: "proc_ok ?m bp" using core_proc [OF core b(2)] .
  have heap: "vheap ?m v = Some vp" using v(3) by (simp add: managed_Some)
  note fault = core_mem [OF core] core_rinv [OF core] v(3,4)
  have len: "length (memory (ms s')) = n" using size l(3) by simp
  note same = vpn_of_id [OF id] len
  have w: "vpn_of ?m v = ?w" by (rule vpn_of_key [OF l(5)])
  have new: "?w \<notin> set (map (vpn_of ?m) ?q)"
    using lone_resident(4) [OF assms(2) l(1) v(1) core_rinv [OF core] v(2) heap] v(4) w by simp
  have ord: "map (vpn_of (ms s')) (order (rep s')) = queue_page_in n ?w (map (vpn_of ?m) ?q)"
    using page_in_order [OF fault run] same(1) l(3) w by (simp add: queue_page_in_map)
  have "lines_ok bp" "has_lines ls bp" using ok track_lines [OF assms(4)] assms(5) b(2) by (simp_all add: proc_ok_def)
  note line = one_run_line(2) [OF l(2) this]
  let ?f = "faults vtouch n (queue_page_in n ?w (map (vpn_of ?m) ?q))"
  let ?u = "if length (map (vpn_of ?m) ?q) < n then map (vpn_of ?m) ?q else tl (map (vpn_of ?m) ?q)"
  have "?w \<notin> set ?u" using new list.set_sel(2) [of "map (vpn_of ?m) ?q" ?w] by (cases ?q) (auto simp del: set_map)
  then have "vtouch ?w (?u @ [?w]) = ?u @ [?w]" by (rule touch_last)
  then have "queue_reference vtouch n ?w (?u @ [?w]) = ?u @ [?w]" by (simp add: queue_reference_def)
  then have "?f (left_of ls bp) = ?f (map snd (drop (unat (currentline bp)) ls))"
    unfolding line queue_page_in_def by simp
  moreover have "faults vtouch n (map (vpn_of ?m) ?q) (left_of ls bp) = Suc (?f (map snd (drop (unat (currentline bp)) ls)))"
    unfolding line using new by (simp add: queue_reference_fault del: set_map)
  ultimately have "tpi (stats s') + of_nat (?f (left_of ls bp)) = T" using l(4) b(6) by (simp add: algebra_simps)
  moreover have "procs s' = [b \<mapsto> ?bp]" using lone_procs [OF b(1) l(1)] b(5) by simp
  moreover have "one_run ls ?bp" "left_of ls ?bp = left_of ls bp" using l(2) by (simp_all add: one_run_def left_of_def)
  ultimately show ?thesis using same(2) ord by (intro loneI [where p = b and pp = ?bp]) simp_all
qed

text \<open>The line that the process reads hits the page \<open>v\<close>, or misses it.\<close>

lemma lone_hit:
  assumes "procs s = [p \<mapsto> pp]" "one_run ls pp" "lines_ok pp" "has_lines ls pp"
    and "tpi (stats s) + of_nat (faults vtouch n Q (left_of ls pp)) = T"
    and "rinv m r" "v \<in> set ws" "managed m v = Some vp" "inMemory vp" "vpn_of m v = snd (ls ! (unat (currentline pp) - 1))"
    and "map (vpn_of m) (order r) = Q" "length (memory m) = n"
    and "overhead vp = Val ov" "Replace_notifyPageAccess ops ov m r = Inr r'"
    and "\<forall>pp'. procs t p = Some pp' \<longrightarrow> pageTable pp' = Val ws \<and> ms t = m \<and> rep t = r'"
    and "machine_inv rinv t" "only_moves p s t" "pq t BLOCKED = []" "tpi (stats t) = tpi (stats s)"
    and "case procs t p of None \<Rightarrow> work_left pp = 1 | Some pp' \<Rightarrow> status pp' = RUNNABLE"
    and "lands pp f R p t c \<or> stalls pp x p t c"
  shows "lone order vtouch n ls T t"
proof -
  let ?w = "snd (ls ! (unat (currentline pp) - 1))"
  note line = one_run_line [OF assms(2-4)]
  have "v \<in> set (order r)" using order_set [OF assms(6)] assms(8,9) by blast
  then have w: "?w \<in> set Q" unfolding assms(11) [symmetric] using assms(10) by force
  show ?thesis
  proof (cases "procs t p")
    case None
    then have "left_of ls pp = [?w]" using line(2,3) assms(20) by simp
    moreover have "procs t = (\<lambda>_. None)" using lone_procs [OF assms(17,1)] None by simp
    ultimately show ?thesis using assms(5,19) w by (simp add: lone_def del: set_map)
  next
    case (Some pp')
    then have t: "pageTable pp' = Val ws" "ms t = m" "rep t = r'" "procs t = [p \<mapsto> pp']"
      using assms(15) lone_procs [OF assms(17,1)] by simp_all
    have "lines_ok pp'" using core_proc [OF machine_inv_core [OF assms(16)] Some] by (simp add: proc_ok_def)
    moreover have "p \<in> set (pq t RUNNABLE)"
      using sched_ok_dom [OF machine_sched [OF assms(16)]] Some assms(18) by auto
    then have "lands pp f R p t c" using assms(21) by (auto simp: stalls_def)
    ultimately have land: "one_run ls pp'" "left_of ls pp' = map snd (drop (unat (currentline pp)) ls)"
      using one_run_lands [OF _ assms(2-4) Some] by blast+
    have "rinv (ms t) r" using assms(6) t(2) by simp
    note res = lone_resident [OF assms(16) t(4,1) this]
    have "insert v (set (order r)) \<subseteq> set ws" using res(1) assms(7) by simp
    then have "inj_on (vpn_of m) (insert v (set (order r)))" using inj_on_subset res(2) t(2) by metis
    then have "map (vpn_of m) (touch v (order r)) = vtouch ?w Q" using touch_map assms(10,11) by metis
    moreover have "order r' = touch v (order r)" using assms(6,8,9,13,14) by (rule order_access)
    ultimately have "map (vpn_of (ms t)) (order (rep t)) = queue_reference vtouch n ?w Q"
      using w t(2,3) by (simp add: queue_reference_def del: set_map)
    moreover have "faults vtouch n Q (left_of ls pp)
        = faults vtouch n (queue_reference vtouch n ?w Q) (map snd (drop (unat (currentline pp)) ls))"
      unfolding line(2) using w by (simp del: set_map)
    ultimately show ?thesis
      using assms(5,12,19,20) Some land t(2,4) by (intro loneI [where p = p and pp = pp']) simp_all
  qed
qed

lemma lone_miss:
  assumes "procs s = [p \<mapsto> pp]" "one_run ls pp" "lines_ok pp" "has_lines ls pp"
    and "tpi (stats s) + of_nat (faults vtouch n Q (left_of ls pp)) = T"
    and "page_key m v = Some (pid pp, snd (ls ! (unat (currentline pp) - 1)))"
    and "map (vpn_of m) (order r) = Q" "length (memory m) = n"
    and "ms t = m" "rep t = r" "procs t p = Some pp'" "waitingOnPage pp' = Some v"
    and "machine_inv rinv t" "only_moves p s t" "pq t BLOCKED = [p]" "tpi (stats t) = tpi (stats s) + 1"
    and "lands pp f (p # pq t RUNNABLE) p t c \<or> stalls pp x p t c"
  shows "lone order vtouch n ls T t"
proof -
  have "lines_ok pp'" using core_proc [OF machine_inv_core [OF assms(13)] assms(11)] by (simp add: proc_ok_def)
  then have "stalls pp x p t c"
    using assms(17) one_run_lands(3) [OF _ assms(2-4,11)] by (metis not_Cons_self2)
  then have same: "lineIntervals pp' = lineIntervals pp" "pid pp' = pid pp" "currentline pp' = currentline pp"
    using assms(11) by (simp_all add: stalls_def)
  note sched = machine_sched [OF assms(13)]
  have "status pp' = BLOCKED"
    using sched_ok_status [OF sched assms(11)] sched_ok_distinct [OF sched] assms(15) by auto
  moreover have "one_run ls pp'" "left_of ls pp' = left_of ls pp"
    using assms(2) same by (simp_all add: one_run_def left_of_def)
  moreover have "procs t = [p \<mapsto> pp']" using lone_procs [OF assms(14,1)] assms(11) by simp
  ultimately show ?thesis
    using assms(5-10,12,16) same by (intro loneI [where p = p and pp = pp']) (simp_all add: algebra_simps)
qed

text \<open>Before it reads, the process is alone in the run queue, and the replacement module is as it was.\<close>

lemma lone_sought:
  assumes "machine_inv rinv s" "procs s = [p \<mapsto> pp]" "pq s RUNNABLE = p # q"
  shows "pq s BLOCKED = []" "procs (ticked s) = procs s" "tpi (stats (ticked s)) = tpi (stats s)"
    "procs (sought c p (ticked s)) = procs s" "ms (sought c p (ticked s)) = ms s" "rep (sought c p (ticked s)) = rep s"
    "pq (sought c p (ticked s)) = pq s" "status pp = RUNNABLE"
    "only_moves p (ticked s) t \<Longrightarrow> only_moves p s t"
proof -
  note sched = machine_sched [OF assms(1)]
  have "set (pq s RUNNABLE @ pq s BLOCKED) = {p}" using sched_ok_dom [OF sched] assms(2) by simp
  moreover have "p \<notin> set (pq s BLOCKED)" using sched_ok_distinct [OF sched] assms(3) by auto
  ultimately show B: "pq s BLOCKED = []" by (cases "pq s BLOCKED") auto
  then have tick: "procs (ticked s) = procs s" "ms (ticked s) = ms s" "rep (ticked s) = rep s" "pq (ticked s) = pq s"
    "tpi (stats (ticked s)) = tpi (stats s)" "tracefile (ticked s) = tracefile s"
    by (simp_all add: ticked_def tick_def)
  then show "procs (ticked s) = procs s" "tpi (stats (ticked s)) = tpi (stats s)"
    "procs (sought c p (ticked s)) = procs s" "ms (sought c p (ticked s)) = ms s" "rep (sought c p (ticked s)) = rep s"
    "pq (sought c p (ticked s)) = pq s" "only_moves p (ticked s) t \<Longrightarrow> only_moves p s t"
    by (simp_all add: sought_def only_moves_def split: option.split)
  show "status pp = RUNNABLE" using sched_ok_status [OF sched, of p pp] assms(2,3) by simp
qed

lemma lone_line:
  assumes "lone order vtouch n ls T (mach \<sigma>)" "machine_inv rinv (mach \<sigma>)" "machine_inv rinv (mach \<sigma>')" "on_track ls \<sigma>"
    and "pq (mach \<sigma>) RUNNABLE = p # q"
    and "reads_line p (sought (cur \<sigma>) p (ticked (mach \<sigma>))) (mach \<sigma>') (cur \<sigma>')"
    and "serves ops rinv p (sought (cur \<sigma>) p (ticked (mach \<sigma>))) (mach \<sigma>')"
    and "progressed p (ticked (mach \<sigma>)) (mach \<sigma>') \<or> missed p (ticked (mach \<sigma>)) (mach \<sigma>')"
  shows "lone order vtouch n ls T (mach \<sigma>')"
proof -
  let ?s = "mach \<sigma>" and ?t = "mach \<sigma>'" and ?u = "sought (cur \<sigma>) p (ticked (mach \<sigma>))"
  note core = machine_inv_core [OF assms(2)]
  obtain pp where pp: "procs ?s p = Some pp" using assms(2,5) by (rule runnable_head)
  note l = loneD [OF assms(1) pp] and so = track_sought(3) [OF assms(4,2,5) pp]
  note u = lone_sought [OF assms(2) l(2) assms(5)]
  have lo: "lines_ok pp" using core_proc [OF core pp] by (simp add: proc_ok_def)
  let ?w = "snd (ls ! (unat (currentline pp) - 1))" and ?Q = "map (vpn_of (ms ?s)) (order (rep ?s))"
  have due: "tpi (stats ?s) + of_nat (faults vtouch n ?Q (left_of ls pp)) = T" using l(4) u(8) by simp
  from assms(7) obtain pp1 k w1 f m r v vp ws where
    "procs ?s p = Some pp1" "fscanf True (tracefile ?u) = (LPair k w1, f)"
    "mem_inv m" "rinv m r" "grows (ms ?s) m" "renews ops (rep ?s) r" "pages_ok m (pp1\<lparr>pageTable := Val ws\<rparr>)"
      "v \<in> set ws" "page_key m v = Some (pid pp1, w1)" "vheap m v = Some vp" "page_served ops m r v vp ws p ?u ?t"
    unfolding serves_def u by blast
  then have m: "rinv m r" "grows (ms ?s) m" "renews ops (rep ?s) r" "pages_ok m (pp\<lparr>pageTable := Val ws\<rparr>)"
      "v \<in> set ws" "page_key m v = Some (pid pp, ?w)" "vheap m v = Some vp"
    and page: "page_served ops m r v vp ws p ?u ?t"
    using so pp by simp_all
  note page = page [unfolded page_served_def u]
  have mv: "managed m v = Some vp" "vpn_of m v = ?w"
    using m(4,6,7) vpn_of_key [OF m(6)] by (auto simp: managed_Some page_key_Some pages_ok_def)
  have live: "\<forall>w \<in> set (order (rep ?s)). vheap (ms ?s) w \<noteq> None"
    using order_set [OF core_rinv [OF core]] by (auto simp: managed_Some)
  have Q: "map (vpn_of m) (order r) = ?Q"
    unfolding order_renews [OF m(3) core_rinv [OF core]] by (rule vpn_of_grows [OF m(2) live])
  have n: "length (memory m) = n" using grows_length [OF m(2)] l(1) by simp
  have moved: "lands pp \<lparr>contents = trace_text ls, offset = line_pos ls (unat (currentline pp))\<rparr> (p # q) p ?t (cur \<sigma>')
      \<or> stalls pp (ftell (tracefile ?u)) p ?t (cur \<sigma>')"
    using assms(5,6) so u pp by (auto simp: reads_line_def)
  from assms(8) show ?thesis
  proof
    assume "progressed p (ticked ?s) ?t"
    then have hit: "only_moves p ?s ?t" "pq ?t BLOCKED = []" "tpi (stats ?t) = tpi (stats ?s)"
      "case procs ?t p of None \<Rightarrow> work_left pp = 1 | Some pp' \<Rightarrow> status pp' = RUNNABLE"
      using u pp by (auto simp: progressed_def advanced_def ticked_same split: option.splits)
    with page u(1) have mem: "inMemory vp" by (cases "inMemory vp") simp_all
    with page obtain ov r' where "overhead vp = Val ov" "Replace_notifyPageAccess ops ov m r = Inr r'"
      "\<forall>pp'. procs ?t p = Some pp' \<longrightarrow> pageTable pp' = Val ws \<and> ms ?t = m \<and> rep ?t = r'" by auto
    from lone_hit [OF l(2,3) lo track_lines [OF assms(4) pp] due m(1,5) mv(1) mem mv(2) Q n this assms(3) hit moved]
    show ?thesis .
  next
    assume "missed p (ticked ?s) ?t"
    then have miss: "only_moves p ?s ?t" "pq ?t BLOCKED = [p]" "tpi (stats ?t) = tpi (stats ?s) + 1"
      and q: "q = pq ?t RUNNABLE"
      using u assms(5) by (auto simp: missed_def ticked_same)
    with page u(1) have "\<not> inMemory vp" by (cases "inMemory vp") simp_all
    with page obtain pp' where "ms ?t = m" "rep ?t = r" "procs ?t p = Some pp'" "waitingOnPage pp' = Some v" by auto
    from lone_miss [OF l(2,3) lo track_lines [OF assms(4) pp] due m(6) Q n this assms(3) miss moved [unfolded q]]
    show ?thesis .
  qed
qed

lemma lone_turn:
  assumes "lone order vtouch n ls T (mach \<sigma>)" "machine_inv rinv (mach \<sigma>)" "machine_inv rinv (mach \<sigma>')" "on_track ls \<sigma>"
    and "turn \<sigma> \<sigma>'" "serves_turn ops rinv \<sigma> \<sigma>'"
  shows "lone order vtouch n ls T (mach \<sigma>')"
proof (cases "head_due (mach \<sigma>)")
  case True
  then have "resumed (hd (pq (mach \<sigma>) BLOCKED)) (mach \<sigma>) (mach \<sigma>')" "delivers ops (hd (pq (mach \<sigma>) BLOCKED)) (mach \<sigma>) (mach \<sigma>')"
    using assms(5,6) by (simp_all add: turn_def serves_turn_def)
  then show ?thesis by (rule lone_resume [OF assms(1-4) refl])
next
  case due: False
  show ?thesis
  proof (cases "pq (mach \<sigma>) RUNNABLE")
    case Nil
    then have "idled \<sigma> \<sigma>'" "rep (mach \<sigma>') = rep (mach \<sigma>)" using assms(5,6) due by (simp_all add: turn_def serves_turn_def)
    then show ?thesis by (rule lone_idle [OF assms(1)])
  next
    case (Cons p q)
    then show ?thesis
      using assms(5,6) due by (intro lone_line [OF assms(1-4) Cons]) (auto simp: turn_def serves_turn_def)
  qed
qed

lemma steps_lone:
  assumes "steps env \<sigma> \<sigma>'" "env_ok ops env" "machine_inv rinv (mach \<sigma>)" "ends_inv (mach \<sigma>)" "calm (mach \<sigma>)"
    and "on_track ls \<sigma>" "lone order vtouch n ls T (mach \<sigma>)"
  shows "lone order vtouch n ls T (mach \<sigma>')"
  using assms lone_turn by (rule steps_calm_inv [where P = "\<lambda>\<sigma>. lone order vtouch n ls T (mach \<sigma>)"])

end

section \<open>The start\<close>

text \<open>A trace of one pid is one run of lines.\<close>

lemma one_pid_start:
  assumes "grouped ls (length ls) s" "machine_inv rinv s" "pq s BLOCKED = []"
    and "\<forall>l \<in> set ls. fst l = i" "length ls < 2 ^ 64"
  shows "procs s = (\<lambda>_. None) \<and> ls = []
    \<or> (\<exists>p pp. procs s = [p \<mapsto> pp] \<and> one_run ls pp \<and> left_of ls pp = map snd ls \<and> status pp = RUNNABLE)"
proof -
  note sched = machine_sched [OF assms(2)]
  have dom: "dom (procs s) = set (pq s RUNNABLE)" using sched_ok_dom [OF sched] assms(3) by simp
  have order: "map (pid_at s) (pq s RUNNABLE) = firsts (map fst ls)" using assms(1) by (simp add: grouped_def)
  show ?thesis
  proof (cases "ls = []")
    case True
    then have "pq s RUNNABLE = []" using order by (simp add: firsts_def)
    then show ?thesis using dom True by simp
  next
    case False
    then have "firsts (map fst ls) = [i]" using firsts_append [of "map fst ls" i "[]"] assms(4) by (simp add: firsts_def)
    then obtain p where p: "pq s RUNNABLE = [p]" "pid_at s p = i" using order by (cases "pq s RUNNABLE") auto
    obtain pp where pp: "procs s p = Some pp" "status pp = RUNNABLE"
      using sched by (rule sched_ok_runnable [where p = p]) (use p in simp)
    have "pid pp = i" using p(2) pp(1) by (simp add: pid_at_def)
    then have "it_chain (lineIntervals pp) = intervals ls i [(i, 0, length ls - 1)]"
      "currentline pp = fst (it_chain (lineIntervals pp) ! 0)"
      using assms(1) pp(1) runs_same [OF False assms(4), of 0] by (auto simp: grouped_def)
    moreover have "of_nat (Suc (length ls - 1)) = (of_nat (length ls) :: ul64)" using False by (cases ls) simp_all
    ultimately have chain: "it_chain (lineIntervals pp) = [(1, of_nat (length ls), Val 0)]" "currentline pp = 1"
      by (simp_all only: intervals_def) (simp_all add: gap_pos_def)
    have "procs s = [p \<mapsto> pp]"
    proof
      fix c
      show "procs s c = [p \<mapsto> pp] c" using dom p(1) pp(1) by (cases "c = p") (auto simp: dom_def)
    qed
    moreover have "one_run ls pp" "left_of ls pp = map snd ls"
      using chain assms(5) by (simp_all add: one_run_def left_of_def)
    ultimately show ?thesis using pp(2) by blast
  qed
qed

lemma one_pid_card:
  assumes "procs s = (\<lambda>_. None) \<and> ls = [] \<or> (\<exists>p pp. procs s = [p \<mapsto> pp] \<and> P p pp)"
  shows "card (dom (procs s)) \<le> 1"
  using assms by auto

lemma lone_start:
  assumes "procs s = (\<lambda>_. None) \<and> ls = []
      \<or> (\<exists>p pp. procs s = [p \<mapsto> pp] \<and> one_run ls pp \<and> left_of ls pp = map snd ls \<and> status pp = RUNNABLE)"
    and "tpi (stats s) = 0" "length (memory (ms s)) = n" "order (rep s) = []"
  shows "lone order vtouch n ls (of_nat (faults vtouch n [] (map snd ls))) (mach (sim_start s))"
  using assms(1)
proof (elim disjE exE conjE)
  fix p pp assume "procs s = [p \<mapsto> pp]" "one_run ls pp" "left_of ls pp = map snd ls" "status pp = RUNNABLE"
  with assms(2-4) show ?thesis by (intro loneI [where p = p and pp = pp]) (simp_all add: sim_start_def)
qed (use assms(2) in \<open>simp add: lone_def sim_start_def\<close>)

end
