(* ===== verification/ColdFaults.thy ===== *)
theory ColdFaults
  imports LoneProcess
begin

text \<open>
  The faults that no replacement module can avoid: every page that the trace names faults at its first
  line. On a short trace of any number of processes, there are at least as many faults as pages, and
  exactly as many when the pages fit into memory together.
\<close>

section \<open>The pages of the lines that are left\<close>

definition line_pages :: "(ul64 \<times> ul64) list \<Rightarrow> ul64 \<Rightarrow> ul64 \<Rightarrow> ul64 list" where
  "line_pages ls a b = map (\<lambda>l. snd (ls ! (l - 1))) [unat a..<Suc (unat b)]"

definition rest_pages :: "(ul64 \<times> ul64) list \<Rightarrow> Process \<Rightarrow> ul64 list" where
  "rest_pages ls pp = (let cs = it_chain (lineIntervals pp); i = currInterval pp in
     line_pages ls (currentline pp) (fst (snd (cs ! i)))
     @ concat (map (\<lambda>c. line_pages ls (fst c) (fst (snd c))) (drop (Suc i) cs)))"

lemma rest_pages_cong:
  assumes "lineIntervals pp' = lineIntervals pp" "currInterval pp' = currInterval pp" "currentline pp' = currentline pp"
  shows "rest_pages ls pp' = rest_pages ls pp"
  using assms by (simp add: rest_pages_def)

lemma line_pages_Cons:
  assumes "a \<le> b"
  shows "line_pages ls a b = snd (ls ! (unat a - 1)) # map (\<lambda>l. snd (ls ! (l - 1))) [Suc (unat a)..<Suc (unat b)]"
  using assms by (simp add: line_pages_def upt_conv_Cons word_le_nat_alt del: upt_Suc)

lemma line_pages_next:
  assumes "a < b"
  shows "line_pages ls a b = snd (ls ! (unat a - 1)) # line_pages ls (a + 1) b"
proof -
  have "unat (a + 1) = Suc (unat a)" using assms by (rule unat_plus_one_less)
  then show ?thesis using line_pages_Cons [of a b ls] assms by (simp add: line_pages_def)
qed

lemma current_in_interval: "lines_ok pp \<Longrightarrow> currentline pp \<le> fst (snd (it_chain (lineIntervals pp) ! currInterval pp))"
  by (simp only: lines_ok_def)

lemma rest_pages_head:
  assumes "lines_ok pp"
  obtains qs where "rest_pages ls pp = snd (ls ! (unat (currentline pp) - 1)) # qs"
  using line_pages_Cons [OF current_in_interval [OF assms], of ls] by (simp add: rest_pages_def Let_def)

text \<open>A process that has one line left names one page.\<close>

lemma rest_pages_last:
  assumes "lines_ok pp" "work_left pp = 1"
  shows "rest_pages ls pp = [snd (ls ! (unat (currentline pp) - 1))]"
proof -
  let ?cs = "it_chain (lineIntervals pp)" and ?i = "currInterval pp"
  let ?h = "fst (snd (?cs ! ?i))"
  have le: "currentline pp \<le> ?h" using assms(1) by (rule current_in_interval)
  have "later_lines (drop (Suc ?i) ?cs) = 0" and gap: "unat ?h - unat (currentline pp) = 0"
    using assms(2) by (simp_all only: work_left_def)
  then have "drop (Suc ?i) ?cs = []" by (cases "drop (Suc ?i) ?cs") (simp_all only: later_lines_def, simp)
  moreover have "currentline pp = ?h" using le gap by (simp add: word_le_nat_alt word_unat_eq_iff)
  ultimately show ?thesis by (simp add: rest_pages_def Let_def line_pages_def)
qed

text \<open>After a hit the process has one line less to read.\<close>

lemma rest_pages_lands:
  assumes "lands pp f R p s' c" "procs s' p = Some pp'" "lines_ok pp" "lines_ok pp'" "work_left pp = Suc (work_left pp')"
  shows "rest_pages ls pp = snd (ls ! (unat (currentline pp) - 1)) # rest_pages ls pp'"
proof -
  let ?cs = "it_chain (lineIntervals pp)" and ?i = "currInterval pp"
  let ?h = "fst (snd (?cs ! ?i))"
  have same: "lineIntervals pp' = lineIntervals pp" using assms(1,2) by (simp add: lands_def)
  have le: "currentline pp \<le> ?h" using assms(3) by (rule current_in_interval)
  from assms(1,2) consider (more) "currInterval pp' = ?i" "currentline pp' = currentline pp + 1" "currentline pp < ?h"
    | (jump) h where "currInterval pp' = Suc ?i" "?cs ! Suc ?i = (currentline pp', h, Val (currentPos pp'))"
    by (auto simp: lands_def)
  then show ?thesis
  proof cases
    case more
    then show ?thesis using same line_pages_next [OF more(3), of ls] by (simp add: rest_pages_def Let_def)
  next
    case jump
    then have "Suc ?i < length ?cs" using assms(4) same by (simp add: lines_ok_def)
    then have tail: "drop (Suc ?i) ?cs = (currentline pp', h, Val (currentPos pp')) # drop (Suc (Suc ?i)) ?cs"
      using jump(2) by (simp flip: Cons_nth_drop_Suc)
    then have "unat ?h - unat (currentline pp) = 0"
      using assms(5) jump same by (simp add: work_left_def later_lines_def)
    then have "currentline pp = ?h" using le by (simp add: word_le_nat_alt word_unat_eq_iff)
    then show ?thesis using jump same tail by (simp add: rest_pages_def Let_def line_pages_def)
  qed
qed

section \<open>Sums over the processes\<close>

definition over_procs :: "(mstate \<Rightarrow> Process \<Rightarrow> nat) \<Rightarrow> 'r machine \<Rightarrow> nat" where
  "over_procs W s = (\<Sum>p \<in> dom (procs s). W (ms s) (the (procs s p)))"

lemma over_procs_moves:
  assumes "only_moves p s s'" "finite (dom (procs s))" "procs s p = Some pp"
    and "\<And>c cp. procs s c = Some cp \<Longrightarrow> c \<noteq> p \<Longrightarrow> W (ms s') cp = W (ms s) cp"
  shows "over_procs W s + (case procs s' p of None \<Rightarrow> 0 | Some pp' \<Rightarrow> W (ms s') pp') = over_procs W s' + W (ms s) pp"
proof -
  let ?F = "\<lambda>s c. W (ms s) (the (procs s c))" and ?D = "dom (procs s) - {p}"
  note same = only_moves_other [OF assms(1)]
  have rest: "sum (?F s') ?D = sum (?F s) ?D" using same assms(4) by (intro sum.cong) auto
  have old: "over_procs W s = W (ms s) pp + sum (?F s) ?D"
    using assms(2,3) by (simp add: over_procs_def sum.remove [of "dom (procs s)" p] domI)
  have dom: "dom (procs s') - {p} = ?D" using same by (auto simp: dom_def)
  have fin: "finite (dom (procs s'))" using dom assms(2) finite_Diff2 [of "{p}" "dom (procs s')"] by simp
  show ?thesis
  proof (cases "procs s' p")
    case None
    then have "dom (procs s') = ?D" using dom by auto
    with None rest old show ?thesis by (simp add: over_procs_def)
  next
    case (Some pp')
    then have "over_procs W s' = W (ms s') pp' + sum (?F s') ?D"
      using fin dom by (simp add: over_procs_def sum.remove [of "dom (procs s')" p] domI)
    with Some rest old show ?thesis by simp
  qed
qed

lemma over_procs_ticked:
  assumes "\<And>m pp w. W m (pp\<lparr>waitTime := w\<rparr>) = W m pp"
  shows "over_procs W (ticked s) = over_procs W s"
proof -
  have "W (ms s) (the (procs (ticked s) c)) = W (ms s) (the (procs s c))" if "c \<in> dom (procs s)" for c
    using that assms by (auto simp: ticked_def tick_def split: list.split)
  then show ?thesis by (simp add: over_procs_def ticked_dom ticked_same)
qed

section \<open>The pages in the tables\<close>

definition known :: "mstate \<Rightarrow> Process \<Rightarrow> ul64 set" where
  "known m pp = (case pageTable pp of Val ws \<Rightarrow> vpn_of m ` set ws | Indet \<Rightarrow> {})"

definition unseen :: "(ul64 \<times> ul64) list \<Rightarrow> mstate \<Rightarrow> Process \<Rightarrow> nat" where
  "unseen ls m pp = card (set (rest_pages ls pp) - known m pp)"

definition stock :: "mstate \<Rightarrow> Process \<Rightarrow> nat" where
  "stock m pp = card (known m pp)"

lemma known_cong: "pageTable pp' = pageTable pp \<Longrightarrow> known m pp' = known m pp"
  by (simp add: known_def)

lemma known_keep:
  assumes "pages_ok m cp" "\<And>w n. page_key m w = Some (pid cp, n) \<Longrightarrow> page_key m' w = Some (pid cp, n)"
  shows "known m' cp = known m cp"
proof -
  from assms(1) obtain ws where ws: "pageTable cp = Val ws" "\<forall>w \<in> set ws. \<exists>n. page_key m w = Some (pid cp, n)"
    unfolding pages_ok_def by blast
  have "vpn_of m' w = vpn_of m w" if "w \<in> set ws" for w
    using ws(2) that assms(2) vpn_of_key by metis
  then show ?thesis using ws(1) by (simp add: known_def)
qed

lemma known_grows:
  assumes "grows m m'" "pages_ok m cp"
  shows "known m' cp = known m cp"
  using assms(2) by (rule known_keep) (rule grows_key [OF assms(1)])

lemma waitTime_known [simp]:
  "known m (pp\<lparr>waitTime := w\<rparr>) = known m pp" "rest_pages ls (pp\<lparr>waitTime := w\<rparr>) = rest_pages ls pp"
  "unseen ls m (pp\<lparr>waitTime := w\<rparr>) = unseen ls m pp" "stock m (pp\<lparr>waitTime := w\<rparr>) = stock m pp"
  by (simp_all add: known_def rest_pages_def unseen_def stock_def)

text \<open>A turn that moves one process leaves the sums over the others alone.\<close>

lemma others_known:
  assumes "machine_inv rinv s" "only_moves p s s'" "procs s p = Some pp" "procs s c = Some cp" "c \<noteq> p"
  shows "known (ms s') cp = known (ms s) cp"
proof (rule known_keep)
  show "pages_ok (ms s) cp" using core_proc [OF machine_inv_core [OF assms(1)] assms(4)] by (simp add: proc_ok_def)
  fix w n assume "page_key (ms s) w = Some (pid cp, n)"
  then show "page_key (ms s') w = Some (pid cp, n)"
    by (rule only_moves_key [OF assms(2)]) (use assms(3) machine_pid [OF assms(1,3,4,5)] in force)
qed

lemma others_known_ticked:
  assumes "machine_inv rinv s" "pq s RUNNABLE = p # q" "only_moves p (ticked s) s'"
    and "procs (ticked s) c = Some cp" "c \<noteq> p"
  shows "known (ms s') cp = known (ms s) cp"
proof (rule known_keep)
  obtain pp where pp: "procs s p = Some pp" "procs (ticked s) p = Some pp" "p \<notin> set (pq s BLOCKED)"
    "\<forall>c cp. procs (ticked s) c = Some cp \<longrightarrow> c \<noteq> p \<longrightarrow> pid cp \<noteq> pid pp"
    using assms(1,2) by (rule runnable_head)
  obtain cp1 where "procs s c = Some cp1" "cp = cp1 \<or> cp = cp1\<lparr>waitTime := waitTime cp1 - CLOCK_TICK\<rparr>"
    using assms(4) by (rule ticked_other)
  then show "pages_ok (ms s) cp"
    using core_proc [OF machine_inv_core [OF assms(1)]] by (fastforce simp: proc_ok_def pages_ok_def)
  fix w n assume "page_key (ms s) w = Some (pid cp, n)"
  then have "page_key (ms (ticked s)) w = Some (pid cp, n)" by (simp add: ticked_same)
  then show "page_key (ms s') w = Some (pid cp, n)"
    by (rule only_moves_key [OF assms(3)]) (use pp(2,4) assms(4,5) in force)
qed

lemma over_procs_line:
  assumes "machine_inv rinv s" "pq s RUNNABLE = p # q" "only_moves p (ticked s) s'" "procs s p = Some pp"
    and "W = unseen ls \<or> W = stock"
  shows "over_procs W s + (case procs s' p of None \<Rightarrow> 0 | Some pp' \<Rightarrow> W (ms s') pp') = over_procs W s' + W (ms s) pp"
proof -
  have "procs (ticked s) p = Some pp"
    using assms(4) sched_ok_distinct [OF machine_sched [OF assms(1)]] assms(2) by (intro ticked_proc) auto
  moreover have "W (ms s') cp = W (ms s) cp" if "procs (ticked s) c = Some cp" "c \<noteq> p" for c cp
    using others_known_ticked [OF assms(1-3) that] assms(5) by (auto simp: unseen_def stock_def)
  moreover have "finite (dom (procs (ticked s)))" using machine_finite [OF assms(1)] by (simp add: ticked_dom)
  ultimately have "over_procs W (ticked s) + (case procs s' p of None \<Rightarrow> 0 | Some pp' \<Rightarrow> W (ms s') pp')
      = over_procs W s' + W (ms (ticked s)) pp"
    by (intro over_procs_moves [OF assms(3)]) (simp_all add: ticked_same)
  moreover have "over_procs W (ticked s) = over_procs W s" by (rule over_procs_ticked) (use assms(5) in auto)
  ultimately show ?thesis by (simp add: ticked_same)
qed

section \<open>What a line does to the tables\<close>

lemma work_lands:
  assumes "lands pp f R p s' c" "procs s' p = Some pp'" "lines_ok pp'"
  shows "work_left pp' < work_left pp"
proof -
  let ?cs = "it_chain (lineIntervals pp)" and ?i = "currInterval pp"
  have same: "lineIntervals pp' = lineIntervals pp" using assms(1,2) by (simp add: lands_def)
  from assms(1,2) consider (more) "currInterval pp' = ?i" "currentline pp' = currentline pp + 1"
      "currentline pp < fst (snd (?cs ! ?i))"
    | (jump) h where "currInterval pp' = Suc ?i" "?cs ! Suc ?i = (currentline pp', h, Val (currentPos pp'))"
    by (auto simp: lands_def)
  then show ?thesis
  proof cases
    case more
    have "work_left pp' = work_left (pp\<lparr>currentline := currentline pp + 1\<rparr>)"
      using more(1,2) same by (simp add: work_left_def)
    with work_left_next_line [OF more(3)] show ?thesis by simp
  next
    case jump
    then have "Suc ?i < length ?cs" using assms(3) same by (simp add: lines_ok_def)
    then show ?thesis
      using jump same by (simp add: work_left_def later_lines_def flip: Cons_nth_drop_Suc)
  qed
qed

text \<open>
  A line that hits leaves the table alone and has one page less to come; a line that misses keeps the
  line, and its page is in the table afterwards.
\<close>

definition line_hit :: "(ul64 \<times> ul64) list \<Rightarrow> mstate \<Rightarrow> Process \<Rightarrow> vaddr list \<Rightarrow> paddr \<Rightarrow> 'r machine \<Rightarrow> bool" where
  "line_hit ls m pp ws p t \<longleftrightarrow> pageTable pp = Val ws \<and> (\<forall>w. w \<notin> set ws \<longrightarrow> vheap (ms t) w = vheap m w)
     \<and> length (memory (ms t)) = length (memory m)
     \<and> (case procs t p of None \<Rightarrow> rest_pages ls pp = [snd (ls ! (unat (currentline pp) - 1))]
        | Some pp' \<Rightarrow> status pp' = RUNNABLE \<and> pageTable pp' = Val ws \<and> ms t = m
            \<and> rest_pages ls pp = snd (ls ! (unat (currentline pp) - 1)) # rest_pages ls pp')"

definition line_miss :: "(ul64 \<times> ul64) list \<Rightarrow> mstate \<Rightarrow> Process \<Rightarrow> vaddr \<Rightarrow> vaddr list \<Rightarrow> paddr \<Rightarrow> 'r machine \<Rightarrow> bool" where
  "line_miss ls m pp v ws p t \<longleftrightarrow> table_adds m pp v ws \<and> ms t = m
     \<and> (\<exists>pp'. procs t p = Some pp' \<and> status pp' = BLOCKED \<and> waitingOnPage pp' = Some v
          \<and> pageTable pp' = Val ws \<and> rest_pages ls pp' = rest_pages ls pp)"

lemma line_served:
  assumes "machine_inv rinv s" "machine_inv rinv t" "on_track ls \<sigma>" "mach \<sigma> = s" "pq s RUNNABLE = p # q"
    and "reads_line p (sought (cur \<sigma>) p (ticked s)) t c" "serves ops rinv p (sought (cur \<sigma>) p (ticked s)) t"
    and "progressed p (ticked s) t \<or> missed p (ticked s) t"
  obtains pp m v vp ws where "procs s p = Some pp" "status pp = RUNNABLE" "lines_ok pp" "grows (ms s) m"
    "pages_ok m (pp\<lparr>pageTable := Val ws\<rparr>)" "v \<in> set ws" "vheap m v = Some vp"
    "page_key m v = Some (pid pp, snd (ls ! (unat (currentline pp) - 1)))" "only_moves p (ticked s) t"
    "inMemory vp \<and> line_hit ls m pp ws p t \<and> tpi (stats t) = tpi (stats s)
      \<or> \<not> inMemory vp \<and> line_miss ls m pp v ws p t \<and> tpi (stats t) = tpi (stats s) + 1"
proof -
  let ?u = "sought (cur \<sigma>) p (ticked s)"
  obtain pp where pp: "procs s p = Some pp" "procs (ticked s) p = Some pp" "p \<notin> set (pq s BLOCKED)"
    using assms(1,5) by (rule runnable_head)
  have u: "procs ?u p = Some pp" "pq ?u = pq s" "ms ?u = ms s"
    using pp(2) by (simp_all add: sought_def ticked_same)
  have tick: "tpi (stats (ticked s)) = tpi (stats s)" by (simp add: ticked_def tick_def split: list.split)
  have run: "status pp = RUNNABLE" using sched_ok_status [OF machine_sched [OF assms(1)] pp(1)] assms(5) by simp
  have lo: "lines_ok pp" using core_proc [OF machine_inv_core [OF assms(1)] pp(1)] by (simp add: proc_ok_def)
  have lo': "lines_ok pp'" if "procs t p = Some pp'" for pp'
    using core_proc [OF machine_inv_core [OF assms(2)] that] by (simp add: proc_ok_def)
  let ?w = "snd (ls ! (unat (currentline pp) - 1))"
  let ?f = "\<lparr>contents = trace_text ls, offset = line_pos ls (unat (currentline pp))\<rparr>"
  have so: "fscanf True (tracefile ?u) = (LPair (pid pp) ?w, ?f)"
    using track_sought(3) [OF assms(3)] assms(1,4,5) pp(1) by blast
  from assms(7) obtain m r v vp ws where m: "grows (ms s) m" "pages_ok m (pp\<lparr>pageTable := Val ws\<rparr>)" "v \<in> set ws"
      "page_key m v = Some (pid pp, ?w)" "vheap m v = Some vp" "table_adds m pp v ws"
    and page: "page_served ops m r v vp ws p ?u t"
    unfolding serves_def u so by fastforce
  note page = page [unfolded page_served_def u]
  have moved: "lands pp ?f (pq s RUNNABLE) p t c \<or> stalls pp (ftell (tracefile ?u)) p t c"
    using assms(6) so u by (auto simp: reads_line_def)
  have moves: "only_moves p (ticked s) t"
    using assms(8) by (auto simp: progressed_def advanced_def missed_def)
  have "inMemory vp \<and> line_hit ls m pp ws p t \<and> tpi (stats t) = tpi (stats s)
      \<or> \<not> inMemory vp \<and> line_miss ls m pp v ws p t \<and> tpi (stats t) = tpi (stats s) + 1"
    using assms(8)
  proof
    assume hit: "progressed p (ticked s) t"
    then have B: "pq t BLOCKED = pq s BLOCKED" by (simp add: progressed_def advanced_def ticked_same)
    then have mem: "inMemory vp" using page by (cases "inMemory vp") simp_all
    have "pageTable pp = Val ws" using m(5,6) mem by (auto simp: table_adds_def)
    moreover have "rest_pages ls pp = [?w]" if "procs t p = None"
      using hit that pp(2) by (intro rest_pages_last [OF lo]) (simp add: progressed_def advanced_def)
    moreover have "status pp' = RUNNABLE \<and> rest_pages ls pp = ?w # rest_pages ls pp'" if "procs t p = Some pp'" for pp'
    proof -
      have st: "status pp' = RUNNABLE" "work_left pp = Suc (work_left pp')"
        using hit that pp(2) by (simp_all add: progressed_def advanced_def)
      then have "p \<in> set (pq t RUNNABLE)"
        using sched_ok_status [OF machine_sched [OF assms(2)] that] by (auto split: if_splits)
      then have "lands pp ?f (pq s RUNNABLE) p t c" using moved by (auto simp: stalls_def)
      from rest_pages_lands [OF this that lo lo' [OF that] st(2)] st(1) show ?thesis by blast
    qed
    moreover have "\<forall>pp'. procs t p = Some pp' \<longrightarrow> pageTable pp' = Val ws \<and> ms t = m"
      and "(\<forall>w. w \<notin> set ws \<longrightarrow> vheap (ms t) w = vheap m w) \<and> length (memory (ms t)) = length (memory m)"
      using page mem by auto
    ultimately have "line_hit ls m pp ws p t" by (simp add: line_hit_def split: option.split)
    with mem hit tick show ?thesis by (simp add: progressed_def)
  next
    assume miss: "missed p (ticked s) t"
    then have B: "pq t BLOCKED = pq s BLOCKED @ [p]" by (simp add: missed_def ticked_same)
    then have mem: "\<not> inMemory vp" using page by (cases "inMemory vp") simp_all
    then obtain pp' where pp': "procs t p = Some pp'" "pageTable pp' = Val ws" "waitingOnPage pp' = Some v" "ms t = m"
      using page by auto
    have "work_left pp' = work_left pp" using miss pp(2) pp'(1) by (simp add: missed_def)
    then have "stalls pp (ftell (tracefile ?u)) p t c" using moved work_lands [OF _ pp'(1) lo' [OF pp'(1)]] by force
    then have "rest_pages ls pp' = rest_pages ls pp" using pp'(1) by (intro rest_pages_cong) (simp_all add: stalls_def)
    moreover have "p \<notin> set (pq t RUNNABLE)" using sched_ok_distinct [OF machine_sched [OF assms(2)]] B by auto
    then have "status pp' = BLOCKED" using sched_ok_status [OF machine_sched [OF assms(2)] pp'(1)] by simp
    ultimately have "line_miss ls m pp v ws p t" using m(6) pp' by (simp add: line_miss_def)
    with mem miss tick show ?thesis by (simp add: missed_def)
  qed
  then show thesis by (rule that [OF pp(1) run lo m(1-3,5,4) moves])
qed

section \<open>The pages still to be faulted in\<close>

text \<open>
  A page of a line is counted until a process has it in its table; it gets there with a fault. When all pages
  fit into memory, a page of a table is in memory or waited for, so that there is no other fault.
\<close>

definition cold :: "(ul64 \<times> ul64) list \<Rightarrow> 'r machine \<Rightarrow> nat" where
  "cold ls s = over_procs (unseen ls) s"

definition settled :: "mstate \<Rightarrow> Process \<Rightarrow> bool" where
  "settled m pp \<longleftrightarrow> (\<forall>ws w wp. pageTable pp = Val ws \<longrightarrow> w \<in> set ws \<longrightarrow> vheap m w = Some wp \<longrightarrow>
     inMemory wp \<or> status pp = BLOCKED \<and> waitingOnPage pp = Some w)"

definition roomy :: "(ul64 \<times> ul64) list \<Rightarrow> 'r machine \<Rightarrow> bool" where
  "roomy ls s \<longleftrightarrow> cold ls s + over_procs stock s \<le> length (memory (ms s)) \<and> (\<forall>p pp. procs s p = Some pp \<longrightarrow> settled (ms s) pp)"

lemma settled_keep:
  assumes "settled m pp" "pageTable pp' = pageTable pp" "status pp' = status pp" "waitingOnPage pp' = waitingOnPage pp"
    and "\<And>ws w. pageTable pp = Val ws \<Longrightarrow> w \<in> set ws \<Longrightarrow> vheap m' w = vheap m w"
  shows "settled m' pp'"
  using assms unfolding settled_def by metis

text \<open>The tables of two processes share no page.\<close>

lemma tables_disjoint:
  assumes "machine_inv rinv s" "procs s p = Some pp" "procs s c = Some cp" "c \<noteq> p"
    and "pageTable cp = Val us" "w \<in> set us" "page_key (ms s) w = Some (pid pp, n)"
  shows False
proof -
  have "pages_ok (ms s) cp" using core_proc [OF machine_inv_core [OF assms(1)] assms(3)] by (simp add: proc_ok_def)
  then obtain k where "page_key (ms s) w = Some (pid cp, k)" using assms(5,6) by (auto simp: pages_ok_def)
  with assms(7) machine_pid [OF assms(1-4)] show False by simp
qed

text \<open>The wait of a process at the disk.\<close>

lemma cold_idle:
  assumes "machine_inv rinv (mach \<sigma>)" "idled \<sigma> \<sigma>'"
  shows "cold ls (mach \<sigma>') = cold ls (mach \<sigma>)" "roomy ls (mach \<sigma>) \<Longrightarrow> roomy ls (mach \<sigma>')"
proof -
  let ?s = "mach \<sigma>" and ?t = "mach \<sigma>'"
  from assms(2) obtain b bp where b: "procs ?s b = Some bp" "procs ?t b = Some (bp\<lparr>waitTime := 1\<rparr>)"
    "only_moves b ?s ?t" "ms ?t = ms ?s"
    unfolding idled_def by blast
  have same: "over_procs W ?t = over_procs W ?s" if "W = unseen ls \<or> W = stock" for W
    using over_procs_moves [OF b(3) machine_finite [OF assms(1)] b(1), of W] b(2,4) that by auto
  then show "cold ls ?t = cold ls ?s" by (simp add: cold_def)
  assume room: "roomy ls ?s"
  have "settled (ms ?t) cp" if c: "procs ?t c = Some cp" for c cp
  proof -
    obtain cp1 where "procs ?s c = Some cp1" "pageTable cp = pageTable cp1" "status cp = status cp1"
      "waitingOnPage cp = waitingOnPage cp1"
      using c b(1,2) only_moves_other [OF b(3), of c] by (cases "c = b") auto
    moreover from this(1) room have "settled (ms ?s) cp1" by (simp add: roomy_def)
    ultimately show ?thesis using b(4) by (elim settled_keep) simp_all
  qed
  then show "roomy ls ?t" using room same b(4) by (simp add: roomy_def cold_def)
qed

text \<open>A line: a miss turns a page to come into a page of the table, unless it was there.\<close>

context replacement_module
begin

lemma cold_line:
  assumes "machine_inv rinv s" "machine_inv rinv t" "on_track ls \<sigma>" "mach \<sigma> = s" "pq s RUNNABLE = p # q"
    and "reads_line p (sought (cur \<sigma>) p (ticked s)) t c" "serves ops rinv p (sought (cur \<sigma>) p (ticked s)) t"
    and "progressed p (ticked s) t \<or> missed p (ticked s) t"
  shows "cold ls s \<le> cold ls t + of_bool (tpi (stats t) \<noteq> tpi (stats s))"
    and "roomy ls s \<Longrightarrow> roomy ls t \<and> tpi (stats t) + of_nat (cold ls t) = tpi (stats s) + of_nat (cold ls s)"
proof -
  obtain pp m v vp ws where pp: "procs s p = Some pp" "status pp = RUNNABLE" "lines_ok pp" and m: "grows (ms s) m"
    "pages_ok m (pp\<lparr>pageTable := Val ws\<rparr>)" "v \<in> set ws" "vheap m v = Some vp"
    "page_key m v = Some (pid pp, snd (ls ! (unat (currentline pp) - 1)))" and moves: "only_moves p (ticked s) t"
    and out: "inMemory vp \<and> line_hit ls m pp ws p t \<and> tpi (stats t) = tpi (stats s)
      \<or> \<not> inMemory vp \<and> line_miss ls m pp v ws p t \<and> tpi (stats t) = tpi (stats s) + 1"
    using assms by (rule line_served)
  let ?w = "snd (ls ! (unat (currentline pp) - 1))" and ?K = "vpn_of m ` set ws"
  have pok: "pages_ok (ms s) pp" using core_proc [OF machine_inv_core [OF assms(1)] pp(1)] by (simp add: proc_ok_def)
  have w: "vpn_of m v = ?w" using m(5) by (rule vpn_of_key)
  then have wK: "?w \<in> ?K" using m(3) by force
  have known_m: "known m pp = known (ms s) pp" using m(1) pok by (rule known_grows)
  obtain qs where rest: "rest_pages ls pp = ?w # qs" using pp(3) by (rule rest_pages_head)
  have inj: "inj_on (vpn_of m) (set ws)" using vpn_of_inj [OF m(2)] by simp
  note tot = over_procs_line [OF assms(1,5) moves pp(1)]
  have tot': "cold ls s + (case procs t p of None \<Rightarrow> 0 | Some pp' \<Rightarrow> unseen ls (ms t) pp') = cold ls t + unseen ls (ms s) pp"
    "over_procs stock s + (case procs t p of None \<Rightarrow> 0 | Some pp' \<Rightarrow> stock (ms t) pp') = over_procs stock t + stock (ms s) pp"
    using tot [where W = "unseen ls" and ls = ls] tot [where W = stock and ls = ls] by (simp_all add: cold_def)
  have len: "length (memory m) = length (memory (ms s))" using m(1) by (rule grows_length)
  have live: "vheap m w = vheap (ms s) w" if c: "procs s c = Some cp" "pageTable cp = Val us" "w \<in> set us" for c cp us w
  proof -
    have "pages_ok (ms s) cp" using core_proc [OF machine_inv_core [OF assms(1)] c(1)] by (simp add: proc_ok_def)
    then obtain wp where "vheap (ms s) w = Some wp" using pages_ok_live(2) [OF _ c(2)] c(3) by blast
    with grows_heap [OF m(1) this] show ?thesis by simp
  qed
  have others: "settled (ms t) cp" if room: "roomy ls s" and c: "procs t c = Some cp" "c \<noteq> p"
    and heap: "\<And>w. w \<notin> set ws \<Longrightarrow> vheap (ms t) w = vheap m w" for c cp
  proof -
    have "procs (ticked s) c = Some cp" using only_moves_other [OF moves c(2)] c(1) by simp
    then obtain cp1 where cp1: "procs s c = Some cp1" "cp = cp1 \<or> cp = cp1\<lparr>waitTime := waitTime cp1 - CLOCK_TICK\<rparr>"
      by (rule ticked_other)
    have "vheap (ms t) w = vheap (ms s) w" if us: "pageTable cp1 = Val us" "w \<in> set us" for us w
    proof -
      have "w \<notin> set ws"
      proof
        assume "w \<in> set ws"
        then obtain n where "page_key m w = Some (pid pp, n)" using m(2) by (auto simp: pages_ok_def)
        then have "page_key (ms s) w = Some (pid pp, n)" using live [OF cp1(1) us] by (simp add: page_key_def)
        with tables_disjoint [OF assms(1) pp(1) cp1(1) c(2) us] show False by blast
      qed
      with heap live [OF cp1(1) us] show ?thesis by simp
    qed
    moreover have "settled (ms s) cp1" using room cp1(1) by (simp add: roomy_def)
    ultimately show ?thesis using cp1(2) by (elim settled_keep) auto
  qed
  have own: "inMemory wp" if "roomy ls s" "pageTable pp = Val us" "w \<in> set us" "vheap m w = Some wp" for us w wp
  proof -
    have "vheap (ms s) w = Some wp" using live [OF pp(1) that(2,3)] that(4) by simp
    moreover have "settled (ms s) pp" using that(1) pp(1) by (simp add: roomy_def)
    ultimately have "inMemory wp \<or> status pp = BLOCKED" using that(2,3) unfolding settled_def by blast
    with pp(2) show ?thesis by simp
  qed
  have "cold ls s \<le> cold ls t + of_bool (tpi (stats t) \<noteq> tpi (stats s))
    \<and> (roomy ls s \<longrightarrow> roomy ls t \<and> tpi (stats t) + of_nat (cold ls t) = tpi (stats s) + of_nat (cold ls s))"
    using out
  proof
    assume "inMemory vp \<and> line_hit ls m pp ws p t \<and> tpi (stats t) = tpi (stats s)"
    then have table: "pageTable pp = Val ws" and heap: "\<And>w. w \<notin> set ws \<Longrightarrow> vheap (ms t) w = vheap m w"
      and size: "length (memory (ms t)) = length (memory m)" and tpi: "tpi (stats t) = tpi (stats s)"
      and go: "case procs t p of None \<Rightarrow> rest_pages ls pp = [?w]
        | Some pp' \<Rightarrow> status pp' = RUNNABLE \<and> pageTable pp' = Val ws \<and> ms t = m \<and> rest_pages ls pp = ?w # rest_pages ls pp'"
      by (auto simp: line_hit_def)
    have K: "known (ms s) pp = ?K" using known_m table by (simp add: known_def)
    have "unseen ls (ms s) pp = (case procs t p of None \<Rightarrow> 0 | Some pp' \<Rightarrow> unseen ls (ms t) pp')"
      using go K wK by (auto simp: unseen_def known_def insert_Diff_if split: option.splits)
    then have eq: "cold ls s = cold ls t" using tot'(1) by simp
    have "over_procs stock t \<le> over_procs stock s"
      using tot'(2) go K by (auto simp: stock_def known_def split: option.splits)
    moreover have "settled (ms t) cp" if room: "roomy ls s" and c: "procs t c = Some cp" for c cp
    proof (cases "c = p")
      case True
      then have "pageTable cp = Val ws" "ms t = m" using go c by simp_all
      with own [OF room table] show ?thesis by (auto simp: settled_def)
    qed (rule others [OF room c _ heap])
    ultimately show ?thesis using eq tpi size len by (auto simp: roomy_def)
  next
    assume "\<not> inMemory vp \<and> line_miss ls m pp v ws p t \<and> tpi (stats t) = tpi (stats s) + 1"
    then obtain pp' where out: "\<not> inMemory vp" and adds: "table_adds m pp v ws" and mt: "ms t = m"
      and tpi: "tpi (stats t) = tpi (stats s) + 1" and pp': "procs t p = Some pp'" "status pp' = BLOCKED"
        "waitingOnPage pp' = Some v" "pageTable pp' = Val ws" "rest_pages ls pp' = rest_pages ls pp"
      unfolding line_miss_def by blast
    have K': "known (ms t) pp' = ?K" using pp'(4) mt by (simp add: known_def)
    from adds consider (old) "pageTable pp = Val ws" | (new) us where "pageTable pp = Val us" "ws = us @ [v]"
      by (auto simp: table_adds_def)
    then show ?thesis
    proof cases
      case old
      then have "known (ms s) pp = ?K" using known_m by (simp add: known_def)
      then have "cold ls s = cold ls t" using tot'(1) pp'(1,5) K' by (simp add: unseen_def)
      moreover have "\<not> roomy ls s" using own [OF _ old m(3,4)] out by blast
      ultimately show ?thesis by simp
    next
      case new
      have fresh: "?w \<notin> vpn_of m ` set us"
      proof
        assume "?w \<in> vpn_of m ` set us"
        then obtain u where u: "u \<in> set us" "vpn_of m u = vpn_of m v" using w by force
        have "u = v" by (rule inj_onD [OF inj u(2)]) (use u(1) new(2) in simp_all)
        with u(1) show False using m(2) new(2) by (auto simp: pages_ok_def)
      qed
      have Ks: "known (ms s) pp = vpn_of m ` set us" using known_m new(1) by (simp add: known_def)
      have K: "?K = insert ?w (vpn_of m ` set us)" using new(2) w by simp
      let ?A = "set (rest_pages ls pp) - vpn_of m ` set us"
      have "finite ?A" "?w \<in> ?A" using rest fresh by simp_all
      then have "card ?A = Suc (card (?A - {?w}))" by (rule card.remove)
      moreover have "set (rest_pages ls pp) - ?K = ?A - {?w}" using K by blast
      ultimately have "unseen ls (ms s) pp = Suc (unseen ls (ms t) pp')"
        by (simp only: unseen_def K' pp'(5) Ks)
      then have eq: "cold ls s = Suc (cold ls t)" using tot'(1) pp'(1) by simp
      have "stock (ms t) pp' = Suc (stock (ms s) pp)" using K' K Ks fresh by (simp add: stock_def)
      then have "over_procs stock t = Suc (over_procs stock s)" using tot'(2) pp'(1) by simp
      moreover have "settled (ms t) cp" if room: "roomy ls s" and c: "procs t c = Some cp" for c cp
      proof (cases "c = p")
        case True
        then show ?thesis
          using c pp' mt new own [OF room new(1)] by (auto simp: settled_def)
      qed (rule others [OF room c], use mt in simp_all)
      ultimately show ?thesis using eq tpi len mt by (auto simp: roomy_def)
    qed
  qed
  then show "cold ls s \<le> cold ls t + of_bool (tpi (stats t) \<noteq> tpi (stats s))"
    and "roomy ls s \<Longrightarrow> roomy ls t \<and> tpi (stats t) + of_nat (cold ls t) = tpi (stats s) + of_nat (cold ls s)"
    by blast+
qed

text \<open>The disk: when all pages fit, there is a frame for the one that it delivers.\<close>

lemma roomy_free:
  assumes "machine_inv rinv s" "roomy ls s" "procs s b = Some bp" "pageTable bp = Val ws" "v \<in> set ws"
    and "vheap (ms s) v = Some vp" "\<not> inMemory vp"
  shows "Memory_hasFreePage (ms s)"
proof (rule ccontr)
  let ?m = "ms s" and ?D = "dom (procs s)"
  let ?n = "length (memory ?m)"
  define table where "table p = (case pageTable (the (procs s p)) of Val ws \<Rightarrow> set ws | Indet \<Rightarrow> {})" for p
  note core = machine_inv_core [OF assms(1)]
  note mem = core_mem [OF core]
  assume "\<not> Memory_hasFreePage ?m"
  then have full: "\<exists>w. frames ?m i = Some w" if "i < ?n" for i using that hasFreePage_iff [OF mem] by (metis not_None_eq)
  have "card (table p) = stock ?m (the (procs s p))" if p: "p \<in> ?D" for p
  proof -
    obtain pp where pp: "procs s p = Some pp" using p by blast
    have ok: "pages_ok ?m pp" using core_proc [OF core pp] by (simp add: proc_ok_def)
    then obtain us where us: "pageTable pp = Val us" by (rule pages_okE)
    then have "card (vpn_of ?m ` set us) = card (set us)" by (intro card_image vpn_of_inj [OF ok])
    then show ?thesis using pp us by (simp add: table_def stock_def known_def)
  qed
  then have "(\<Sum>p \<in> ?D. card (table p)) = over_procs stock s" by (simp add: over_procs_def)
  moreover have fin: "finite ?D" using assms(1) by (rule machine_finite)
  then have "card (\<Union>p \<in> ?D. table p) \<le> (\<Sum>p \<in> ?D. card (table p))" by (rule card_UN_le)
  ultimately have "card (\<Union>p \<in> ?D. table p) \<le> ?n" using assms(2) by (simp add: roomy_def)
  moreover have "?n \<le> card ((\<Union>p \<in> ?D. table p) - {v})"
  proof -
    let ?g = "\<lambda>i. the (frames ?m i)"
    have "inj_on ?g {..<?n}"
    proof (rule inj_onI)
      fix i j assume "i \<in> {..<?n}" "j \<in> {..<?n}" "?g i = ?g j"
      then show "i = j"
        using full [of i] full [of j] mem_links_inj [OF mem_inv_links [OF mem] mem_inv_shape [OF mem], of i _ j] by force
    qed
    moreover have "?g i \<in> (\<Union>p \<in> ?D. table p) - {v}" if i: "i < ?n" for i
    proof -
      obtain w where w: "frames ?m i = Some w" using full [OF i] by blast
      then have "w \<noteq> v" using mem_links_frame [OF mem_inv_links [OF mem] w] assms(6,7) by auto
      moreover obtain p pp us where "procs s p = Some pp" "pageTable pp = Val us" "w \<in> set us"
        using core_owned [OF core] w unfolding owned_ok_def by blast
      then have "w \<in> (\<Union>p \<in> ?D. table p)" by (auto simp: table_def intro!: bexI [of _ p])
      ultimately show ?thesis using w by simp
    qed
    then have "?g ` {..<?n} \<subseteq> (\<Union>p \<in> ?D. table p) - {v}" by blast
    moreover have "finite (\<Union>p \<in> ?D. table p)" using fin by (auto simp: table_def split: cval.split)
    ultimately show ?thesis by (metis card_image card_lessThan card_mono finite_Diff)
  qed
  moreover have "v \<in> (\<Union>p \<in> ?D. table p)" using assms(3-5) by (auto simp: table_def intro!: bexI [of _ b])
  moreover have "finite (\<Union>p \<in> ?D. table p)" using fin by (auto simp: table_def split: cval.split)
  ultimately show False by (metis card_Diff1_less leD le_less_trans)
qed

lemma cold_resume:
  assumes "machine_inv rinv s" "resumed b s s'" "delivers ops b s s'"
  shows "cold ls s' = cold ls s" "roomy ls s \<Longrightarrow> roomy ls s'"
proof -
  obtain bp v ws vp where b: "only_moves b s s'" "procs s b = Some bp" "status bp = BLOCKED" "waitingOnPage bp = Some v"
    "procs s' b = Some (bp\<lparr>waitTime := 0, waitingOnPage := None, status := RUNNABLE\<rparr>)"
    "tpi (stats s') = tpi (stats s)"
    and v: "pageTable bp = Val ws" "v \<in> set ws" "managed (ms s) v = Some vp" "\<not> inMemory vp"
    and run: "page_in ops (Some v) (ms s) (rep s) = Inr (ms s', rep s')" and id: "page_id (ms s') = page_id (ms s)"
    and size: "length (memory (ms s')) = length (memory (ms s))"
    using assms by (rule delivered)
  let ?bp = "bp\<lparr>waitTime := 0, waitingOnPage := None, status := RUNNABLE\<rparr>"
  have known: "known (ms s') cp = known (ms s) cp" for cp by (simp add: known_def vpn_of_id [OF id] split: cval.split)
  have "known (ms s) ?bp = known (ms s) bp" "rest_pages ls ?bp = rest_pages ls bp"
    by (intro known_cong rest_pages_cong; simp)+
  then have same: "over_procs W s' = over_procs W s" if "W = unseen ls \<or> W = stock" for W
    using over_procs_moves [OF b(1) machine_finite [OF assms(1)] b(2), of W] b(5) known that
    by (auto simp: unseen_def stock_def)
  then show "cold ls s' = cold ls s" by (simp add: cold_def)
  assume room: "roomy ls s"
  note core = machine_inv_core [OF assms(1)]
  have heap: "vheap (ms s) v = Some vp" using v(3) by (simp add: managed_Some)
  have "Memory_hasFreePage (ms s)" using assms(1) room b(2) v(1,2) heap v(4) by (rule roomy_free)
  then obtain p r' where "page_in ops (Some v) (ms s) (rep s) = Inr (loaded v vp p (ms s), r')"
    using core_mem [OF core] core_rinv [OF core] v(3,4) by (elim page_in_free [rotated 4])
  then have m: "ms s' = loaded v vp p (ms s)" using run by simp
  have "settled (ms s') cp" if c: "procs s' c = Some cp" for c cp
  proof (cases "c = b")
    case True
    then have cp: "cp = ?bp" using c b(5) by simp
    have "settled (ms s) bp" using room b(2) by (simp add: roomy_def)
    then show ?thesis using b(4) unfolding cp m settled_def by (auto split: if_splits)
  next
    case False
    then have old: "procs s c = Some cp" using only_moves_other [OF b(1) False] c by simp
    then have "settled (ms s) cp" using room by (simp add: roomy_def)
    moreover have "vheap (ms s') w = vheap (ms s) w" if us: "pageTable cp = Val us" "w \<in> set us" for us w
    proof -
      have "pages_ok (ms s) bp" using core_proc [OF core b(2)] by (simp add: proc_ok_def)
      then obtain n where "page_key (ms s) v = Some (pid bp, n)" using v(1,2) by (auto simp: pages_ok_def)
      then have "w \<noteq> v" using tables_disjoint [OF assms(1) b(2) old False us] by blast
      then show ?thesis by (simp add: m)
    qed
    ultimately show ?thesis by (elim settled_keep) simp_all
  qed
  then show "roomy ls s'" using room same size by (simp add: roomy_def cold_def)
qed

lemma cold_turn:
  assumes "machine_inv rinv (mach \<sigma>)" "machine_inv rinv (mach \<sigma>')" "on_track ls \<sigma>" "turn \<sigma> \<sigma>'" "serves_turn ops rinv \<sigma> \<sigma>'"
  shows "cold ls (mach \<sigma>) \<le> cold ls (mach \<sigma>') + of_bool (tpi (stats (mach \<sigma>')) \<noteq> tpi (stats (mach \<sigma>)))"
    and "roomy ls (mach \<sigma>) \<Longrightarrow> roomy ls (mach \<sigma>')
      \<and> tpi (stats (mach \<sigma>')) + of_nat (cold ls (mach \<sigma>')) = tpi (stats (mach \<sigma>)) + of_nat (cold ls (mach \<sigma>))"
proof -
  let ?s = "mach \<sigma>" and ?t = "mach \<sigma>'"
  have "cold ls ?s \<le> cold ls ?t + of_bool (tpi (stats ?t) \<noteq> tpi (stats ?s))
    \<and> (roomy ls ?s \<longrightarrow> roomy ls ?t \<and> tpi (stats ?t) + of_nat (cold ls ?t) = tpi (stats ?s) + of_nat (cold ls ?s))"
  proof (cases "head_due ?s")
    case True
    then have "resumed (hd (pq ?s BLOCKED)) ?s ?t" "delivers ops (hd (pq ?s BLOCKED)) ?s ?t"
      using assms(4,5) by (simp_all add: turn_def serves_turn_def)
    moreover from this(1) have "tpi (stats ?t) = tpi (stats ?s)" by (simp add: resumed_def)
    ultimately show ?thesis using cold_resume [OF assms(1)] by simp
  next
    case due: False
    show ?thesis
    proof (cases "pq ?s RUNNABLE")
      case Nil
      then have "idled \<sigma> \<sigma>'" using assms(4) due by (simp add: turn_def)
      moreover from this have "tpi (stats ?t) = tpi (stats ?s)" by (auto simp: idled_def)
      ultimately show ?thesis using cold_idle [OF assms(1)] by simp
    next
      case (Cons p q)
      then have "reads_line p (sought (cur \<sigma>) p (ticked ?s)) ?t (cur \<sigma>')" "serves ops rinv p (sought (cur \<sigma>) p (ticked ?s)) ?t"
        "progressed p (ticked ?s) ?t \<or> missed p (ticked ?s) ?t"
        using assms(4,5) due by (auto simp: turn_def serves_turn_def)
      from cold_line [OF assms(1-3) refl Cons this] show ?thesis by blast
    qed
  qed
  then show "cold ls ?s \<le> cold ls ?t + of_bool (tpi (stats ?t) \<noteq> tpi (stats ?s))"
    and "roomy ls ?s \<Longrightarrow> roomy ls ?t \<and> tpi (stats ?t) + of_nat (cold ls ?t) = tpi (stats ?s) + of_nat (cold ls ?s)"
    by blast+
qed

lemma steps_roomy:
  assumes "steps env \<sigma> \<sigma>'" "env_ok ops env" "machine_inv rinv (mach \<sigma>)" "ends_inv (mach \<sigma>)" "calm (mach \<sigma>)"
    and "on_track ls \<sigma>" "roomy ls (mach \<sigma>)"
  shows "tpi (stats (mach \<sigma>')) + of_nat (cold ls (mach \<sigma>')) = tpi (stats (mach \<sigma>)) + of_nat (cold ls (mach \<sigma>))"
proof -
  let ?P = "\<lambda>\<tau>. roomy ls (mach \<tau>) \<and> tpi (stats (mach \<tau>)) + of_nat (cold ls (mach \<tau>))
    = tpi (stats (mach \<sigma>)) + of_nat (cold ls (mach \<sigma>))"
  have "?P \<sigma>'"
    by (rule steps_calm_inv [OF assms(1-6), where P = ?P]) (use assms(7) cold_turn(2) in auto)
  then show ?thesis by blast
qed

end

section \<open>The start and the end\<close>

lemma start_pages:
  assumes "grouped ls (length ls) s" "has_lines ls pp" "lines_ok pp" "procs s p = Some pp" "length ls < 2 ^ 64"
  shows "set (rest_pages ls pp) = {n. (pid pp, n) \<in> set ls}"
proof -
  let ?cs = "it_chain (lineIntervals pp)"
  have g: "currInterval pp = 0" "?cs = intervals ls (pid pp) (runs 0 ls)" "currentline pp = fst (?cs ! 0)"
    using assms(1,4) by (auto simp: grouped_def)
  have "0 < length ?cs" using assms(3) g(1) by (simp add: lines_ok_def)
  then obtain c0 cs where cs: "?cs = c0 # cs" by (cases ?cs) auto
  then have "rest_pages ls pp = concat (map (\<lambda>c. line_pages ls (fst c) (fst (snd c))) ?cs)"
    using g(1,3) by (simp add: rest_pages_def Let_def)
  then have rest: "set (rest_pages ls pp) = (\<Union>c \<in> set ?cs. set (line_pages ls (fst c) (fst (snd c))))" by simp
  have own: "own_lines ls (pid pp) c" if "c \<in> set ?cs" for c using assms(2) that by (simp add: has_lines_def)
  show ?thesis
  proof (intro equalityI subsetI)
    fix n assume "n \<in> set (rest_pages ls pp)"
    then obtain c l where c: "c \<in> set ?cs" "unat (fst c) \<le> l" "l \<le> unat (fst (snd c))" "n = snd (ls ! (l - 1))"
      unfolding rest line_pages_def by auto
    note o = own [OF c(1)]
    have "0 < unat (fst c)" "unat (fst (snd c)) \<le> length ls" using o by (simp_all add: own_lines_def word_less_nat_alt)
    then obtain j where j: "l = Suc j" "j < length ls" using c(2,3) by (cases l) auto
    then have "ls ! j = (pid pp, n)" using o c by (simp add: own_lines_def prod_eq_iff)
    then show "n \<in> {n. (pid pp, n) \<in> set ls}" using j(2) by (metis mem_Collect_eq nth_mem)
  next
    fix n assume "n \<in> {n. (pid pp, n) \<in> set ls}"
    then obtain j where j: "j < length ls" "ls ! j = (pid pp, n)" by (auto simp: in_set_conv_nth)
    then obtain a b where r: "(pid pp, a, b) \<in> set (runs 0 ls)" "a \<le> j" "j \<le> b" using runs_cover [of j ls 0] by auto
    then have b: "Suc b < 2 ^ 64 \<or> Suc b = 2 ^ 64" "b < length ls" using runs_bound [OF r(1)] assms(5) by auto
    then have small: "Suc a < 2 ^ 64" "Suc b < 2 ^ 64" using r assms(5) by auto
    let ?c = "(of_nat (Suc a), of_nat (Suc b), Val (gap_pos ls a)) :: ul64 \<times> ul64 \<times> fpos cval"
    have "?c \<in> set ?cs" using r(1) unfolding g(2) intervals_def by force
    moreover have "n \<in> set (line_pages ls (fst ?c) (fst (snd ?c)))"
      using j r(2,3) unat_of_nat_64 [OF small(1)] unat_of_nat_64 [OF small(2)]
      unfolding line_pages_def by (auto simp del: of_nat_Suc upt_Suc intro!: image_eqI [of _ _ "Suc j"])
    ultimately show "n \<in> set (rest_pages ls pp)" unfolding rest by blast
  qed
qed

lemma cold_start:
  assumes "grouped ls (length ls) s" "machine_inv rinv s" "pq s BLOCKED = []" "on_track ls (sim_start s)"
    and "\<forall>p pp. procs s p = Some pp \<longrightarrow> pageTable pp = Val []" "length ls < 2 ^ 64"
  shows "cold ls (mach (sim_start s)) = card (set ls)"
    and "card (set ls) \<le> length (memory (ms s)) \<Longrightarrow> roomy ls (mach (sim_start s))"
proof -
  let ?t = "mach (sim_start s)" and ?D = "dom (procs s)"
  let ?pid = "\<lambda>p. pid (the (procs s p))"
  let ?N = "\<lambda>p. Pair (?pid p) ` {n. (?pid p, n) \<in> set ls}"
  note sched = machine_sched [OF assms(2)]
  have t: "procs ?t = procs s" "ms ?t = ms s" by (simp_all add: sim_start_def)
  have fin: "finite ?D" using assms(2) by (rule machine_finite)
  have empty: "known (ms s) (the (procs s p)) = {}" if "p \<in> ?D" for p using assms(5) that by (auto simp: known_def)
  have "unseen ls (ms s) (the (procs s p)) = card (?N p)" if p: "p \<in> ?D" for p
  proof -
    obtain pp where pp: "procs s p = Some pp" using p by blast
    have "lines_ok pp" using core_proc [OF machine_inv_core [OF assms(2)] pp] by (simp add: proc_ok_def)
    moreover have "has_lines ls pp" using track_lines [OF assms(4)] pp t by simp
    ultimately have "set (rest_pages ls pp) = {n. (pid pp, n) \<in> set ls}"
      using start_pages [OF assms(1) _ _ pp assms(6)] by blast
    then show ?thesis using empty [OF p] pp by (simp add: unseen_def card_image inj_on_def)
  qed
  then have "cold ls ?t = (\<Sum>p \<in> ?D. card (?N p))" by (simp add: cold_def over_procs_def t)
  also have "\<dots> = card (\<Union>p \<in> ?D. ?N p)"
  proof (rule card_UN_disjoint [symmetric])
    have "?N p \<subseteq> set ls" for p by auto
    then show "\<forall>p \<in> ?D. finite (?N p)" by (meson List.finite_set finite_subset)
    show "\<forall>p \<in> ?D. \<forall>q \<in> ?D. p \<noteq> q \<longrightarrow> ?N p \<inter> ?N q = {}"
      using sched_ok_pid [OF sched] by fastforce
  qed (rule fin)
  also have "(\<Union>p \<in> ?D. ?N p) = set ls"
  proof (intro equalityI subsetI)
    fix l assume l: "l \<in> set ls"
    have "pid_at s ` set (pq s RUNNABLE) = fst ` set ls"
      using assms(1) by (metis grouped_def image_set order_refl set_firsts take_all)
    then obtain p where p: "p \<in> set (pq s RUNNABLE)" "pid_at s p = fst l" using l by (metis image_iff)
    then obtain pp where "procs s p = Some pp" using sched_ok_runnable [OF sched p(1)] by blast
    moreover from this p(2) have "pid pp = fst l" by (simp add: pid_at_def)
    ultimately show "l \<in> (\<Union>p \<in> ?D. ?N p)" using l by (intro UN_I [of p]) (auto intro: image_eqI [of _ _ "snd l"])
  qed auto
  finally show cold: "cold ls ?t = card (set ls)" .
  have "over_procs stock ?t = 0" using empty by (simp add: over_procs_def stock_def t)
  moreover have "settled (ms s) pp" if "procs s p = Some pp" for p pp using assms(5) that by (auto simp: settled_def)
  ultimately show "card (set ls) \<le> length (memory (ms s)) \<Longrightarrow> roomy ls ?t" using cold t by (simp add: roomy_def)
qed

lemma cold_over: "procs s = (\<lambda>_. None) \<Longrightarrow> cold ls s = 0"
  by (simp add: cold_def over_procs_def)

end
