(* ===== verification/PfsimMain.thy ===== *)
theory PfsimMain
  imports ColdFaults
begin

text \<open>
  The program, \<open>main.c\<close>: the command line, the checks on the sizes, and the composition of the
  modules. The options are the sequence of results of \<open>getopt\<close>; the file system is a partial
  map from names to contents.
\<close>

section \<open>The command line\<close>

datatype opt = OptM string | OptP string | OptH | OptUnknown | OptFile string

text \<open>\<open>strtol\<close> in base ten, with whether it sets \<open>errno\<close>, and the conversion of its result to \<open>int\<close>.\<close>

definition strtol :: "string \<Rightarrow> int \<times> bool" where
  "strtol cs =
     (let (neg, cs2) = scan_sign (dropWhile isspace cs); v = int (dec_val (takeWhile isdigit cs2));
          n = (if neg then - v else v)
      in if n > 2 ^ 63 - 1 then (2 ^ 63 - 1, True) else if n < - (2 ^ 63) then (- (2 ^ 63), True)
         else (n, False))"

definition to_int :: "int \<Rightarrow> int" where
  "to_int n = sint (word_of_int n :: u32)"

definition c_int :: "int \<Rightarrow> int res" where
  "c_int n = (if - (2 ^ 31) \<le> n \<and> n < 2 ^ 31 then Inr n else Inl SignedOverflow)"

record args =
  memsize :: int
  pagesize :: int
  filename :: "string option"

fun parse_opts :: "opt list \<Rightarrow> args \<Rightarrow> args res" where
  "parse_opts [] a = Inr a"
| "parse_opts (OptM arg # os) a =
     (let (n, err) = strtol arg in
      if err then Inl (ExitFailure ''Error parsing -m, must be a valid integer.'')
      else parse_opts os (a\<lparr>memsize := to_int n\<rparr>))"
| "parse_opts (OptP arg # os) a =
     (let (n, err) = strtol arg in
      if err then Inl (ExitFailure ''Error parsing -p, must be a valid integer.'')
      else parse_opts os (a\<lparr>pagesize := to_int n\<rparr>))"
| "parse_opts (OptH # os) a = Inl (ExitFailure ''Usage'')"
| "parse_opts (OptUnknown # os) a = Inl (ExitFailure ''Try -h for more information.'')"
| "parse_opts (OptFile arg # os) a = parse_opts os (a\<lparr>filename := Some arg\<rparr>)"

definition check_pagesize :: "int \<Rightarrow> int res" where
  "check_pagesize p =
     (if p \<noteq> 0 \<and> p mod 2 \<noteq> 0 then Inl (ExitFailure ''ERROR: page size must be a power of two'')
      else if p < 0 then Inl (ExitFailure ''ERROR: page size must be positive'')
      else if p = 0 then Inr 4096 else Inr p)"

definition check_memsize :: "int \<Rightarrow> int res" where
  "check_memsize m =
     (if m < 0 then Inl (ExitFailure ''ERROR: memory size must be positive'')
      else c_int ((if m = 0 then 1 else m) * 1048576))"

definition parseArgs :: "opt list \<Rightarrow> args res" where
  "parseArgs os =
     bnd (parse_opts os \<lparr>memsize = 0, pagesize = 0, filename = None\<rparr>) (\<lambda>a.
     bnd (check_pagesize (pagesize a)) (\<lambda>p.
     bnd (check_memsize (memsize a)) (\<lambda>m.
     if p > m then Inl (ExitFailure ''ERROR: specified page size is larger than memory size'')
     else if filename a = None then Inl (ExitFailure ''ERROR: must specify valid file name on command line'')
     else Inr (a\<lparr>memsize := m, pagesize := p\<rparr>))))"

section \<open>The program\<close>

text \<open>The machine before \<open>main\<close>, with the allocator's behaviour \<open>z\<close> and the opened file.\<close>

definition boot_machine :: "'r env \<Rightarrow> bool \<Rightarrow> string \<Rightarrow> 'r machine" where
  "boot_machine env z cs = \<lparr>ms = boot_memory z, rep = replace_boot (linked env), procs = (\<lambda>_. None),
     pnext = 0, pq = (\<lambda>_. []), stats = Stat_init, tracefile = \<lparr>contents = cs, offset = 0\<rparr>, log = []\<rparr>"

definition init_modules :: "'r env \<Rightarrow> int \<Rightarrow> 'r machine \<Rightarrow> 'r machine res" where
  "init_modules env n s =
     bnd (Memory_init (word_of_int n) (ms s)) (\<lambda>m.
     Inr (ProcessQueues_init (s\<lparr>ms := m, rep := Replace_initReplacementModule (linked env) n (rep s),
       stats := Stat_init\<rparr>)))"

definition pfsim :: "'r env \<Rightarrow> bool \<Rightarrow> (string \<Rightarrow> string option) \<Rightarrow> opt list \<Rightarrow> (ul64 \<times> 'r machine) res option" where
  "pfsim env z fs os =
     (case bnd (parseArgs os) (\<lambda>a.
           bnd (c_assert ''memsize > 0'' (memsize a > 0)) (\<lambda>_.
           bnd (c_assert ''pagesize > 0'' (pagesize a > 0)) (\<lambda>_.
           bnd (nonnull (filename a)) (\<lambda>name.
           let n = memsize a div pagesize a in
           bnd (c_assert ''numberOfPhysicalPages > 0'' (n > 0)) (\<lambda>_.
           bnd (case fs name of None \<Rightarrow> Inl (ExitFailure ''ERROR: error opening specified trace file'')
                | Some cs \<Rightarrow> Inr cs) (\<lambda>cs.
           bnd (init_modules env n (boot_machine env z cs)) (first_pass env))))))) of
        Inl e \<Rightarrow> Some (Inl e)
      | Inr s \<Rightarrow> Simulator_runSimulation env s)"

text \<open>How many processes the first pass over the file creates.\<close>

definition process_count :: "'r env \<Rightarrow> int \<Rightarrow> string \<Rightarrow> nat" where
  "process_count env n cs =
     (case bnd (init_modules env n (boot_machine env True cs)) (first_pass env) of
        Inl e \<Rightarrow> 0 | Inr s \<Rightarrow> card (dom (procs s)))"

text \<open>
  The simulation of the file gets stuck: at some turn the process whose turn it is finds no pair of numbers.
\<close>

definition runs_out :: "'r env \<Rightarrow> int \<Rightarrow> string \<Rightarrow> bool" where
  "runs_out env n cs \<longleftrightarrow> (\<exists>s0 s1. init_modules env n (boot_machine env True cs) = Inr s0
     \<and> first_pass env s0 = Inr s1 \<and> stuck env (sim_start s1))"

section \<open>What the checks ensure\<close>

lemma check_pagesize_ok: "check_pagesize p = Inr q \<longleftrightarrow> 0 \<le> p \<and> even p \<and> q = (if p = 0 then 4096 else p)"
  by (auto simp: check_pagesize_def even_iff_mod_2_eq_zero)

lemma check_memsize_ok: "check_memsize m = Inr q \<longleftrightarrow> 0 \<le> m \<and> m < 2048 \<and> q = (if m = 0 then 1 else m) * 1048576"
  by (auto simp: check_memsize_def c_int_def)

lemma parseArgs_ok:
  assumes "parseArgs os = Inr a"
  shows "0 < pagesize a" "even (pagesize a)" "pagesize a \<le> memsize a" "memsize a < 2 ^ 31"
    "1048576 dvd memsize a" "filename a \<noteq> None"
proof -
  obtain b p m where b: "check_pagesize (pagesize b) = Inr p" "check_memsize (memsize b) = Inr m"
    "\<not> p > m" "filename b \<noteq> None" "a = b\<lparr>memsize := m, pagesize := p\<rparr>"
    using assms by (auto simp: parseArgs_def bnd_eq_Inr split: if_splits)
  then show "0 < pagesize a" "even (pagesize a)" "pagesize a \<le> memsize a" "memsize a < 2 ^ 31"
    "1048576 dvd memsize a" "filename a \<noteq> None"
    by (auto simp: check_pagesize_ok check_memsize_ok)
qed

lemma pages_bounds:
  assumes "parseArgs os = Inr a"
  shows "0 < memsize a div pagesize a" "memsize a div pagesize a < 2 ^ 31"
proof -
  note p = parseArgs_ok [OF assms]
  show "0 < memsize a div pagesize a" using p(1,3) by (simp add: pos_imp_zdiv_pos_iff)
  have "1 < pagesize a" using p(1,2) by (cases "pagesize a = 1") auto
  then have "memsize a div pagesize a < memsize a" using p(1,3) by (intro int_div_less_self) simp_all
  with p(4) show "memsize a div pagesize a < 2 ^ 31" by simp
qed

section \<open>The program under the contract\<close>

lemma only_queries: "dom (vheap m) = queries m \<Longrightarrow> \<forall>w vp. vheap m w = Some vp \<longrightarrow> vp_pid vp = 0"
proof (intro allI impI)
  fix w vp assume "dom (vheap m) = queries m" and w: "vheap m w = Some vp"
  then have "w \<in> queries m" by blast
  with w show "vp_pid vp = 0" by (simp add: queries_def)
qed

lemma unat_pages: "0 < n \<Longrightarrow> n < 2 ^ 31 \<Longrightarrow> int (unat (word_of_int n :: ul64)) = n"
  by (simp add: uint_word_of_int)

context replacement_module
begin

lemma init_modules_ok:
  assumes "linked env = ops" "0 < n" "n < 2 ^ 31" "n mod 32 = 0" "length cs < 2 ^ 64 - 2"
  obtains s where "init_modules env n (boot_machine env True cs) = Inr s" "blank s"
    "mem_inv (ms s)" "rinv (ms s) (rep s)" "contents (tracefile s) = cs" "stats s = Stat_init" "log s = []"
    "length (memory (ms s)) = nat n" "vheap (ms s) = (\<lambda>_. None)"
proof -
  let ?n = "word_of_int n :: ul64" and ?b = "boot_memory True"
  let ?s = "ProcessQueues_init ((boot_machine env True cs)\<lparr>ms := initialised ?n ?b,
    rep := Replace_initReplacementModule ops n (replace_boot ops), stats := Stat_init\<rparr>)"
  have n: "int (unat ?n) = n" using assms(2,3) by (rule unat_pages)
  obtain k where k: "unat ?n = k" by simp
  have nk: "n = int k" using n unfolding k by simp
  have k_small: "0 < k" "k < 2 ^ 31" "k mod 32 = 0"
    using assms(2-4) unfolding nk by (simp, simp, presburger)
  have pos: "0 < ?n" and small: "unat ?n < 2 ^ 31"
    using k_small by (simp_all add: word_less_nat_alt k)
  have "unat (?n mod 32) = 0" using k_small(3) by (simp only: unat_mod k) simp
  then have "?n mod 32 = 0" by (simp only: unat_eq_0)
  then have "mem_inv (initialised ?n ?b)"
    using pos by (intro mem_inv_initialised) (simp_all add: boot_memory_def)
  moreover have "rinv (initialised ?n ?b) (Replace_initReplacementModule ops n (replace_boot ops))"
    using rinv_init [OF pos small, of ?b] n by (simp add: boot_memory_def)
  moreover have "init_modules env n (boot_machine env True cs) = Inr ?s"
    using assms(1) by (simp add: init_modules_def boot_machine_def Memory_init_eq)
  moreover have "blank ?s"
    using assms(5) frames_initialised [of ?n ?b]
    by (simp add: blank_def ProcessQueues_init_def boot_machine_def) (simp add: initialised_def boot_memory_def)
  moreover have "contents (tracefile ?s) = cs" "log ?s = []" by (simp_all add: ProcessQueues_init_def boot_machine_def)
  moreover have "unat ?n = nat n" using k nk by (simp only: nat_int)
  then have "length (memory (ms ?s)) = nat n" by (simp add: ProcessQueues_init_def initialised_def)
  moreover have "vheap (ms ?s) = (\<lambda>_. None)"
    by (simp add: ProcessQueues_init_def initialised_def boot_memory_def)
  ultimately show thesis using that by (simp add: ProcessQueues_init_def)
qed

text \<open>The machine when no process is left.\<close>

lemma done_state:
  assumes "machine_inv rinv s" "\<not> Simulator_notDone s"
  shows "mem_inv (ms s)" "rinv (ms s) (rep s)" "procs s = (\<lambda>_. None)" "pq s RUNNABLE = []" "pq s BLOCKED = []"
    "frames (ms s) = (\<lambda>_. None)"
proof -
  show q: "pq s RUNNABLE = []" "pq s BLOCKED = []"
    using assms(2) by (simp_all add: Simulator_notDone_def Process_existsWithStatus_def)
  show none: "procs s = (\<lambda>_. None)" using sched_ok_dom [OF machine_sched [OF assms(1)]] q by simp
  have "frames (ms s) i = None" for i
    using core_owned [OF machine_inv_core [OF assms(1)]] none unfolding owned_ok_def by (metis not_None_eq)
  then show "frames (ms s) = (\<lambda>_. None)" by blast
qed (use core_mem core_rinv machine_inv_core [OF assms(1)] in blast)+

lemma pfsim_boot:
  assumes "env_ok ops env" "parseArgs os = Inr a" "(memsize a div pagesize a) mod 32 = 0"
    and "filename a = Some name" "fs name = Some cs" "length cs < 2 ^ 64 - 2"
  obtains s where "pfsim env True fs os = (case first_pass env s of Inl e \<Rightarrow> Some (Inl e)
      | Inr s' \<Rightarrow> Simulator_runSimulation env s')"
    "blank s" "mem_inv (ms s)" "rinv (ms s) (rep s)" "contents (tracefile s) = cs" "stats s = Stat_init" "log s = []"
    "length (memory (ms s)) = nat (memsize a div pagesize a)" "vheap (ms s) = (\<lambda>_. None)"
    "process_count env (memsize a div pagesize a) cs =
      (case first_pass env s of Inl e \<Rightarrow> 0 | Inr s' \<Rightarrow> card (dom (procs s')))"
    "init_modules env (memsize a div pagesize a) (boot_machine env True cs) = Inr s"
proof -
  note args = parseArgs_ok [OF assms(2)] and pages = pages_bounds [OF assms(2)]
  have env: "linked env = ops" using assms(1) by (simp add: env_ok_def)
  obtain s where s: "init_modules env (memsize a div pagesize a) (boot_machine env True cs) = Inr s" "blank s"
    "mem_inv (ms s)" "rinv (ms s) (rep s)" "contents (tracefile s) = cs" "stats s = Stat_init" "log s = []"
    "length (memory (ms s)) = nat (memsize a div pagesize a)" "vheap (ms s) = (\<lambda>_. None)"
    using env pages assms(3,6) by (rule init_modules_ok)
  show thesis
    using assms(2,4,5) args(1,3) pages(1) s by (intro that [of s]) (simp_all add: pfsim_def process_count_def)
qed

lemma sim_start_ends:
  assumes "env_ok ops env" "machine_inv rinv s" "pq s BLOCKED = []" "card (dom (procs s)) < 2000000"
  shows "Simulator_runSimulation env s = Some (Inl read_error) \<and> stuck env (sim_start s)
    \<or> (\<exists>\<sigma>. Simulator_runSimulation env s = Some (Inr (time \<sigma>, mach \<sigma>)) \<and> steps env (sim_start s) \<sigma>
        \<and> \<not> Simulator_notDone (mach \<sigma>) \<and> machine_inv rinv (mach \<sigma>))"
proof -
  have inv: "machine_inv rinv (mach (sim_start s))" using assms(2) by (simp add: sim_start_def)
  obtain res where res: "sim_loop env (sim_start s) = Some res"
    using sim_loop_ends [OF inv ends_inv_start [OF assms(2-4)] assms(1)] by blast
  from loop_result [OF this assms(1) inv] res show ?thesis
    by (auto simp: good_end_def Simulator_runSimulation_def)
qed

text \<open>
  What the program does with any file. The first pass decides by \<open>trace_check\<close> whether it is taken; if it is,
  the simulation gets to its end, unless a process finds no line where it reads, and has counted every line
  exactly once: \<open>tmr\<close> is the number of lines, the time is the penalty of the faults and at most one more
  nanosecond for each reference and each fault, and only the search pages are left in the heap.
\<close>

theorem pfsim_total:
  assumes "env_ok ops env" "parseArgs os = Inr a" "(memsize a div pagesize a) mod 32 = 0"
    and "filename a = Some name" "fs name = Some cs" "length cs < 2 ^ 64 - 2"
    and "process_count env (memsize a div pagesize a) cs < 2000000"
  shows "case trace_check cs of Inl e \<Rightarrow> pfsim env True fs os = Some (Inl e)
    | Inr ps \<Rightarrow> pfsim env True fs os = Some (Inl read_error) \<and> runs_out env (memsize a div pagesize a) cs
      \<or> (\<exists>t s M k. pfsim env True fs os = Some (Inr (t, s)) \<and> mem_inv (ms s) \<and> rinv (ms s) (rep s)
        \<and> procs s = (\<lambda>_. None) \<and> frames (ms s) = (\<lambda>_. None) \<and> pq s RUNNABLE = [] \<and> pq s BLOCKED = []
        \<and> tmr (stats s) = of_nat (length ps) \<and> tpi (stats s) = of_nat M \<and> t = of_nat (2000000 * M + k)
        \<and> k \<le> length ps + M \<and> card (dom (vheap (ms s))) = 2 * (length ps + M)
        \<and> (\<forall>w vp. vheap (ms s) w = Some vp \<longrightarrow> vp_pid vp = 0))"
proof -
  obtain s where run: "pfsim env True fs os = (case first_pass env s of Inl e \<Rightarrow> Some (Inl e)
      | Inr s' \<Rightarrow> Simulator_runSimulation env s')"
    and s: "blank s" "mem_inv (ms s)" "rinv (ms s) (rep s)" and cs: "contents (tracefile s) = cs"
    and init: "stats s = Stat_init" "log s = []" and "length (memory (ms s)) = nat (memsize a div pagesize a)"
    and empty: "vheap (ms s) = (\<lambda>_. None)"
    and few: "process_count env (memsize a div pagesize a) cs =
      (case first_pass env s of Inl e \<Rightarrow> 0 | Inr s' \<Rightarrow> card (dom (procs s')))"
    and boot: "init_modules env (memsize a div pagesize a) (boot_machine env True cs) = Inr s"
    using assms(1-6) by (rule pfsim_boot)
  note pass = first_pass_ok [where rinv = rinv and env = env, OF s, unfolded cs]
  show ?thesis
  proof (cases "trace_check cs")
    case (Inl e)
    with pass run show ?thesis by simp
  next
    case (Inr ps)
    with pass obtain s' where s': "first_pass env s = Inr s'" "machine_inv rinv s'" "pq s' BLOCKED = []"
      "ms s' = ms s" "stats s' = stats s" "machine_work s' = length ps" by auto
    have card: "card (dom (procs s')) < 2000000" using assms(7) few s'(1) by simp
    from sim_start_ends [OF assms(1) s'(2,3) card]
    have "pfsim env True fs os = Some (Inl read_error) \<and> runs_out env (memsize a div pagesize a) cs
      \<or> (\<exists>t s M k. pfsim env True fs os = Some (Inr (t, s)) \<and> mem_inv (ms s) \<and> rinv (ms s) (rep s)
        \<and> procs s = (\<lambda>_. None) \<and> frames (ms s) = (\<lambda>_. None) \<and> pq s RUNNABLE = [] \<and> pq s BLOCKED = []
        \<and> tmr (stats s) = of_nat (length ps) \<and> tpi (stats s) = of_nat M \<and> t = of_nat (2000000 * M + k)
        \<and> k \<le> length ps + M \<and> card (dom (vheap (ms s))) = 2 * (length ps + M)
        \<and> (\<forall>w vp. vheap (ms s) w = Some vp \<longrightarrow> vp_pid vp = 0))"
    proof (elim disjE exE conjE)
      assume "Simulator_runSimulation env s' = Some (Inl read_error)" "stuck env (sim_start s')"
      with run s'(1) boot show ?thesis unfolding runs_out_def by auto
    next
      fix \<sigma> assume \<sigma>: "Simulator_runSimulation env s' = Some (Inr (time \<sigma>, mach \<sigma>))"
        "steps env (sim_start s') \<sigma>" "\<not> Simulator_notDone (mach \<sigma>)" "machine_inv rinv (mach \<sigma>)"
      have inv: "machine_inv rinv (mach (sim_start s'))" using s'(2) by (simp add: sim_start_def)
      have "vheap (ms (mach (sim_start s'))) = (\<lambda>_. None)" using s'(4) empty by (simp add: sim_start_def)
      note none = no_pages [OF this]
      obtain H M k where acc: "accounts (sim_start s') \<sigma> H M k" "tabled (ms (mach \<sigma>)) (procs (mach \<sigma>))"
        "card (queries (ms (mach \<sigma>))) = card (queries (ms (mach (sim_start s')))) + 2 * (H + M)"
        using steps_account [OF \<sigma>(2) assms(1) inv ends_inv_start [OF s'(2,3) card] none(1)] by blast
      note over = done_state [OF \<sigma>(4,3)]
      have heap: "dom (vheap (ms (mach \<sigma>))) = queries (ms (mach \<sigma>))"
        using acc(2) over(3) by (intro tabled_over) simp
      then have left: "card (dom (vheap (ms (mach \<sigma>)))) = 2 * (H + M)" using acc(3) none(2) by simp
      have "machine_work (mach (sim_start s')) = length ps" "waits_of (mach (sim_start s')) = []"
        "machine_work (mach \<sigma>) = 0" "waits_of (mach \<sigma>) = []"
        "time (sim_start s') = 0" "stats (mach (sim_start s')) = Stat_init"
        using s'(3,5,6) over(3,5) init by (simp_all add: sim_start_def machine_work_def waits_of_def)
      then have "H = length ps" "k \<le> length ps + M" "tmr (stats (mach \<sigma>)) = of_nat (length ps)"
        "tpi (stats (mach \<sigma>)) = of_nat M" "time \<sigma> = of_nat (2000000 * M + k)"
        using acc(1) by (simp_all add: accounts_def Stat_init_def)
      moreover have "\<forall>w vp. vheap (ms (mach \<sigma>)) w = Some vp \<longrightarrow> vp_pid vp = 0"
        by (rule only_queries [OF heap])
      moreover have "pfsim env True fs os = Some (Inr (time \<sigma>, mach \<sigma>))" using run s'(1) \<sigma>(1) by simp
      ultimately show ?thesis using left over by auto
    qed
    with Inr show ?thesis by simp
  qed
qed

text \<open>
  A trace that is short against the disk, with pids that the pid map keeps apart, is simulated to
  its end: every line by its own process, and with at most one fault for each.
\<close>

lemma short_run:
  assumes "env_ok ops env" "parseArgs os = Inr a" "(memsize a div pagesize a) mod 32 = 0"
    and "filename a = Some name" "fs name = Some (trace_text ls)" "length ls < 1000000" "pids_ok ls"
  obtains s' \<sigma> M k where "pfsim env True fs os = Some (Inr (time \<sigma>, mach \<sigma>))" "steps env (sim_start s') \<sigma>"
    "machine_inv rinv s'" "pq s' BLOCKED = []" "ends_inv (mach (sim_start s'))" "calm (mach (sim_start s'))"
    "on_track ls (sim_start s')" "grouped ls (length ls) s'" "stats s' = Stat_init"
    "length (memory (ms s')) = nat (memsize a div pagesize a)" "frames (ms s') = (\<lambda>_. None)"
    "log (mach \<sigma>) = []" "machine_inv rinv (mach \<sigma>)" "\<not> Simulator_notDone (mach \<sigma>)"
    "unat (tmr (stats (mach \<sigma>))) = length ls" "unat (tpi (stats (mach \<sigma>))) = M" "unat (time \<sigma>) = 2000000 * M + k"
    "M \<le> length ls" "k \<le> length ls + M" "card (dom (procs s')) \<le> 1 \<longrightarrow> k = length ls + M"
    "unat (trp (stats (mach \<sigma>))) = length ls + M" "card (set ls) \<le> M"
    "card (set ls) \<le> nat (memsize a div pagesize a) \<longrightarrow> M = card (set ls)"
    "card (dom (vheap (ms (mach \<sigma>)))) = 2 * (length ls + M)" "\<forall>w vp. vheap (ms (mach \<sigma>)) w = Some vp \<longrightarrow> vp_pid vp = 0"
proof -
  have len: "length (trace_text ls) < 2 ^ 64 - 2" using trace_text_bound [of ls] assms(6) by simp
  obtain s where run: "pfsim env True fs os = (case first_pass env s of Inl e \<Rightarrow> Some (Inl e)
      | Inr s' \<Rightarrow> Simulator_runSimulation env s')"
    and s: "blank s" "mem_inv (ms s)" "rinv (ms s) (rep s)" "contents (tracefile s) = trace_text ls"
    and init: "stats s = Stat_init" "log s = []" "length (memory (ms s)) = nat (memsize a div pagesize a)" "vheap (ms s) = (\<lambda>_. None)"
    and "process_count env (memsize a div pagesize a) (trace_text ls) =
      (case first_pass env s of Inl e \<Rightarrow> 0 | Inr s' \<Rightarrow> card (dom (procs s')))"
    and "init_modules env (memsize a div pagesize a) (boot_machine env True (trace_text ls)) = Inr s"
    using assms(1-5) len by (rule pfsim_boot)
  have pids: "\<forall>l \<in> set ls. fst l \<noteq> 0" using assms(7) by (simp add: pids_ok_def)
  with s obtain s' where s': "first_pass env s = Inr s'" "machine_inv rinv s'" "pq s' BLOCKED = []"
    "machine_work s' = length ls" "stats s' = stats s" "contents (tracefile s') = trace_text ls"
    and memory: "ms s' = ms s" "rep s' = rep s" "\<forall>p pp. procs s' p = Some pp \<longrightarrow> pageTable pp = Val []"
    by (rule first_pass_trace)
  note placed = first_pass_placed [OF s(1,4) assms(7) s'(1)]
  let ?\<sigma> = "sim_start s'"
  have inv: "machine_inv rinv (mach ?\<sigma>)" using s'(2) by (simp add: sim_start_def)
  have "machine_work s' < 1000000" using s'(4) assms(6) by simp
  note calm = start_calm [OF s'(2,3) this]
  have few: "card (dom (procs s')) < 2000000" using calm(2) by simp
  note ends = ends_inv_start [OF s'(2,3) few] and track = start_on_track [OF s'(2) placed(1) s'(6)]
  have "vheap (ms (mach ?\<sigma>)) = (\<lambda>_. None)" using memory(1) init(4) by (simp add: sim_start_def)
  note none = no_pages [OF this]
  obtain \<sigma> where \<sigma>: "sim_loop env ?\<sigma> = Some (Inr \<sigma>)" "log (mach \<sigma>) = log (mach ?\<sigma>)"
    using sim_loop_on_track [OF inv ends calm(1) track assms(1)] by blast
  have fin: "steps env ?\<sigma> \<sigma>" "\<not> Simulator_notDone (mach \<sigma>)" "machine_inv rinv (mach \<sigma>)"
    using loop_result [OF \<sigma>(1) assms(1) inv] by (simp_all add: good_end_def)
  obtain H M k where acc: "accounts ?\<sigma> \<sigma> H M k" "M + pending (mach ?\<sigma>) \<le> H + pending (mach \<sigma>)"
    "card (dom (procs (mach ?\<sigma>))) \<le> 1 \<longrightarrow> k = H + M" "cold ls (mach ?\<sigma>) \<le> M + cold ls (mach \<sigma>)"
    "tabled (ms (mach \<sigma>)) (procs (mach \<sigma>))"
    "card (queries (ms (mach \<sigma>))) = card (queries (ms (mach ?\<sigma>))) + 2 * (H + M)"
    using steps_account_calm [OF fin(1) assms(1) inv ends calm(1) track none(1) cold_turn(1)] by blast
  note over = done_state [OF fin(3,2)]
  have start: "machine_work (mach ?\<sigma>) = length ls" "waits_of (mach ?\<sigma>) = []" "time ?\<sigma> = 0"
    "stats (mach ?\<sigma>) = Stat_init" "log (mach ?\<sigma>) = []" "procs (mach ?\<sigma>) = procs s'"
    using s'(3-5) init placed(2) by (simp_all add: sim_start_def machine_work_def waits_of_def)
  have stop: "machine_work (mach \<sigma>) = 0" "waits_of (mach \<sigma>) = []" "pending (mach \<sigma>) = 0"
    using over(3-5) by (simp_all add: machine_work_def waits_of_def pending_def is_ready_def)
  have H: "H = length ls" and k: "k \<le> H + M" and count: "tmr (stats (mach \<sigma>)) = of_nat H"
    "tpi (stats (mach \<sigma>)) = of_nat M" "time \<sigma> = of_nat (2000000 * M + k)"
    using acc(1) start stop by (simp_all add: accounts_def Stat_init_def)
  have heap: "dom (vheap (ms (mach \<sigma>))) = queries (ms (mach \<sigma>))"
    using acc(5) over(3) by (intro tabled_over) simp
  then have left: "card (dom (vheap (ms (mach \<sigma>)))) = 2 * (H + M)" using acc(6) none(2) by simp
  have all_queries: "\<forall>w vp. vheap (ms (mach \<sigma>)) w = Some vp \<longrightarrow> vp_pid vp = 0"
    by (rule only_queries [OF heap])
  have M: "M \<le> H" using acc(2) stop(3) by simp
  have small: "H < 2 ^ 64" "M < 2 ^ 64" "2000000 * M + k < 2 ^ 64" using H k M assms(6) by simp_all
  have counts: "unat (tmr (stats (mach \<sigma>))) = H" "unat (tpi (stats (mach \<sigma>))) = M" "unat (time \<sigma>) = 2000000 * M + k"
    unfolding count using small by (simp_all only: unat_of_nat_64)
  have "trp (stats (mach \<sigma>)) = tmr (stats (mach \<sigma>)) + tpi (stats (mach \<sigma>))"
    using fin(1) assms(1) inv ends calm(1) track by (rule steps_busy) (simp add: start Stat_init_def)
  then have "trp (stats (mach \<sigma>)) = of_nat (H + M)" by (simp add: count)
  moreover have "H + M < 2 ^ 64" using H M assms(6) by simp
  ultimately have busy: "unat (trp (stats (mach \<sigma>))) = H + M" by (simp only: unat_of_nat_64)
  have "length ls < 2 ^ 64" using assms(6) by simp
  note cold = cold_start [OF placed(3) s'(2,3) track memory(3) this]
  have compulsory: "card (set ls) \<le> M" using acc(4) cold(1) cold_over [OF over(3)] by simp
  have "M = card (set ls)" if fits: "card (set ls) \<le> nat (memsize a div pagesize a)"
  proof -
    have "card (set ls) \<le> length (memory (ms s'))" using fits init(3) memory(1) by simp
    then have "roomy ls (mach ?\<sigma>)" by (rule cold(2))
    then have "tpi (stats (mach \<sigma>)) + of_nat (cold ls (mach \<sigma>)) = tpi (stats (mach ?\<sigma>)) + of_nat (cold ls (mach ?\<sigma>))"
      by (rule steps_roomy [OF fin(1) assms(1) inv ends calm(1) track])
    then have "tpi (stats (mach \<sigma>)) = of_nat (card (set ls))"
      using cold(1) cold_over [OF over(3)] start(4) by (simp add: Stat_init_def)
    moreover have "card (set ls) < 2 ^ 64" using compulsory small(2) by simp
    ultimately show ?thesis using counts(2) by (simp only: unat_of_nat_64)
  qed
  note fits = impI [OF this]
  have "pfsim env True fs os = Some (Inr (time \<sigma>, mach \<sigma>))"
    using run s'(1) \<sigma>(1) by (simp add: Simulator_runSimulation_def)
  then show thesis
    using fin(1) s'(2,3) ends calm(1) track placed(3)
    by (rule that [of \<sigma> s' M k])
      (use s(1) s'(5) init(1,3) memory(1) \<sigma>(2) start(5,6) fin(2,3) counts H k M acc(3) busy compulsory fits left all_queries in \<open>simp_all add: blank_def\<close>)
qed

theorem pfsim_short:
  assumes "env_ok ops env" "parseArgs os = Inr a" "(memsize a div pagesize a) mod 32 = 0"
    and "filename a = Some name" "fs name = Some (trace_text ls)" "length ls < 1000000" "pids_ok ls"
  shows "\<exists>t s. pfsim env True fs os = Some (Inr (t, s)) \<and> log s = []
    \<and> mem_inv (ms s) \<and> rinv (ms s) (rep s) \<and> procs s = (\<lambda>_. None) \<and> frames (ms s) = (\<lambda>_. None)
    \<and> unat (tmr (stats s)) = length ls \<and> unat (tpi (stats s)) \<le> length ls
    \<and> 2000000 * unat (tpi (stats s)) \<le> unat t \<and> unat t \<le> 2000001 * unat (tpi (stats s)) + length ls
    \<and> unat (trp (stats s)) = length ls + unat (tpi (stats s))
    \<and> card (set ls) \<le> unat (tpi (stats s))
    \<and> (card (set ls) \<le> nat (memsize a div pagesize a) \<longrightarrow> unat (tpi (stats s)) = card (set ls))
    \<and> card (dom (vheap (ms s))) = 2 * (length ls + unat (tpi (stats s)))
    \<and> (\<forall>w vp. vheap (ms s) w = Some vp \<longrightarrow> vp_pid vp = 0)"
proof -
  show ?thesis
    by (rule short_run [where fs = fs and name = name, OF assms])
      (use done_state in \<open>intro exI conjI; assumption | simp\<close>)
qed

text \<open>On an empty trace there is no process, and no time passes.\<close>

lemma pfsim_empty:
  assumes "env_ok ops env" "parseArgs os = Inr a" "(memsize a div pagesize a) mod 32 = 0"
    and "filename a = Some name" "fs name = Some []"
  obtains s where "pfsim env True fs os = Some (Inr (0, s))" "stats s = Stat_init"
proof -
  have "fs name = Some (trace_text [])" "length ([] :: (ul64 \<times> ul64) list) < 1000000" "pids_ok []"
    using assms(5) by (simp_all add: trace_text_def pids_ok_def)
  with assms(1-4) obtain s' \<sigma> M k where r: "pfsim env True fs os = Some (Inr (time \<sigma>, mach \<sigma>))" "steps env (sim_start s') \<sigma>"
    "machine_inv rinv s'" "pq s' BLOCKED = []" "ends_inv (mach (sim_start s'))" "calm (mach (sim_start s'))"
    "on_track [] (sim_start s')" "grouped [] (length ([] :: (ul64 \<times> ul64) list)) s'" "stats s' = Stat_init"
    "length (memory (ms s')) = nat (memsize a div pagesize a)" "frames (ms s') = (\<lambda>_. None)"
    "log (mach \<sigma>) = []" "machine_inv rinv (mach \<sigma>)" "\<not> Simulator_notDone (mach \<sigma>)"
    "unat (tmr (stats (mach \<sigma>))) = length ([] :: (ul64 \<times> ul64) list)" "unat (tpi (stats (mach \<sigma>))) = M" "unat (time \<sigma>) = 2000000 * M + k"
    "M \<le> length ([] :: (ul64 \<times> ul64) list)" "k \<le> length ([] :: (ul64 \<times> ul64) list) + M"
    "card (dom (procs s')) \<le> 1 \<longrightarrow> k = length ([] :: (ul64 \<times> ul64) list) + M"
    "unat (trp (stats (mach \<sigma>))) = length ([] :: (ul64 \<times> ul64) list) + M" "card (set ([] :: (ul64 \<times> ul64) list)) \<le> M"
    "card (set ([] :: (ul64 \<times> ul64) list)) \<le> nat (memsize a div pagesize a) \<longrightarrow> M = card (set ([] :: (ul64 \<times> ul64) list))"
    "card (dom (vheap (ms (mach \<sigma>)))) = 2 * (length ([] :: (ul64 \<times> ul64) list) + M)"
    "\<forall>w vp. vheap (ms (mach \<sigma>)) w = Some vp \<longrightarrow> vp_pid vp = 0"
    by (rule short_run)
  have "pq s' RUNNABLE = []" using r(8) by (simp add: grouped_def firsts_def)
  then have "\<not> Simulator_notDone (mach (sim_start s'))"
    using r(4) by (simp add: Simulator_notDone_def Process_existsWithStatus_def sim_start_def)
  with r(2) have "\<sigma> = sim_start s'" by (auto elim: steps_cases)
  then show thesis using that [of "mach \<sigma>"] r(1,9) by (simp add: sim_start_def)
qed

lemma process_count_le:
  assumes "linked env = ops" "0 < n" "n < 2 ^ 31" "n mod 32 = 0" "length cs < 2 ^ 64 - 2"
  shows "process_count env n cs \<le> length cs"
proof -
  obtain s where s: "init_modules env n (boot_machine env True cs) = Inr s" "blank s"
    "mem_inv (ms s)" "rinv (ms s) (rep s)" "contents (tracefile s) = cs" "stats s = Stat_init" "log s = []"
    "length (memory (ms s)) = nat n" "vheap (ms s) = (\<lambda>_. None)"
    using assms by (rule init_modules_ok)
  show ?thesis
    using first_pass_ok [where rinv = rinv and env = env, OF s(2-4)] s(1,5) trace_check_length [of cs]
    by (fastforce simp: process_count_def split: sum.splits)
qed

end

text \<open>A trace of a single pid: the faults are those of the reference queue, and the time is exact.\<close>

context numbered_module
begin

theorem pfsim_single:
  assumes "env_ok ops env" "parseArgs os = Inr a" "(memsize a div pagesize a) mod 32 = 0"
    and "filename a = Some name" "fs name = Some (trace_text ls)" "length ls < 1000000" "pids_ok ls"
    and "\<forall>l \<in> set ls. fst l = i" "F = faults vtouch (nat (memsize a div pagesize a)) [] (map snd ls)"
  shows "\<exists>t s. pfsim env True fs os = Some (Inr (t, s)) \<and> log s = [] \<and> unat (tmr (stats s)) = length ls
    \<and> unat (tpi (stats s)) = F \<and> unat t = 2000001 * F + length ls \<and> unat (trp (stats s)) = length ls + F"
proof -
  obtain s' \<sigma> M k where r: "pfsim env True fs os = Some (Inr (time \<sigma>, mach \<sigma>))" "steps env (sim_start s') \<sigma>"
    "machine_inv rinv s'" "pq s' BLOCKED = []" "ends_inv (mach (sim_start s'))" "calm (mach (sim_start s'))"
    "on_track ls (sim_start s')" "grouped ls (length ls) s'" "stats s' = Stat_init"
    "length (memory (ms s')) = nat (memsize a div pagesize a)" "frames (ms s') = (\<lambda>_. None)"
    "log (mach \<sigma>) = []" "machine_inv rinv (mach \<sigma>)" "\<not> Simulator_notDone (mach \<sigma>)"
    "unat (tmr (stats (mach \<sigma>))) = length ls" "unat (tpi (stats (mach \<sigma>))) = M" "unat (time \<sigma>) = 2000000 * M + k"
    "M \<le> length ls" "k \<le> length ls + M" "card (dom (procs s')) \<le> 1 \<longrightarrow> k = length ls + M"
    "unat (trp (stats (mach \<sigma>))) = length ls + M" "card (set ls) \<le> M"
    "card (set ls) \<le> nat (memsize a div pagesize a) \<longrightarrow> M = card (set ls)"
    "card (dom (vheap (ms (mach \<sigma>)))) = 2 * (length ls + M)" "\<forall>w vp. vheap (ms (mach \<sigma>)) w = Some vp \<longrightarrow> vp_pid vp = 0"
    using assms(1-7) by (rule short_run)
  have "length ls < 2 ^ 64" using assms(6) by simp
  note one = one_pid_start [OF r(8,3,4) assms(8) this]
  have "rinv (ms s') (rep s')" using core_rinv [OF machine_inv_core [OF r(3)]] .
  then have "order (rep s') = []" using order_length [of "ms s'" "rep s'"] r(11) by simp
  then have start: "lone order vtouch (nat (memsize a div pagesize a)) ls (of_nat F) (mach (sim_start s'))"
    using one r(9,10) unfolding assms(9) by (intro lone_start) (simp_all add: Stat_init_def)
  have "machine_inv rinv (mach (sim_start s'))" using r(3) by (simp add: sim_start_def)
  then have "tpi (stats (mach \<sigma>)) = of_nat F"
    using steps_lone [OF r(2) assms(1) _ r(5-7) start] done_state(3) [OF r(13,14)] by (blast intro: lone_over)
  moreover have "F < 2 ^ 64"
    using faults_le [of vtouch "nat (memsize a div pagesize a)" "[]" "map snd ls"] assms(6,9) by simp
  ultimately have "M = F" using r(16) by (simp only: unat_of_nat_64)
  moreover have "k = length ls + M" using r(20) one_pid_card [OF one] by blast
  ultimately show ?thesis
    using r(1,12,15-17,21) by (intro exI [of _ "time \<sigma>"] exI [of _ "mach \<sigma>"]) simp
qed

end

end
