(* ===== verification/Output.thy ===== *)
theory Output
  imports Complex_Main PfsimMain "HOL-Library.Log_Nat"
begin

text \<open>
  What the program prints: the parameters, the statistics with their single-precision divisions,
  and the queues. Standard output is a string; single-precision numbers are kept exactly, as
  \<open>m * 2 ^ e\<close>. The numbers that the program divides are below \<open>2 ^ 64\<close>, so that neither an overflow nor a
  subnormal number can arise.
\<close>

section \<open>Single precision\<close>

text \<open>A division of naturals to the nearest integer, ties to even.\<close>

definition round_even :: "nat \<Rightarrow> nat \<Rightarrow> nat" where
  "round_even a b = (let q = a div b; r = a mod b in
     if 2 * r < b \<or> 2 * r = b \<and> even q then q else q + 1)"

text \<open>\<open>a * 2 ^ k\<close>, and \<open>a\<close> for negative \<open>k\<close>.\<close>

definition scale :: "nat \<Rightarrow> int \<Rightarrow> nat" where
  "scale a k = a * 2 ^ nat k"

datatype cfloat = Fin nat int | Inf | NaN

text \<open>The \<open>float\<close> nearest to \<open>a / b\<close>, with a significand of 24 bits.\<close>

definition float_ratio :: "nat \<Rightarrow> nat \<Rightarrow> cfloat" where
  "float_ratio a b = (if a = 0 then Fin 0 0 else
     let k = int (floorlog 2 a) - int (floorlog 2 b) - 24;
         e = (if scale a (- k) < 2 ^ 24 * scale b k then k else k + 1)
     in Fin (round_even (scale a (- e)) (scale b e)) e)"

definition float_of_ulong :: "ul64 \<Rightarrow> cfloat" where
  "float_of_ulong x = float_ratio (unat x) 1"

fun float_div :: "cfloat \<Rightarrow> cfloat \<Rightarrow> cfloat" where
  "float_div NaN y = NaN"
| "float_div x NaN = NaN"
| "float_div Inf Inf = NaN"
| "float_div Inf (Fin n d) = Inf"
| "float_div (Fin m e) Inf = Fin 0 0"
| "float_div (Fin m e) (Fin n d) =
     (if n = 0 then (if m = 0 then NaN else Inf) else float_ratio (scale m (e - d)) (scale n (d - e)))"

section \<open>\<open>printf\<close>\<close>

definition pad_left :: "char \<Rightarrow> nat \<Rightarrow> string \<Rightarrow> string" where
  "pad_left c n cs = replicate (n - length cs) c @ cs"

text \<open>\<open>%lu\<close>, \<open>%ld\<close> and \<open>%i\<close>.\<close>

definition show_lu :: "ul64 \<Rightarrow> string" where
  "show_lu x = show_nat (unat x)"

definition show_int :: "int \<Rightarrow> string" where
  "show_int i = (if i < 0 then CHR ''-'' # show_nat (nat (- i)) else show_nat (nat i))"

text \<open>
  \<open>%f\<close>: six digits after the point, the last one rounded. How the library writes a number that is
  not one, with its sign, is the parameter \<open>nan\<close>.
\<close>

definition millionths :: "nat \<Rightarrow> int \<Rightarrow> nat" where
  "millionths m e = round_even (scale (m * 10 ^ 6) e) (scale 1 (- e))"

fun show_f :: "string \<Rightarrow> cfloat \<Rightarrow> string" where
  "show_f nan NaN = nan"
| "show_f nan Inf = ''inf''"
| "show_f nan (Fin m e) = show_nat (millionths m e div 10 ^ 6) @ ''.''
     @ pad_left (CHR ''0'') 6 (show_nat (millionths m e mod 10 ^ 6))"

text \<open>The escape sequences of the terminal.\<close>

definition esc :: "string \<Rightarrow> string" where
  "esc code = CHR 27 # ''['' @ code @ ''m''"

definition titled :: "string \<Rightarrow> string" where
  "titled t = esc ''1'' @ esc ''7'' @ t @ esc ''0'' @ [CHR 10]"

section \<open>Statistics\<close>

definition stat_line :: "string \<Rightarrow> string \<Rightarrow> string \<Rightarrow> string" where
  "stat_line colour name value = ''  '' @ esc colour @ name @ esc ''0'' @ '' '' @ value @ [CHR 10]"

definition Stat_printStats :: "string \<Rightarrow> ul64 \<Rightarrow> mstate \<Rightarrow> stat_t \<Rightarrow> string" where
  "Stat_printStats nan t s st =
     (let amu = float_div (float_of_ulong (tmu st)) (float_of_ulong t);
          arp = float_div (float_of_ulong (trp st)) (float_of_ulong t) in
      titled '' PERFORMANCE ''
      @ stat_line ''91'' ''AMU:  '' (show_f nan (float_div amu (float_ratio (nat (Memory_getTotalSize s)) 1)))
      @ stat_line ''33'' ''ARP:  '' (show_f nan arp)
      @ stat_line ''92'' ''TMR:  '' (show_lu (tmr st))
      @ stat_line ''96'' ''TPI:  '' (show_lu (tpi st))
      @ stat_line ''95'' ''RTime:'' (show_lu t))"

section \<open>Queues\<close>

text \<open>\<open>it_print\<close> as text. The position of a node is read, and may be indeterminate.\<close>

fun it_print_text :: "(ul64 \<times> fpos cval \<times> ul64) list \<Rightarrow> string res" where
  "it_print_text [] = Inr []"
| "it_print_text ((l, f, h) # ns) =
     bnd (rd f) (\<lambda>x.
     bnd (it_print_text ns) (\<lambda>rest.
     Inr (''low: '' @ show_lu l @ '' ('' @ show_nat x @ ''), high: '' @ show_lu h @ ''; '' @ rest)))"

definition process_line :: "(paddr \<Rightarrow> string) \<Rightarrow> nat \<Rightarrow> paddr \<Rightarrow> Process \<Rightarrow> string" where
  "process_line ptr i p pp = CHR 9 # esc ''2'' @ ''->'' @ esc ''0'' @ esc ''33'' @ pad_left (CHR '' '') 3 (show_nat i)
     @ esc ''0'' @ esc ''1'' @ '' ('' @ ptr p @ '') pid: '' @ show_int (sint (pid pp)) @ '' start: ''
     @ show_int (sint (firstline pp)) @ '' current: '' @ show_int (sint (currentline pp)) @ '' end: ''
     @ show_int (sint (lastline pp)) @ '' '' @ esc ''0'' @ '', INTERVALS: ''"

text \<open>
  The number of the statuses, which the code's \<open>switch\<close> lists as a case of its own, is not a status of the model:
  the function reads \<open>pq\<close> behind its end for it, before the \<open>switch\<close>.
\<close>

text \<open>The loop; \<open>ptr\<close> is how \<open>%p\<close> writes a pointer.\<close>

fun print_from :: "(paddr \<Rightarrow> string) \<Rightarrow> (paddr \<Rightarrow> Process option) \<Rightarrow> nat \<Rightarrow> paddr list \<Rightarrow> string res" where
  "print_from ptr h i [] = Inr []"
| "print_from ptr h i (p # q) =
     bnd (deref h p) (\<lambda>pp.
     bnd (it_print_text (it_print (lineIntervals pp))) (\<lambda>nodes.
     bnd (print_from ptr h (Suc i) q) (\<lambda>rest.
     Inr (process_line ptr i p pp @ nodes @ CHR 10 # rest))))"

definition ProcessQueue_printQueue :: "(paddr \<Rightarrow> string) \<Rightarrow> ProcessStatus \<Rightarrow> 'r machine \<Rightarrow> string res" where
  "ProcessQueue_printQueue ptr q_s s =
     (let title = ''Queue: '' @ (case q_s of RUNNABLE \<Rightarrow> ''RUNNABLE'' | BLOCKED \<Rightarrow> ''BLOCKED'' | FINISHED \<Rightarrow> ''FINISHED'')
            @ [CHR 10] in
      if pq s q_s = [] then Inr (title @ ''Empty Queue '' @ [CHR 10])
      else bnd (print_from ptr (procs s) 0 (pq s q_s)) (\<lambda>text. Inr (title @ text)))"

section \<open>The program\<close>

definition usage_line :: "string \<Rightarrow> string" where
  "usage_line name = ''  ./pfsim-'' @ name @ '' [-m real memory size] [-p page size] <tracefile>'' @ [CHR 10]"

definition usage_text :: string where
  "usage_text = ''Usage:'' @ [CHR 10] @ usage_line ''lru'' @ usage_line ''fifo'' @ usage_line ''clock'' @ usage_line ''random''
     @ [CHR 10] @ ''Options:'' @ [CHR 10] @ ''  -h'' @ [CHR 9] @ ''Prints this message.'' @ [CHR 10]
     @ ''  -m'' @ [CHR 9] @ ''Amount of physical memory avaliable, in megabytes. Defaults to 1 MB.'' @ [CHR 10]
     @ ''  -p'' @ [CHR 9] @ ''Page size as a number of bytes, must be a power of two. Defaults to 4096 bytes.'' @ [CHR 10]"

text \<open>What \<open>parseArgs\<close> writes to standard output; \<open>prog\<close> is the base name of the program.\<close>

fun parse_stdout :: "string \<Rightarrow> opt list \<Rightarrow> string" where
  "parse_stdout prog [] = []"
| "parse_stdout prog (OptM arg # os) = (if snd (strtol arg) then [] else parse_stdout prog os)"
| "parse_stdout prog (OptP arg # os) = (if snd (strtol arg) then [] else parse_stdout prog os)"
| "parse_stdout prog (OptH # os) = usage_text"
| "parse_stdout prog (OptUnknown # os) =
     ''Try '' @ [CHR 39] @ prog @ '' -h'' @ [CHR 39] @ '' for more information.'' @ [CHR 10]"
| "parse_stdout prog (OptFile arg # os) = parse_stdout prog os"

definition parameters_text :: "string \<Rightarrow> args \<Rightarrow> string" where
  "parameters_text name a = titled '' PARAMETERS '' @ ''  '' @ esc ''1'' @ name @ esc ''0'' @ [CHR 10]
     @ ''  page size: '' @ show_int (pagesize a) @ '' B'' @ [CHR 10]
     @ ''  memory size: '' @ show_int (memsize a div 1048576) @ '' MB'' @ [CHR 10]
     @ ''  = '' @ show_int (memsize a div pagesize a) @ '' pages'' @ [CHR 10]"

definition opened :: "(string \<Rightarrow> string option) \<Rightarrow> opt list \<Rightarrow> (string \<times> args) option" where
  "opened fs os = (case parseArgs os of Inl e \<Rightarrow> None
     | Inr a \<Rightarrow> (case filename a of None \<Rightarrow> None
        | Some name \<Rightarrow> (case fs name of None \<Rightarrow> None | Some cs \<Rightarrow> Some (name, a))))"

text \<open>The standard output of a run that ends, with the fault if there is one.\<close>

definition main_stdout :: "'r env \<Rightarrow> bool \<Rightarrow> string \<Rightarrow> string \<Rightarrow> (string \<Rightarrow> string option) \<Rightarrow> opt list
    \<Rightarrow> (string \<times> unit res) option" where
  "main_stdout env z nan prog fs os =
     map_option (\<lambda>out.
       (parse_stdout prog os
        @ (case opened fs os of None \<Rightarrow> [] | Some (name, a) \<Rightarrow> parameters_text name a)
        @ (case out of Inl e \<Rightarrow> [] | Inr (t, s) \<Rightarrow> Stat_printStats nan t (ms s) (stats s)),
        case out of Inl e \<Rightarrow> Inl e | Inr r \<Rightarrow> Inr ()))
     (pfsim env z fs os)"

section \<open>The rounding\<close>

lemma round_even_error:
  assumes "0 < b"
  shows "\<bar>real (round_even a b) - real a / real b\<bar> \<le> 1 / 2"
proof -
  let ?q = "a div b" and ?r = "a mod b"
  have "real a = real ?q * real b + real ?r" by (metis of_nat_add of_nat_mult div_mult_mod_eq)
  then have x: "real a / real b = real ?q + real ?r / real b" using assms by (simp add: field_simps)
  have "?r < b" using assms by simp
  then have r: "real ?r / real b < 1" "0 \<le> real ?r / real b" using assms by simp_all
  show ?thesis
  proof (cases "2 * ?r < b \<or> 2 * ?r = b \<and> even ?q")
    case True
    then have "real (2 * ?r) \<le> real b" by linarith
    then have "real ?r / real b \<le> 1 / 2" using assms by (simp add: field_simps)
    moreover have "round_even a b = ?q" using True by (simp only: round_even_def Let_def if_True)
    ultimately show ?thesis using x r by simp
  next
    case False
    then have "b \<le> 2 * ?r" by auto
    then have "real b \<le> real (2 * ?r)" by linarith
    then have "1 / 2 \<le> real ?r / real b" using assms by (simp add: field_simps)
    moreover have "round_even a b = ?q + 1" using False by (simp only: round_even_def Let_def if_False)
    ultimately show ?thesis using x r by simp
  qed
qed

lemma round_even_exact: "0 < b \<Longrightarrow> round_even (a * b) b = a"
  by (simp add: round_even_def)

text \<open>The value of a number, and the error of the nearest one.\<close>

definition value_of :: "nat \<Rightarrow> int \<Rightarrow> real" where
  "value_of m e = real m * 2 powi e"

lemma real_scale: "real (scale a k) = real a * (if 0 \<le> k then 2 powi k else 1)"
  by (simp add: scale_def power_int_def)

lemma scale_ratio: "real (scale a (- k)) / real (scale b k) = real a / real b / 2 powi k"
  by (cases "0 \<le> k"; cases "k = 0") (simp_all add: real_scale power_int_minus field_simps)

lemma scale_pos: "0 < b \<Longrightarrow> 0 < scale b k"
  by (simp add: scale_def)

text \<open>The exponent leaves at least 24 bits of the quotient.\<close>

definition float_exp :: "nat \<Rightarrow> nat \<Rightarrow> int" where
  "float_exp a b = (let k = int (floorlog 2 a) - int (floorlog 2 b) - 24
     in if scale a (- k) < 2 ^ 24 * scale b k then k else k + 1)"

lemma float_ratio_eq:
  "0 < a \<Longrightarrow> float_ratio a b = Fin (round_even (scale a (- float_exp a b)) (scale b (float_exp a b))) (float_exp a b)"
  by (simp add: float_ratio_def float_exp_def Let_def)

lemma float_exp_le:
  assumes "0 < a" "0 < b"
  shows "2 ^ 23 * 2 powi float_exp a b \<le> real a / real b"
proof -
  let ?la = "int (floorlog 2 a)" and ?lb = "int (floorlog 2 b)" and ?x = "real a / real b"
  let ?k = "?la - ?lb - 24"
  have "floorlog 2 a \<noteq> 0" using assms(1) by (simp add: floorlog_eq_zero_iff)
  moreover have "2 ^ (floorlog 2 a - 1) \<le> a" "b < 2 ^ floorlog 2 b"
    using floorlog_bounds [of a 2] floorlog_bounds [of b 2] assms by simp_all
  then have "2 ^ (floorlog 2 a - 1) \<le> real a" "real b < 2 ^ floorlog 2 b"
    by (metis of_nat_le_iff of_nat_numeral of_nat_power, metis of_nat_less_iff of_nat_numeral of_nat_power)
  ultimately have "2 powi (?la - 1) \<le> real a" "real b < 2 powi ?lb"
    by (simp_all add: power_int_def nat_diff_distrib)
  then have "2 powi (?la - 1) * real b \<le> real a * 2 powi ?lb" using assms by (intro mult_mono) simp_all
  then have low: "2 powi (?la - 1) / 2 powi ?lb \<le> ?x" using assms by (simp add: field_simps)
  have "2 powi (?la - 1) / 2 powi ?lb = (2 powi 23 :: real) * 2 powi ?k"
    by (simp add: power_int_diff power_int_add field_simps)
  with low have "2 ^ 23 * 2 powi ?k \<le> ?x" by (simp add: power_int_def)
  moreover have "2 ^ 23 * 2 powi (?k + 1) \<le> ?x" if "\<not> scale a (- ?k) < 2 ^ 24 * scale b ?k"
  proof -
    from that have "2 ^ 24 * scale b ?k \<le> scale a (- ?k)" by (rule leI)
    then have "real (2 ^ 24 * scale b ?k) \<le> real (scale a (- ?k))" by (simp only: of_nat_le_iff)
    then have "2 ^ 24 * real (scale b ?k) \<le> real (scale a (- ?k))" by (simp only: of_nat_mult of_nat_power of_nat_numeral)
    then have "2 ^ 24 \<le> real (scale a (- ?k)) / real (scale b ?k)"
      using scale_pos [OF assms(2), of ?k] by (simp only: le_divide_eq of_nat_0_less_iff if_True)
    then have "2 ^ 24 \<le> ?x / 2 powi ?k" by (simp only: scale_ratio)
    then have "2 ^ 24 * 2 powi ?k \<le> ?x" by (simp only: le_divide_eq) (simp split: if_splits)
    moreover have "2 ^ 23 * 2 powi (j + 1) = (2 ^ 24 * 2 powi j :: real)" for j by (simp add: power_int_add)
    ultimately show ?thesis by metis
  qed
  ultimately show ?thesis
    unfolding float_exp_def Let_def by (cases "scale a (- ?k) < 2 ^ 24 * scale b ?k")
      (simp_all only: if_True if_False not_False_eq_True True_implies_equals)
qed

lemma float_ratio_error:
  assumes "0 < a" "0 < b"
  obtains m e where "float_ratio a b = Fin m e" "\<bar>value_of m e - real a / real b\<bar> \<le> real a / real b / 2 ^ 24"
proof -
  define e where "e = float_exp a b"
  let ?m = "round_even (scale a (- e)) (scale b e)" and ?x = "real a / real b" and ?p = "2 powi e :: real"
  have "\<bar>real ?m - ?x / ?p\<bar> \<le> 1 / 2"
    using round_even_error [OF scale_pos [OF assms(2)], of "scale a (- e)" e] by (simp only: scale_ratio)
  then have "\<bar>real ?m - ?x / ?p\<bar> * ?p \<le> 1 / 2 * ?p" by (rule mult_right_mono) simp
  moreover have "value_of ?m e - ?x = (real ?m - ?x / ?p) * ?p"
    by (simp only: value_of_def left_diff_distrib) simp
  then have "\<bar>value_of ?m e - ?x\<bar> = \<bar>real ?m - ?x / ?p\<bar> * ?p" by (simp only: abs_mult) simp
  ultimately have err: "\<bar>value_of ?m e - ?x\<bar> \<le> 1 / 2 * ?p" by (simp only:)
  have "2 ^ 23 * ?p \<le> ?x" using float_exp_le [OF assms] by (simp only: e_def)
  moreover have "2 ^ 23 * p \<le> x \<Longrightarrow> 1 / 2 * p \<le> x / 2 ^ 24" for p x :: real by simp
  ultimately have "1 / 2 * ?p \<le> ?x / 2 ^ 24" by blast
  with err have "\<bar>value_of ?m e - ?x\<bar> \<le> ?x / 2 ^ 24" by (rule order_trans)
  then show thesis using that float_ratio_eq [OF assms(1)] by (simp add: e_def)
qed

end
