(* ===== verification/PolicyProps.thy ===== *)
theory PolicyProps
  imports ReplaceFifo ReplaceLru ReplaceClock ReplaceRandom
begin

text \<open>
  What the replacement modules do, stated on the code's operations: the pager with FIFO and LRU
  is a bounded queue, LRU keeps the most recently used pages, CLOCK gives a second chance, and
  releasing a page leaves nothing behind.
\<close>

section \<open>Most recently used\<close>

text \<open>The queue with \<open>touch\<close> of LRU holds the last \<open>n\<close> distinct pages of the references.\<close>

definition last_used :: "nat \<Rightarrow> 'a list \<Rightarrow> 'a list" where
  "last_used n vs = drop (length (remdups vs) - n) (remdups vs)"

lemma remdups_snoc: "remdups (vs @ [v]) = removeAll v (remdups vs) @ [v]"
  by (induction vs) (auto simp: removeAll_filter_not_eq filter_id_conv)

lemma lru_queue_step:
  assumes "0 < n"
  shows "queue_reference (\<lambda>v q. remove1 v q @ [v]) n v (last_used n vs) = last_used n (vs @ [v])"
proof -
  define D where "D = remdups vs"
  define pre where "pre = take (length D - n) D"
  define q where "q = drop (length D - n) D"
  have D: "D = pre @ q" "distinct D" by (simp_all add: pre_def q_def D_def)
  have len: "length q = min n (length D)" "length pre = length D - n"
    by (simp_all add: pre_def q_def)
  have q: "last_used n vs = q" by (simp add: last_used_def q_def D_def)
  have new: "last_used n (vs @ [v]) = drop (Suc (length (removeAll v D)) - n) (removeAll v D @ [v])"
    by (simp add: last_used_def remdups_snoc D_def)
  have all1: "removeAll v xs = remove1 v xs" if "distinct xs" for xs :: "'a list"
    using that by (simp add: distinct_remove1_removeAll)
  have dist: "distinct pre" "distinct q" using D by auto
  show ?thesis
  proof (cases "v \<in> set q")
    case True
    then have "v \<notin> set pre" using D by auto
    then have rem: "removeAll v D = pre @ remove1 v q" by (simp add: D(1) all1 [OF dist(2)])
    have "0 < length q" using True by (cases q) auto
    then have "Suc (length (removeAll v D)) - n = length pre"
      using True len unfolding rem by (simp add: length_remove1) arith
    with rem True show ?thesis by (simp add: q new queue_reference_def)
  next
    case False
    show ?thesis
    proof (cases "v \<in> set pre")
      case True
      have full: "length q = n" using True len by (cases pre) auto
      have rem: "removeAll v D = remove1 v pre @ q"
        using False by (simp add: D(1) all1 [OF dist(1)])
      have "Suc (length (removeAll v D)) - n = length (remove1 v pre) + 1"
        using full unfolding rem by simp
      with rem full assms show ?thesis
        using False by (simp add: q new queue_reference_def drop_Suc)
    next
      case False
      with \<open>v \<notin> set q\<close> have same: "removeAll v D = D" by (simp add: D(1))
      show ?thesis
      proof (cases "length D < n")
        case True
        then have "q = D" by (simp add: q_def)
        with True \<open>v \<notin> set q\<close> show ?thesis
          by (simp add: q new same queue_reference_def)
      next
        case False
        then have "Suc (length D) - n = Suc (length pre)" "length q = n"
          using len by simp_all
        with \<open>v \<notin> set q\<close> assms show ?thesis
          by (simp add: q new same queue_reference_def) (simp add: D(1) drop_Suc)
      qed
    qed
  qed
qed

lemma lru_queue: "0 < n \<Longrightarrow> fold (queue_reference (\<lambda>v q. remove1 v q @ [v]) n) vs [] = last_used n vs"
proof (induction vs rule: rev_induct)
  case Nil
  show ?case by (simp add: last_used_def)
next
  case (snoc v vs)
  then show ?case by (simp add: lru_queue_step)
qed

section \<open>States for the examples\<close>

definition demo_queue :: qstate where
  "demo_queue = q_add 0 0 (qstate_boot\<lparr>capacity := 32, queue := []\<rparr>)"

definition demo_clock :: clock_state where
  "demo_clock = (clock_initReplacementModule 32 clock_boot)\<lparr>clock_overheads := [0 \<mapsto> 0], next_overhead := 1\<rparr>"

lemma demo_memory_put: "demo_memory = put_page 0 demo_page (initialised 32 (boot_memory True))"
  by (simp add: demo_memory_def put_page_def) (simp add: initialised_def boot_memory_def)

lemma demo_empty [simp]: "vheap (initialised n (boot_memory True)) = (\<lambda>_. None)"
  by (simp add: initialised_def boot_memory_def)

lemma demo_managed: "managed demo_memory 0 = Some demo_page"
  by (simp add: managed_Some)

lemma demo_queue_inv: "qinv demo_memory demo_queue"
proof -
  have "qinv (initialised 32 (boot_memory True)) (qstate_boot\<lparr>capacity := int (unat (32 :: ul64)), queue := []\<rparr>)"
    by (rule qinv_boot) (simp_all add: boot_memory_def)
  then show ?thesis
    unfolding demo_memory_put demo_queue_def
    using qinv_new [of "initialised 32 (boot_memory True)" "qstate_boot\<lparr>capacity := 32, queue := []\<rparr>" 0 demo_page]
    by (simp add: managed_def qstate_boot_def)
qed

lemma demo_clock_inv: "clock_inv demo_memory demo_clock"
proof -
  have "clock_inv (initialised 32 (boot_memory True)) (clock_initReplacementModule (int (unat (32 :: ul64))) clock_boot)"
    by (rule clock_inv_init) (simp_all add: boot_memory_def)
  then show ?thesis
    unfolding demo_memory_put demo_clock_def
    using clock_inv_new [of "initialised 32 (boot_memory True)" "clock_initReplacementModule 32 clock_boot" 0 demo_page]
    by (simp add: managed_def clock_initReplacementModule_def clock_boot_def)
qed

lemma frames_nonempty: "mem_inv s \<Longrightarrow> 0 < length (memory s)"
  using mem_inv_shape [of s] by (simp add: mem_shape_def word_gt_0 unat_gt_0)

section \<open>Properties\<close>

text \<open>
  C13: Starting from an empty queue, after any sequence of references to pages of processes the
  pages in memory with LRU are exactly the most recently used distinct pages, as many as there
  are frames, and the queue lists them from the least to the most recently used.
\<close>

theorem lru_keeps_most_recently_used:
  assumes "mem_inv s" "qinv s r" "queued_pages r = []" "\<forall>v \<in> set vs. managed s v \<noteq> None"
  shows "\<exists>s' r'. references lru_ops vs s r = Inr (s', r') \<and> mem_inv s' \<and> qinv s' r'
    \<and> queued_pages r' = last_used (length (memory s)) vs
    \<and> (\<forall>v. (\<exists>vp. managed s' v = Some vp \<and> inMemory vp) \<longleftrightarrow> v \<in> set (last_used (length (memory s)) vs))"
proof -
  obtain s' r' where run: "references lru_ops vs s r = Inr (s', r')" "mem_inv s'" "qinv s' r'"
    "queued_pages r' = fold (queue_reference (\<lambda>v q. remove1 v q @ [v]) (length (memory s))) vs (queued_pages r)"
    using assms(1,2,4) by (rule lru_order.references_order)
  then have "queued_pages r' = last_used (length (memory s)) vs"
    using lru_queue [OF frames_nonempty [OF assms(1)]] assms(3) by simp
  with run lru_order.order_set [OF run(3)] show ?thesis by auto
qed

lemma lru_keeps_most_recently_used_witness:
  "\<exists>s' r'. references lru_ops [0, 0] demo_memory demo_queue = Inr (s', r') \<and> queued_pages r' = [0]"
  using lru_keeps_most_recently_used [of demo_memory demo_queue "[0, 0]"] demo_memory_inv demo_queue_inv demo_managed
  by (auto simp: demo_queue_def q_add_def qstate_boot_def queued_pages_eq last_used_def)

text \<open>
  C14: The pager with FIFO is a bounded queue: a reference to a page in memory changes nothing, a
  fault enters the page at the tail and, when all frames are in use, drops the head.
\<close>

theorem fifo_is_bounded_queue:
  assumes "mem_inv s" "qinv s r" "\<forall>v \<in> set vs. managed s v \<noteq> None"
  shows "\<exists>s' r'. references fifo_ops vs s r = Inr (s', r') \<and> mem_inv s' \<and> qinv s' r'
    \<and> queued_pages r' = fold (\<lambda>v q. if v \<in> set q then q
        else (if length q < length (memory s) then q else tl q) @ [v]) vs (queued_pages r)
    \<and> (\<forall>v. (\<exists>vp. managed s' v = Some vp \<and> inMemory vp) \<longleftrightarrow> v \<in> set (queued_pages r'))"
proof -
  obtain s' r' where run: "references fifo_ops vs s r = Inr (s', r')" "mem_inv s'" "qinv s' r'"
    "queued_pages r' = fold (queue_reference (\<lambda>v q. q) (length (memory s))) vs (queued_pages r)"
    using assms by (rule fifo_order.references_order)
  with fifo_order.order_set [OF run(3)] show ?thesis unfolding queue_reference_def by blast
qed

lemma fifo_is_bounded_queue_witness:
  "\<exists>s' r'. references fifo_ops [0, 0] demo_memory demo_queue = Inr (s', r') \<and> queued_pages r' = [0]"
  using fifo_is_bounded_queue [of demo_memory demo_queue "[0, 0]"] demo_memory_inv demo_queue_inv demo_managed
  by (auto simp: demo_queue_def q_add_def qstate_boot_def queued_pages_eq)

text \<open>
  C15: The CLOCK sweep stops, within one round, at the first frame from the hand whose reference
  bit is clear, or where it started when all bits are set; it clears exactly the bits of the
  frames it passes and leaves the hand at the victim.
\<close>

theorem clock_sweep_second_chance:
  assumes "length bs = n" "n < 2 ^ 64" "h < n"
  shows "\<exists>k \<le> n. (\<forall>j < k. bs ! ((h + j) mod n)) \<and> (k < n \<longrightarrow> \<not> bs ! ((h + k) mod n))
    \<and> clock_sweep (int n) (of_nat h) (map Val bs) = Inr (of_nat ((h + k) mod n),
        map (\<lambda>i. Val (bs ! i \<and> (\<forall>j < k. i \<noteq> (h + j) mod n))) [0..<n])"
proof -
  let ?k = "clock_victim h bs"
  have swept: "map Val (swept n h ?k bs) = map (\<lambda>i. Val (bs ! i \<and> (\<forall>j < ?k. i \<noteq> (h + j) mod n))) [0..<n]"
    unfolding swept_def by (simp add: list_eq_iff_nth_eq)
  from assms(1,3) show ?thesis
  proof (cases rule: clock_victim_cases)
    case clear
    then show ?thesis using clock_sweep_eq [OF assms] swept by (intro exI [of _ ?k]) simp
  next
    case all_set
    have "bs ! ((h + j) mod n)" for j using all_set(2) assms(3) by simp
    then show ?thesis using all_set(1) clock_sweep_eq [OF assms] swept by (intro exI [of _ ?k]) simp
  qed
qed

lemma clock_sweep_second_chance_witness:
  "\<exists>k \<le> 3. clock_sweep 3 1 [Val False, Val True, Val True] = Inr (of_nat ((1 + k) mod 3),
     map (\<lambda>i. Val ([False, True, True] ! i \<and> (\<forall>j < k. i \<noteq> (1 + j) mod 3))) [0..<3])"
  using clock_sweep_second_chance [of "[False, True, True]" 3 1] by auto

text \<open>
  A page fault with CLOCK is always served: no bit of the shadow array is read before it was
  written, although \<open>malloc\<close> leaves the array uninitialised, and the page ends up in a frame.
\<close>

theorem clock_fault_served:
  assumes "mem_inv s" "clock_inv s r" "managed s v = Some vp" "\<not> inMemory vp"
  shows "\<exists>s' r' p. page_in clock_ops (Some v) s r = Inr (s', r') \<and> mem_inv s' \<and> clock_inv s' r'
    \<and> frames s' (unat (p :: ul64)) = Some v"
  using clock.page_in_ok [OF assms] by metis

lemma clock_fault_served_witness:
  "\<exists>s' r' p. page_in clock_ops (Some 0) demo_memory demo_clock = Inr (s', r') \<and> frames s' (unat (p :: ul64)) = Some 0"
  using clock_fault_served [OF demo_memory_inv demo_clock_inv demo_managed demo_memory_sel(6)] by metis

text \<open>
  C16: The random module picks the frame whose number is the next number of the generator modulo the number of
  frames of the memory (so that every frame can be picked, the last one too), takes exactly one number
  of the generator, and the frame it names is in use when memory is full.
\<close>

theorem random_victim_in_range:
  assumes "mem_inv s" "random_inv s r"
  shows "\<exists>p. random_getPageToEvict rand s r = Inr (p, r\<lparr>rand_calls := Suc (rand_calls r)\<rparr>)
    \<and> unat p = rand (rand_calls r) mod length (memory s) \<and> unat p < length (memory s)
    \<and> (Memory_hasFreePage s \<or> frames s (unat p) \<noteq> None)"
proof -
  obtain i where "i < length (memory s)" "unat (of_nat i :: ul64) = i"
    "random_getPageToEvict rand s r = Inr (of_nat i, r\<lparr>rand_calls := Suc (rand_calls r)\<rparr>)"
    "i = rand (rand_calls r) mod length (memory s)"
    using assms by (rule random_victim)
  then show ?thesis using hasFreePage_iff [OF assms(1)] by (intro exI [of _ "of_nat i"]) auto
qed

lemma random_victim_in_range_witness:
  "\<exists>p. random_getPageToEvict (\<lambda>k. 63) (initialised 32 (boot_memory True)) (random_initReplacementModule 32 random_boot)
      = Inr (p, (random_initReplacementModule 32 random_boot)\<lparr>rand_calls := 1\<rparr>) \<and> unat p = 31"
proof -
  have "mem_inv (initialised 32 (boot_memory True))" by (intro mem_inv_initialised) (simp_all add: boot_memory_def)
  moreover have "random_inv (initialised 32 (boot_memory True)) (random_initReplacementModule 32 random_boot)"
    using random.rinv_init [of 32 "boot_memory True"] by (simp add: boot_memory_def)
  moreover have "length (memory (initialised 32 (boot_memory True))) = 32" by (simp add: initialised_def)
  ultimately show ?thesis
    using random_victim_in_range [of "initialised 32 (boot_memory True)" "random_initReplacementModule 32 random_boot" "\<lambda>k. 63"]
    by (auto simp: random_initReplacementModule_def random_boot_def)
qed

text \<open>
  C17: \<open>VPage_free\<close> with LRU leaves nothing of the page: not in the heap, not in a frame, not in
  the replacement queue; and everything else stays consistent.
\<close>

theorem page_free_complete:
  assumes "mem_inv s" "qinv s r" "managed s v = Some vp"
  shows "\<exists>s' r'. VPage_free lru_ops v s r = Inr (s', r') \<and> mem_inv s' \<and> qinv s' r'
    \<and> vheap s' v = None \<and> (\<forall>i. frames s' i \<noteq> Some v) \<and> v \<notin> set (queued_pages r')
    \<and> (\<forall>w. w \<noteq> v \<longrightarrow> vheap s' w = vheap s w)"
proof -
  obtain r' where run: "VPage_free lru_ops v s r = Inr (freed v vp s, r')" "mem_inv (freed v vp s)"
    "qinv (freed v vp s) r'"
    using assms by (rule lru.VPage_free_managed)
  have gone: "vheap (freed v vp s) v = None" by (simp add: freed_def split: cval.split)
  have "\<forall>i. frames (freed v vp s) i \<noteq> Some v"
    using mem_links_frame [OF mem_inv_links [OF run(2)]] gone by (metis option.distinct(1))
  moreover have "v \<notin> set (queued_pages r')"
    using lru_order.order_set [OF run(3), of v] gone by (simp add: managed_def)
  moreover have "\<forall>w. w \<noteq> v \<longrightarrow> vheap (freed v vp s) w = vheap s w" by (simp add: freed_def split: cval.split)
  ultimately show ?thesis using run gone by blast
qed

lemma page_free_complete_witness:
  "\<exists>s' r'. VPage_free lru_ops 0 demo_memory demo_queue = Inr (s', r') \<and> vheap s' 0 = None"
  using page_free_complete [OF demo_memory_inv demo_queue_inv demo_managed] by blast

text \<open>
  The assertion in \<open>Replace_initOverhead\<close> of FIFO and LRU reads \<open>vpage->overhead\<close> before anything
  was stored there: unless the allocator returns zeroed memory, creating a page of a process
  reads an indeterminate value.
\<close>

theorem overhead_read_uninitialised:
  assumes "\<not> zeroed s" "pid \<noteq> 0"
  shows "VPage_init fifo_ops pid n s r = Inl Indeterminate \<and> VPage_init lru_ops pid n s r = Inl Indeterminate"
  using assms by (simp add: VPage_init_def fresh_page_def fifo_initOverhead_def lru_initOverhead_def Let_def)

lemma overhead_read_uninitialised_witness:
  "VPage_init lru_ops 1 7 (boot_memory False) qstate_boot = Inl Indeterminate"
  using overhead_read_uninitialised [of "boot_memory False" 1 7 qstate_boot] by (simp add: boot_memory_def)

end
