(* ===== verification/FinishedQueue.thy ===== *)
theory FinishedQueue
  imports PfsimMain
begin

text \<open>
  The queue of finished processes, where a write to freed memory is noticed. A run of the program then is the
  run where it is not noticed, up to the first write through the link of a freed process; and as every
  process stays on the queue after it was freed, the second one to finish makes that write.
\<close>

section \<open>The runs agree up to the fault\<close>

named_theorems noticed \<open>operations where the write to freed memory is noticed or makes no difference\<close>

definition lax :: "'r env \<Rightarrow> 'r env" where
  "lax env = env\<lparr>freed_writable := True\<rparr>"

lemma lax_sel [simp]: "linked (lax env) = linked env" "destroy_order (lax env) = destroy_order env" "freed_writable (lax env)"
  by (simp_all add: lax_def)

definition up_to_fault :: "'a res \<Rightarrow> 'a res \<Rightarrow> bool" where
  "up_to_fault m n \<longleftrightarrow> m = n \<or> m = Inl UseAfterFree"

lemma up_to_fault_refl [noticed]: "up_to_fault m m"
  by (simp add: up_to_fault_def)

lemma up_to_fault_bnd [noticed]:
  "up_to_fault m n \<Longrightarrow> (\<And>x. n = Inr x \<Longrightarrow> up_to_fault (f x) (g x)) \<Longrightarrow> up_to_fault (bnd m f) (bnd n g)"
  by (cases n) (auto simp: up_to_fault_def)

lemma lax_pages:
  "Process_getVirtualPage (lax env) = Process_getVirtualPage env"
  "Process_allocVirtualPage (lax env) = Process_allocVirtualPage env"
  by (intro ext, simp add: Process_getVirtualPage_def Process_allocVirtualPage_def)+

lemma lax_same [simp]:
  "find_page (lax env) p n s = find_page env p n s" "hit_page (lax env) v s = hit_page env v s"
  "Process_quit (lax env) p s = Process_quit env p s"
  "Process_virtualPageInMemory (lax env) p n s = Process_virtualPageInMemory env p n s"
  "Simulator_finishCurrentDiskIO (lax env) s = Simulator_finishCurrentDiskIO env s"
  unfolding find_page_def hit_page_def Process_quit_def Process_virtualPageInMemory_def
    Simulator_finishCurrentDiskIO_def lax_pages lax_sel by (rule refl)+

lemma enqueue_noticed [noticed]: "up_to_fault (ProcessQueue_enqueue env p st s) (ProcessQueue_enqueue (lax env) p st s)"
  by (auto simp: ProcessQueue_enqueue_def stailq_insert_tail_def up_to_fault_def)

lemma switchStatus_noticed [noticed]: "up_to_fault (Process_switchStatus env a b s) (Process_switchStatus (lax env) a b s)"
  by (auto simp: Process_switchStatus_def intro!: noticed split: list.split)

lemma safelySwitch_noticed [noticed]:
  "up_to_fault (Simulator_safelySwitchStatus env p st fp s) (Simulator_safelySwitchStatus (lax env) p st fp s)"
  by (auto simp: Simulator_safelySwitchStatus_def Let_def intro!: noticed split: prod.split ProcessStatus.split)

lemma advance_noticed [noticed]: "up_to_fault (advance env p s) (advance (lax env) p s)"
  by (auto simp: advance_def intro!: noticed split: prod.split)

lemma run_line_noticed [noticed]: "up_to_fault (run_line env p s) (run_line (lax env) p s)"
  by (auto simp: run_line_def miss_page_def Let_def intro!: noticed split: prod.split line_read.split)

lemma sim_step_noticed: "up_to_fault (sim_step env \<sigma>) (sim_step (lax env) \<sigma>)"
  by (auto simp: sim_step_def disk_done_def run_head_def Let_def intro!: noticed split: prod.split)

lemma close_run_noticed [noticed]: "up_to_fault (close_run env f P) (close_run (lax env) f P)"
proof -
  have "up_to_fault (Process_init env i l0 l1 t s) (Process_init (lax env) i l0 l1 t s)" for i l0 l1 t and s :: "'a machine"
    unfolding Process_init_def Let_def
    by (intro noticed) (auto simp: stailq_insert_tail_def up_to_fault_def)
  then show ?thesis by (auto simp: close_run_def Let_def intro!: noticed split: prod.split option.split)
qed

lemma first_pass_turn_noticed [noticed]: "up_to_fault (first_pass_turn env P) (first_pass_turn (lax env) P)"
  by (auto simp: first_pass_turn_def first_pass_body_def Let_def intro!: noticed split: prod.split)

lemma first_pass_loop_noticed [noticed]: "up_to_fault (first_pass_loop env P) (first_pass_loop (lax env) P)"
proof (induction "lax env" P rule: first_pass_loop.induct)
  case (1 P)
  show ?case
    unfolding first_pass_loop.simps [of env P] first_pass_loop.simps [of "lax env" P]
    by (auto intro!: noticed 1 split: prod.split)
qed

lemma first_pass_noticed: "up_to_fault (first_pass env s) (first_pass (lax env) s)"
  by (auto simp: first_pass_def intro!: noticed)

section \<open>Finishing\<close>

definition quiet :: "'r machine \<Rightarrow> 'r machine \<Rightarrow> bool" where
  "quiet s s' \<longleftrightarrow> pq s' FINISHED = pq s FINISHED \<and> dom (procs s') = dom (procs s)"

text \<open>A turn where at most one process finishes; its predecessor on the queue is not freed.\<close>

definition fates :: "'r machine \<Rightarrow> 'r machine \<Rightarrow> bool" where
  "fates s s' \<longleftrightarrow> quiet s s'
     \<or> (\<exists>p \<in> dom (procs s). pq s' FINISHED = pq s FINISHED @ [p] \<and> dom (procs s') = dom (procs s) - {p}
          \<and> (pq s FINISHED \<noteq> [] \<longrightarrow> last (pq s FINISHED) \<in> dom (procs s)))"

lemma quiet_trans: "quiet s s1 \<Longrightarrow> quiet s1 s2 \<Longrightarrow> quiet s s2"
  by (simp add: quiet_def)

lemma quiet_refl: "quiet s s"
  by (simp add: quiet_def)

lemma quiet_fates: "quiet s s1 \<Longrightarrow> fates s1 s2 \<Longrightarrow> fates s s2"
  by (simp add: quiet_def fates_def)

lemma dom_known [simp]: "h p = Some x \<Longrightarrow> insert p (dom h) = dom h"
  by (simp add: insert_absorb domI)

lemma upd_proc_quiet: "upd_proc p f s = Inr s' \<Longrightarrow> quiet s s'"
  by (clarsimp simp: upd_proc_def bnd_eq_Inr quiet_def deref_def split: option.splits)

lemma on_pager_quiet: "on_pager f s = Inr (x, s') \<Longrightarrow> procs s' = procs s \<and> pq s' = pq s"
  by (auto simp: on_pager_def bnd_eq_Inr)

lemma getVirtualPage_quiet: "Process_getVirtualPage env p n s = Inr (x, s') \<Longrightarrow> quiet s s'"
  by (auto simp: Process_getVirtualPage_def bnd_eq_Inr quiet_def dest!: on_pager_quiet)

lemma allocVirtualPage_quiet: "Process_allocVirtualPage env p n s = Inr (x, s') \<Longrightarrow> quiet s s'"
  by (clarsimp simp: Process_allocVirtualPage_def bnd_eq_Inr quiet_def deref_def split: option.splits dest!: on_pager_quiet)

lemma find_page_quiet: "find_page env p n s = Inr (v, s') \<Longrightarrow> quiet s s'"
  by (auto simp: find_page_def bnd_eq_Inr split: option.splits
      dest!: getVirtualPage_quiet allocVirtualPage_quiet intro: quiet_trans)

lemma inMemory_quiet: "Process_virtualPageInMemory env p n s = Inr (b, s') \<Longrightarrow> quiet s s'"
  by (auto simp: Process_virtualPageInMemory_def bnd_eq_Inr quiet_def split: option.splits dest!: on_pager_quiet)

lemma hit_quiet: "hit_page env v s = Inr s' \<Longrightarrow> quiet s s'"
  by (auto simp: hit_page_def bnd_eq_Inr quiet_def)

lemma enqueue_quiet: "ProcessQueue_enqueue env p b s = Inr s' \<Longrightarrow> b \<noteq> FINISHED \<Longrightarrow> quiet s s'"
  by (auto simp: ProcessQueue_enqueue_def bnd_eq_Inr quiet_def)

lemma switchStatus_quiet:
  assumes "Process_switchStatus env a b s = Inr (x, s')" "a \<noteq> FINISHED" "b \<noteq> FINISHED"
  shows "quiet s s'"
proof (cases "pq s a")
  case Nil
  with assms(1) show ?thesis by (auto simp: Process_switchStatus_def quiet_def)
next
  case (Cons p q)
  with assms(1) obtain s1 where "upd_proc p (\<lambda>pp. pp\<lparr>status := b\<rparr>) (s\<lparr>pq := (pq s)(a := q)\<rparr>) = Inr s1"
    "ProcessQueue_enqueue env p b s1 = Inr s'"
    by (auto simp: Process_switchStatus_def bnd_eq_Inr)
  from quiet_trans [OF upd_proc_quiet [OF this(1)] enqueue_quiet [OF this(2) assms(3)]]
  show ?thesis using assms(2) by (simp add: quiet_def)
qed

lemma seek_quiet: "Simulator_seekSavedLine p s = Inr s' \<Longrightarrow> quiet s s'"
  by (auto simp: Simulator_seekSavedLine_def Let_def bnd_eq_Inr quiet_def split: if_splits)

lemma jump_quiet: "Process_jumpToNextInterval p s = Inr s' \<Longrightarrow> quiet s s'"
  by (clarsimp simp: Process_jumpToNextInterval_def Let_def bnd_eq_Inr quiet_def deref_def split: option.splits if_splits)

text \<open>A process that finishes.\<close>

lemma finished_fates:
  assumes "Process_switchStatus env a FINISHED s = Inr (Some p, s1)" "a \<noteq> FINISHED" "Process_quit env p s1 = Inr s'"
    and "\<not> freed_writable env"
  shows "fates s s'"
proof -
  from assms(1) obtain q where q: "pq s a = p # q"
    by (auto simp: Process_switchStatus_def bnd_eq_Inr split: list.splits)
  with assms(1) obtain s0 where s0: "upd_proc p (\<lambda>pp. pp\<lparr>status := FINISHED\<rparr>) (s\<lparr>pq := (pq s)(a := q)\<rparr>) = Inr s0"
    "ProcessQueue_enqueue env p FINISHED s0 = Inr s1"
    by (auto simp: Process_switchStatus_def bnd_eq_Inr)
  have p: "p \<in> dom (procs s)" "pq s0 = (pq s)(a := q)" "dom (procs s0) = dom (procs s)"
    using s0(1) by (clarsimp simp: upd_proc_def bnd_eq_Inr deref_def split: option.splits)+
  have "procs s1 = procs s0" "pq s1 FINISHED = pq s0 FINISHED @ [p]"
    "pq s0 FINISHED \<noteq> [] \<longrightarrow> last (pq s0 FINISHED) \<in> dom (procs s0)"
    using s0(2) assms(4) by (auto simp: ProcessQueue_enqueue_def stailq_insert_tail_def bnd_eq_Inr split: if_splits)
  moreover have "dom (procs s') = dom (procs s1) - {p}" "pq s' = pq s1"
    using assms(3) by (auto simp: Process_quit_def Process_free_def bnd_eq_Inr split: if_splits)
  ultimately show ?thesis using p assms(2) unfolding fates_def by auto
qed

lemma safelySwitch_fates:
  assumes "Simulator_safelySwitchStatus env p new fp s = Inr s'" "\<not> freed_writable env"
  shows "fates s s'"
proof -
  obtain pp :: Process and s1 s2 where pp: "Process_switchStatus env (status pp) new s1 = Inr (Some p, s2)"
    and old: "(case status pp of RUNNABLE \<Rightarrow> upd_proc p (\<lambda>pp. pp\<lparr>currentPos := fp\<rparr>) s
      | BLOCKED \<Rightarrow> bnd (c_assert ''Cannot resume blocked process prematurely.'' (waitTime pp = 0)) (\<lambda>_. Inr s)
      | FINISHED \<Rightarrow> Inl (ExitFailure ''ERROR: Attempted to resume already-finished process.'')) = Inr s1"
    and new: "(case new of RUNNABLE \<Rightarrow> Simulator_seekSavedLine p s2 | BLOCKED \<Rightarrow> Inr s2 | FINISHED \<Rightarrow> Process_quit env p s2) = Inr s'"
    using assms(1) unfolding Simulator_safelySwitchStatus_def Let_def bnd_eq_Inr
    by (cases new; auto simp: bnd_eq_Inr split: if_splits; blast)
  have s1: "quiet s s1" "status pp \<noteq> FINISHED"
    using old by (cases "status pp"; auto simp: bnd_eq_Inr quiet_refl intro: upd_proc_quiet)+
  show ?thesis
  proof (cases "new = FINISHED")
    case True
    with new have "Process_quit env p s2 = Inr s'" by simp
    from finished_fates [OF pp [unfolded True] s1(2) this assms(2)] s1(1) show ?thesis by (rule quiet_fates [rotated])
  next
    case False
    then have "quiet s1 s2" using switchStatus_quiet [OF pp s1(2)] by blast
    moreover have "quiet s2 s'" using False new by (cases new) (auto simp: quiet_refl intro: seek_quiet)
    ultimately show ?thesis using s1(1) unfolding fates_def by (blast intro: quiet_trans)
  qed
qed

lemma fates_quiet: "quiet s s' \<Longrightarrow> fates s s'"
  by (simp add: fates_def)

lemma advance_fates:
  assumes "advance env p s = Inr (s', c)" "\<not> freed_writable env"
  shows "fates s s'"
proof -
  consider s1 s2 m where "Process_jumpToNextInterval (Some p) s = Inr s1" "Simulator_seekSavedLine p s1 = Inr s2"
      "Process_switchStatus env RUNNABLE RUNNABLE s2 = Inr (m, s')"
    | "upd_proc p (\<lambda>pp. pp\<lparr>currentline := currentline pp + 1\<rparr>) s = Inr s'"
    | "Simulator_safelySwitchStatus env p FINISHED 0 s = Inr s'"
    using assms(1) unfolding advance_def by (auto simp: bnd_eq_Inr split: if_splits)
  then show ?thesis
  proof cases
    case 1
    then show ?thesis
      using jump_quiet seek_quiet switchStatus_quiet [OF 1(3)] by (blast intro: fates_quiet quiet_trans)
  next
    case 2
    then show ?thesis by (rule fates_quiet [OF upd_proc_quiet])
  next
    case 3
    then show ?thesis using assms(2) by (rule safelySwitch_fates)
  qed
qed

lemma run_line_fates:
  assumes "run_line env p s = Inr (s', c)" "\<not> freed_writable env"
  shows "fates s s'"
proof -
  obtain r f where read: "fscanf True (tracefile s) = (r, f)" by (cases "fscanf True (tracefile s)")
  with assms(1) obtain pp k n where "r = LPair k n" and pp: "deref (procs s) p = Inr pp"
    by (cases r) (auto simp: run_line_def Let_def bnd_eq_Inr)
  with read have line: "fscanf True (tracefile s) = (LPair k n, f)" "deref (procs s) p = Inr pp" by simp_all
  let ?s = "s\<lparr>tracefile := f, log := log s @ (if k \<noteq> pid pp then [''ERROR: Wrong line in tracefile recieved.''] else [])\<rparr>"
  obtain v s2 hit s3 where find: "find_page env p n ?s = Inr (v, s2)" "Process_virtualPageInMemory env p n s2 = Inr (hit, s3)"
    and rest: "(if hit then bnd (hit_page env v s3) (advance env p)
      else bnd (miss_page env p v (ftell (tracefile s)) s3) (\<lambda>s4. Inr (s4, Some p))) = Inr (s', c)"
    using assms(1) line by (auto simp: run_line_def Let_def bnd_eq_Inr)
  have "quiet s ?s" by (simp add: quiet_def)
  from quiet_trans [OF quiet_trans [OF this find_page_quiet [OF find(1)]] inMemory_quiet [OF find(2)]] have q: "quiet s s3" .
  show ?thesis
  proof (cases hit)
    case True
    with rest obtain s4 where "hit_page env v s3 = Inr s4" "advance env p s4 = Inr (s', c)" by (auto simp: bnd_eq_Inr)
    from quiet_trans [OF q hit_quiet [OF this(1)]] advance_fates [OF this(2) assms(2)] show ?thesis by (rule quiet_fates)
  next
    case False
    with rest obtain s4 where s4: "upd_proc p (\<lambda>pp. pp\<lparr>waitTime := DISK_PENALTY, waitingOnPage := Some v\<rparr>)
        (s3\<lparr>stats := Stat_miss (stats s3)\<rparr>) = Inr s4"
      "Simulator_safelySwitchStatus env p BLOCKED (ftell (tracefile s)) s4 = Inr s'"
      by (auto simp: miss_page_def bnd_eq_Inr)
    have "quiet s3 s4" using upd_proc_quiet [OF s4(1)] by (simp add: quiet_def)
    from quiet_trans [OF q this] safelySwitch_fates [OF s4(2) assms(2)] show ?thesis by (rule quiet_fates)
  qed
qed

lemma run_head_fates:
  assumes "run_head env \<sigma> = Inr \<sigma>'" "\<not> freed_writable env"
  shows "fates (mach \<sigma>) (mach \<sigma>')"
proof -
  obtain p s1 s2 c where "s1 = mach \<sigma> \<or> Simulator_seekSavedLine p (mach \<sigma>) = Inr s1"
    and line: "run_line env p s1 = Inr (s2, c)" "mach \<sigma>' = s2"
    using assms(1) by (auto simp: run_head_def bnd_eq_Inr split: if_splits; blast)
  then have "quiet (mach \<sigma>) s1" using seek_quiet quiet_refl by blast
  with run_line_fates [OF line(1) assms(2)] line(2) show ?thesis using quiet_fates by blast
qed

lemma disk_done_fates:
  assumes "disk_done env s = Inr s'" "\<not> freed_writable env"
  shows "fates s s'"
proof -
  obtain p s1 where s1: "Simulator_finishCurrentDiskIO env s = Inr s1" "Simulator_safelySwitchStatus env p RUNNABLE 0 s1 = Inr s'"
    using assms(1) by (auto simp: disk_done_def bnd_eq_Inr)
  from s1(1) obtain q f m r where "upd_proc q f (s\<lparr>ms := m, rep := r\<rparr>) = Inr s1"
    by (auto simp: Simulator_finishCurrentDiskIO_def bnd_eq_Inr)
  from upd_proc_quiet [OF this] have "quiet s s1" by (simp add: quiet_def)
  then show ?thesis using safelySwitch_fates [OF s1(2) assms(2)] by (rule quiet_fates)
qed

lemma tick_quiet: "quiet s (tick n s)"
  by (simp add: tick_def quiet_def)

lemma skip_wait_quiet: "skip_wait \<sigma> = Inr \<sigma>' \<Longrightarrow> quiet (mach \<sigma>) (mach \<sigma>')"
  using quiet_trans [OF tick_quiet upd_proc_quiet] by (auto simp: skip_wait_def Let_def bnd_eq_Inr)

lemma sim_step_fates:
  assumes "sim_step env \<sigma> = Inr \<sigma>'" "\<not> freed_writable env"
  shows "fates (mach \<sigma>) (mach \<sigma>')"
proof -
  let ?t = "tick CLOCK_TICK (mach \<sigma>)"
  let ?disk = "case Process_peek BLOCKED ?t of None \<Rightarrow> Inr (?t, False)
     | Some b \<Rightarrow> bnd (upd_proc b (\<lambda>bp. bp\<lparr>waitTime := waitTime bp - CLOCK_TICK\<rparr>) ?t) (\<lambda>s1.
         bnd (deref (procs s1) b) (\<lambda>bp. Inr (s1, waitTime bp = 0)))"
  obtain x where "?disk = Inr x" using assms(1) unfolding sim_step_def Let_def bnd_eq_Inr by blast
  then obtain s1 ready where s1: "?disk = Inr (s1, ready)" by (cases x) simp
  from quiet_trans [OF tick_quiet upd_proc_quiet] this have q: "quiet (mach \<sigma>) s1"
    by (auto simp: bnd_eq_Inr tick_quiet split: option.splits)
  consider "ready" "disk_done env s1 = Inr (mach \<sigma>')" | "\<not> ready" "\<exists>\<sigma>1. mach \<sigma>1 = s1 \<and> skip_wait \<sigma>1 = Inr \<sigma>'"
    | "\<not> ready" "\<exists>\<sigma>1. mach \<sigma>1 = s1 \<and> run_head env \<sigma>1 = Inr \<sigma>'"
    using assms(1) s1 unfolding sim_step_def Let_def
    by (cases ready) (simp add: bnd_eq_Inr, fastforce, fastforce split: if_splits)
  then have "fates s1 (mach \<sigma>')"
    using disk_done_fates [OF _ assms(2)] run_head_fates [OF _ assms(2)] skip_wait_quiet fates_quiet
    by cases blast+
  with q show ?thesis by (rule quiet_fates)
qed

section \<open>The second process to finish\<close>

definition one_finished :: "nat \<Rightarrow> 'r machine \<Rightarrow> bool" where
  "one_finished n s \<longleftrightarrow> finite (dom (procs s)) \<and> set (pq s FINISHED) \<inter> dom (procs s) = {}
     \<and> length (pq s FINISHED) \<le> 1 \<and> card (dom (procs s)) + length (pq s FINISHED) = n"

lemma settled_fates:
  assumes "one_finished n s" "fates s s'"
  shows "one_finished n s'"
proof (cases "quiet s s'")
  case True
  with assms(1) show ?thesis by (simp add: one_finished_def quiet_def)
next
  case False
  with assms(2) obtain p where p: "p \<in> dom (procs s)" "pq s' FINISHED = pq s FINISHED @ [p]"
    "dom (procs s') = dom (procs s) - {p}" "pq s FINISHED \<noteq> [] \<longrightarrow> last (pq s FINISHED) \<in> dom (procs s)"
    by (auto simp: fates_def)
  have "pq s FINISHED = []" using assms(1) p(4) last_in_set [of "pq s FINISHED"] unfolding one_finished_def by blast
  moreover from assms(1) p(1) have "card (dom (procs s)) = Suc (card (dom (procs s) - {p}))"
    unfolding one_finished_def by (intro card.remove) simp_all
  ultimately show ?thesis using assms(1) p(1-3) by (simp add: one_finished_def)
qed

lemma loop_settled:
  assumes "sim_loop (lax env) \<sigma> = Some (Inr \<sigma>')" "one_finished n (mach \<sigma>)" "\<not> freed_writable env"
  shows "sim_loop env \<sigma> = Some (Inl UseAfterFree) \<or> one_finished n (mach \<sigma>')"
proof -
  let ?P = "\<lambda>e \<sigma> out. e = lax env \<longrightarrow> out = Inr \<sigma>' \<longrightarrow> one_finished n (mach \<sigma>)
    \<longrightarrow> sim_loop env \<sigma> = Some (Inl UseAfterFree) \<or> one_finished n (mach \<sigma>')"
  have P: "?P e \<sigma> out" if "sim_loop e \<sigma> = Some out" for e \<sigma> out
  proof (rule sim_loop.raw_induct [rotated, where P = ?P, OF that], intro impI)
    fix f :: "'a env \<Rightarrow> 'a sim \<Rightarrow> 'a sim res option" and e :: "'a env" and \<sigma> :: "'a sim" and out
    assume IH: "\<And>e \<sigma> y. f e \<sigma> = Some y \<Longrightarrow> ?P e \<sigma> y"
      and body: "(if Simulator_notDone (mach \<sigma>)
        then case sim_step e \<sigma> of Inl x \<Rightarrow> Some (Inl x) | Inr \<sigma>1 \<Rightarrow> f e \<sigma>1 else Some (Inr \<sigma>)) = Some out"
      and e: "e = lax env" and out: "out = Inr \<sigma>'" and inv: "one_finished n (mach \<sigma>)"
    show "sim_loop env \<sigma> = Some (Inl UseAfterFree) \<or> one_finished n (mach \<sigma>')"
    proof (cases "Simulator_notDone (mach \<sigma>)")
      case True
      with body e out obtain \<sigma>1 where step: "sim_step (lax env) \<sigma> = Inr \<sigma>1" and rest: "f e \<sigma>1 = Some out"
        by (auto split: sum.splits)
      consider "sim_step env \<sigma> = Inl UseAfterFree" | "sim_step env \<sigma> = Inr \<sigma>1"
        using sim_step_noticed [of env \<sigma>] step by (auto simp: up_to_fault_def)
      then show ?thesis
      proof cases
        case 1
        with True show ?thesis by (simp add: sim_loop.simps [of env \<sigma>])
      next
        case 2
        have "one_finished n (mach \<sigma>1)" using inv sim_step_fates [OF 2 assms(3)] by (rule settled_fates)
        with IH [OF rest] e out have "sim_loop env \<sigma>1 = Some (Inl UseAfterFree) \<or> one_finished n (mach \<sigma>')" by blast
        with True 2 show ?thesis by (simp add: sim_loop.simps [of env \<sigma>])
      qed
    next
      case False
      with body out inv show ?thesis by simp
    qed
  qed
  from P [OF assms(1)] assms(2) show ?thesis by simp
qed

text \<open>The first pass lets no process finish.\<close>

lemma first_pass_turn_finished:
  assumes "first_pass_turn env P = Inr (go, P')"
  shows "pq (pmach P') FINISHED = pq (pmach P) FINISHED"
proof -
  have "close_run env f Q = Inr Q' \<Longrightarrow> pq (pmach Q') FINISHED = pq (pmach Q) FINISHED" for f Q Q'
    by (auto simp: close_run_def Process_init_def Let_def bnd_eq_Inr split: option.splits)
  with assms show ?thesis
    by (fastforce simp: first_pass_turn_def first_pass_body_def Let_def bnd_eq_Inr split: prod.splits if_splits)
qed

lemma first_pass_finished: "first_pass env s = Inr s' \<Longrightarrow> pq s' FINISHED = pq s FINISHED"
proof -
  have "first_pass_loop env P = Inr P' \<Longrightarrow> pq (pmach P') FINISHED = pq (pmach P) FINISHED" for P P'
  proof (induction env P rule: first_pass_loop.induct)
    case (1 env P)
    then obtain go Q where Q: "first_pass_turn env P = Inr (go, Q)" "(if go then first_pass_loop env Q else Inr Q) = Inr P'"
      by (auto simp: first_pass_loop.simps [of env P] bnd_eq_Inr)
    with "1.IH" [OF Q(1)] first_pass_turn_finished [OF Q(1)] show ?case by (cases go) auto
  qed
  then show "first_pass env s = Inr s' \<Longrightarrow> pq s' FINISHED = pq s FINISHED"
    by (auto simp: first_pass_def bnd_eq_Inr)
qed

context replacement_module
begin

theorem second_finish_faults:
  assumes "env_ok ops (lax env)" "\<not> freed_writable env" "parseArgs os = Inr a" "(memsize a div pagesize a) mod 32 = 0"
    and "filename a = Some name" "fs name = Some (trace_text ls)" "length ls < 1000000" "pids_ok ls"
    and "l \<in> set ls" "m \<in> set ls" "fst l \<noteq> fst m"
  shows "pfsim env True fs os = Some (Inl UseAfterFree)"
proof -
  let ?n = "memsize a div pagesize a" and ?b = "boot_machine env True (trace_text ls)"
  have env: "linked env = ops" using assms(1) by (simp add: env_ok_def)
  have len: "length (trace_text ls) < 2 ^ 64 - 2" using trace_text_bound [of ls] assms(7) by simp
  have pids: "\<forall>l \<in> set ls. fst l \<noteq> 0" using assms(8) by (simp add: pids_ok_def)
  obtain s where s: "init_modules env ?n ?b = Inr s" "blank s" "mem_inv (ms s)" "rinv (ms s) (rep s)"
    "contents (tracefile s) = trace_text ls" "stats s = Stat_init" "log s = []"
    "length (memory (ms s)) = nat ?n" "vheap (ms s) = (\<lambda>_. None)"
    using env pages_bounds [OF assms(3)] assms(4) len by (rule init_modules_ok)
  obtain s' where s': "first_pass (lax env) s = Inr s'" "machine_inv rinv s'" "pq s' BLOCKED = []"
    "machine_work s' = length ls" "stats s' = stats s" "contents (tracefile s') = trace_text ls"
    "ms s' = ms s" "rep s' = rep s" "\<forall>p pp. procs s' p = Some pp \<longrightarrow> pageTable pp = Val []"
    using s(2-5) pids by (rule first_pass_trace)
  note args = parseArgs_ok [OF assms(3)] and pages = pages_bounds [OF assms(3)]
  have boot: "init_modules (lax env) ?n (boot_machine (lax env) True (trace_text ls)) = Inr s"
    using s(1) by (simp add: init_modules_def boot_machine_def)
  have run: "pfsim env True fs os = (case first_pass env s of Inl e \<Rightarrow> Some (Inl e)
      | Inr s' \<Rightarrow> Simulator_runSimulation env s')"
    using assms(3,5,6) args(1,3) pages(1) s(1) by (simp add: pfsim_def)
  have "pfsim (lax env) True fs os = Simulator_runSimulation (lax env) s'"
    using assms(3,5,6) args(1,3) pages(1) boot s'(1) by (simp add: pfsim_def)
  moreover obtain t s'' where ends: "pfsim (lax env) True fs os = Some (Inr (t, s''))" and over: "procs s'' = (\<lambda>_. None)"
    using pfsim_short [where fs = fs and name = name, OF assms(1,3-8)] by blast
  ultimately have "Simulator_runSimulation (lax env) s' = Some (Inr (t, s''))" by simp
  then obtain \<sigma> where loop: "sim_loop (lax env) (sim_start s') = Some (Inr \<sigma>)" "mach \<sigma> = s''"
    by (auto simp: Simulator_runSimulation_def bnd_eq_Inr)
  have g: "grouped ls (length ls) s'" by (rule first_pass_placed(3) [OF s(2,5) assms(8) s'(1)])
  define i j where "i = fst l" and "j = fst m"
  have "set (map (pid_at s') (pq s' RUNNABLE)) = fst ` set ls" using g by (simp add: grouped_def firsts_def)
  then have "{i, j} \<subseteq> pid_at s' ` dom (procs s')"
    using sched_ok_dom [OF machine_sched [OF s'(2)]] s'(3) assms(9,10) by (simp add: i_def j_def)
  moreover have fin: "finite (dom (procs s'))" using sched_ok_dom [OF machine_sched [OF s'(2)]] by simp
  ultimately have two: "2 \<le> card (dom (procs s'))"
    using surj_card_le [of "dom (procs s')" "{i, j}" "pid_at s'"] assms(11) by (simp add: i_def j_def)
  have "pq s' FINISHED = []" using first_pass_finished [OF s'(1)] s(2) by (simp add: blank_def)
  then have "one_finished (card (dom (procs s'))) (mach (sim_start s'))" using fin by (simp add: one_finished_def sim_start_def)
  moreover have "\<not> one_finished (card (dom (procs s'))) (mach \<sigma>)" using two over loop(2) by (simp add: one_finished_def)
  ultimately have fault: "sim_loop env (sim_start s') = Some (Inl UseAfterFree)"
    using loop_settled [OF loop(1) _ assms(2)] by blast
  from first_pass_noticed [of env s] s'(1) have "first_pass env s = Inl UseAfterFree \<or> first_pass env s = Inr s'"
    by (auto simp: up_to_fault_def)
  with run fault show ?thesis by (auto simp: Simulator_runSimulation_def)
qed

end

end
