(* ===== verification/PfsimProps.thy ===== *)
theory PfsimProps
  imports PolicyProps FinishedQueue
begin

text \<open>
  What the program does as a whole: it ends for every trace (of fewer than 2 million processes, on a multiple
  of 32 frames), with every replacement module, with the outcome that the lines of the trace decide; and
  how its parts behave under the invariant of the machine, with the errors it can make.
\<close>

section \<open>States for the examples\<close>

definition demo_env :: "'r replace_ops \<Rightarrow> 'r env" where
  "demo_env ops = \<lparr>linked = ops, destroy_order = (\<lambda>ws. ws), freed_writable = True\<rparr>"

definition demo_files :: "string \<Rightarrow> string option" where
  "demo_files = [''t'' \<mapsto> trace_text [(2, 5), (1, 7)]]"

definition demo_args :: args where
  "demo_args = \<lparr>memsize = 1048576, pagesize = 4096, filename = Some ''t''\<rparr>"

text \<open>
  Process 1 waits for its page 7, named by the second line of the trace; process 2, if it is
  there, is about to read the first line.
\<close>

definition demo_blocked :: "ul64 \<Rightarrow> Process" where
  "demo_blocked w = \<lparr>pid = 1, status = BLOCKED, firstline = 2, currentline = 2, lastline = 2, currentPos = 4,
     currInterval = 0, lineIntervals = INode 2 2 2 (Val 4) NULLI NULLI, waitTime = w,
     waitingOnPage = Some 0, pageTable = Val [0]\<rparr>"

definition demo_runnable :: Process where
  "demo_runnable = \<lparr>pid = 2, status = RUNNABLE, firstline = 1, currentline = 1, lastline = 1, currentPos = 0,
     currInterval = 0, lineIntervals = INode 1 1 1 (Val 0) NULLI NULLI, waitTime = 0,
     waitingOnPage = None, pageTable = Val []\<rparr>"

definition demo_machine :: "bool \<Rightarrow> ul64 \<Rightarrow> qstate machine" where
  "demo_machine two w = \<lparr>ms = demo_memory, rep = demo_queue,
     procs = (if two then [0 \<mapsto> demo_blocked w, 1 \<mapsto> demo_runnable] else [0 \<mapsto> demo_blocked w]), pnext = 2,
     pq = (\<lambda>st. case st of RUNNABLE \<Rightarrow> if two then [1] else [] | BLOCKED \<Rightarrow> [0] | FINISHED \<Rightarrow> []),
     stats = Stat_init, tracefile = \<lparr>contents = trace_text [(2, 5), (1, 7)], offset = 0\<rparr>, log = []\<rparr>"

definition demo_sim :: "bool \<Rightarrow> ul64 \<Rightarrow> qstate sim" where
  "demo_sim two w = \<lparr>mach = demo_machine two w, time = 0, cur = Some 1\<rparr>"

lemma demo_env_ok: "env_ok ops (demo_env ops)"
  by (simp add: env_ok_def demo_env_def)

lemma demo_args: "parseArgs [OptFile ''t''] = Inr demo_args"
  by (simp add: parseArgs_def demo_args_def check_pagesize_def check_memsize_def c_int_def)

lemma demo_args_sel:
  "memsize demo_args div pagesize demo_args = 256" "filename demo_args = Some ''t''"
  "demo_files ''t'' = Some (trace_text [(2, 5), (1, 7)])"
  by (simp_all add: demo_args_def demo_files_def)

lemma demo_text: "trace_text [(2, 5), (1, 7)] = [digit 2, CHR 32, digit 5, CHR 10, digit 1, CHR 32, digit 7, CHR 10]"
  by (simp add: trace_line_def show_nat_digit)

lemma demo_length: "length (trace_text [(2, 5), (1, 7)]) = 8"
  by (simp only: demo_text) simp

lemma demo_count:
  assumes "replacement_module ops rinv" "length cs < 2000000"
  shows "process_count (demo_env ops) (memsize demo_args div pagesize demo_args) cs < 2000000"
proof -
  have "process_count (demo_env ops) 256 cs \<le> length cs"
    using assms(2) by (intro replacement_module.process_count_le [OF assms(1)]) (simp_all add: demo_env_def)
  then show ?thesis using assms(2) by (simp add: demo_args_sel)
qed

text \<open>A file with pid 0 on its second line, which is malformed.\<close>

definition bad_files :: "string \<Rightarrow> string option" where
  "bad_files = [''t'' \<mapsto> trace_text [(2, 5), (0, 7)]]"

lemma bad_text: "bad_files ''t'' = Some (trace_text [(2, 5), (0, 7)])" "length (trace_text [(2, 5), (0, 7)]) = 8"
  by (simp_all add: bad_files_def trace_line_def show_nat_digit)

lemma bad_check: "trace_check (trace_text [(2, 5), (0, 7)]) = Inl (ExitFailure ''ERROR: Invalid trace file format'')"
proof -
  let ?ls = "[(2, 5), (0, 7)] :: (ul64 \<times> ul64) list"
  let ?f = "\<lambda>i. \<lparr>contents = trace_text ?ls, offset = gap_pos ?ls i\<rparr>"
  have "fscanf False (?f 0) = (LPair 2 5, ?f 1)" "fscanf False (?f 1) = (LPair 0 7, ?f 2)"
    using fscanf_gap [of "?f 0" ?ls 0] fscanf_gap [of "?f 1" ?ls 1] by (simp_all del: trace_text_simps add: numeral_2_eq_2)
  from this [THEN trace_check_read] show ?thesis by (simp del: trace_text_simps) (simp add: gap_pos_def)
qed

lemma demo_check: "trace_check (trace_text [(2, 5), (1, 7)]) = Inr [2, 1]"
  using trace_check_trace [of 0 "[(2, 5), (1, 7)]"] by (simp add: gap_pos_def)

lemma demo_machine_inv:
  assumes "0 < w"
  shows "machine_inv qinv (demo_machine two w)"
proof (rule machine_invI)
  show "run_sorted (demo_machine two w)" by (simp add: run_sorted_def demo_machine_def)
  show "core_inv qinv (demo_machine two w)"
  proof (rule core_invI)
    show "sched_ok (procs (demo_machine two w)) (pq (demo_machine two w) RUNNABLE) (pq (demo_machine two w) BLOCKED)"
      by (auto simp: sched_ok_def demo_machine_def demo_blocked_def demo_runnable_def split: if_splits)
    fix p pp assume "procs (demo_machine two w) p = Some pp"
    then consider "pp = demo_blocked w" | "pp = demo_runnable" by (auto simp: demo_machine_def split: if_splits)
    then show "proc_ok (ms (demo_machine two w)) pp"
      using assms by cases (simp_all add: demo_machine_def demo_blocked_def demo_runnable_def proc_ok_def
        lines_ok_def pages_ok_def blocked_ok_def page_key_def)
  next
    show "owned_ok (ms (demo_machine two w)) (procs (demo_machine two w))"
      by (simp add: owned_ok_def demo_machine_def)
  qed (simp_all add: demo_machine_def demo_memory_inv demo_queue_inv)
qed

lemma demo_sim_sel: "mach (demo_sim two w) = demo_machine two w" "time (demo_sim two w) = 0" "cur (demo_sim two w) = Some 1"
  by (simp_all add: demo_sim_def)

lemma demo_live: "Simulator_notDone (demo_machine two w)"
  by (simp add: Simulator_notDone_def Process_existsWithStatus_def demo_machine_def)

lemma demo_procs: "procs (demo_machine two w) 0 = Some (demo_blocked w)" "procs (demo_machine True w) 1 = Some demo_runnable"
  by (simp_all add: demo_machine_def)

section \<open>The program ends\<close>

text \<open>On the trace of two lines it ends, whatever the module.\<close>

lemma demo_finishes:
  assumes "replacement_module ops rinv"
  shows "\<exists>t s. pfsim (demo_env ops) True demo_files [OptFile ''t''] = Some (Inr (t, s))"
  using replacement_module.pfsim_short [where fs = demo_files, OF assms demo_env_ok demo_args _ demo_args_sel(2,3)]
  by (auto simp: demo_args_sel pids_ok_def simp del: trace_text_simps)

text \<open>
  C7: With FIFO the program returns for every contents of the trace file, when the command line is accepted and
  gives a multiple of 32 frames, the file is shorter than \<open>2 ^ 64 - 2\<close> bytes and the first pass creates
  fewer than 2 million processes. The lines of the file decide the outcome (\<open>trace_check\<close>): if one
  has pid 0, the program exits with the message for an invalid format; if one does not begin with a number, it
  reads a pid that was never assigned. Otherwise it counts every line once and all processes finish and are
  released, no page is left in a frame, only search pages are left allocated, and memory and the
  replacement module are consistent; unless the simulation comes to a turn where the process at the head of
  the run queue finds no pair of numbers in the file (\<open>runs_out\<close>), when it exits with the message for that.
  No assertion fails, nothing is accessed out of bounds or after its release.
\<close>

theorem pfsim_fifo:
  assumes "env_ok fifo_ops env" "parseArgs os = Inr a" "(memsize a div pagesize a) mod 32 = 0"
    and "filename a = Some name" "fs name = Some cs" "length cs < 2 ^ 64 - 2"
    and "process_count env (memsize a div pagesize a) cs < 2000000"
  shows "case trace_check cs of Inl e \<Rightarrow> pfsim env True fs os = Some (Inl e)
    | Inr ps \<Rightarrow> pfsim env True fs os = Some (Inl (ExitFailure ''Error reading from trace file.''))
          \<and> runs_out env (memsize a div pagesize a) cs
        \<or> (\<exists>t s. pfsim env True fs os = Some (Inr (t, s)) \<and> mem_inv (ms s) \<and> qinv (ms s) (rep s)
          \<and> procs s = (\<lambda>_. None) \<and> frames (ms s) = (\<lambda>_. None) \<and> pq s RUNNABLE = [] \<and> pq s BLOCKED = []
          \<and> tmr (stats s) = of_nat (length ps) \<and> (\<forall>w vp. vheap (ms s) w = Some vp \<longrightarrow> vp_pid vp = 0))"
  using fifo.pfsim_total [where fs = fs and name = name, OF assms] unfolding read_error_def by (auto split: sum.splits)

lemma pfsim_fifo_witness:
  "(\<exists>t s. pfsim (demo_env fifo_ops) True demo_files [OptFile ''t''] = Some (Inr (t, s)) \<and> procs s = (\<lambda>_. None)
      \<and> frames (ms s) = (\<lambda>_. None) \<and> tmr (stats s) = 2)
   \<and> pfsim (demo_env fifo_ops) True bad_files [OptFile ''t''] = Some (Inl (ExitFailure ''ERROR: Invalid trace file format''))"
proof -
  note module = fifo.replacement_module_axioms
  obtain t s where ends: "pfsim (demo_env fifo_ops) True demo_files [OptFile ''t''] = Some (Inr (t, s))"
    using demo_finishes [OF module] by blast
  with pfsim_fifo [where fs = demo_files, OF demo_env_ok demo_args _ demo_args_sel(2,3) _ demo_count [OF module]]
  have "procs s = (\<lambda>_. None) \<and> frames (ms s) = (\<lambda>_. None) \<and> tmr (stats s) = 2"
    using demo_length by (simp add: demo_args_sel demo_check del: trace_text_simps)
  moreover have "pfsim (demo_env fifo_ops) True bad_files [OptFile ''t''] = Some (Inl (ExitFailure ''ERROR: Invalid trace file format''))"
    using pfsim_fifo [where fs = bad_files, OF demo_env_ok demo_args _ demo_args_sel(2) bad_text(1) _ demo_count [OF module]]
    by (simp add: demo_args_sel bad_text(2) bad_check del: trace_text_simps)
  ultimately show ?thesis using ends by blast
qed

text \<open>
  C5: With LRU the program returns for every contents of the trace file, when the command line is accepted and
  gives a multiple of 32 frames, the file is shorter than \<open>2 ^ 64 - 2\<close> bytes and the first pass creates
  fewer than 2 million processes. The lines of the file decide the outcome (\<open>trace_check\<close>): if one
  has pid 0, the program exits with the message for an invalid format; if one does not begin with a number, it
  reads a pid that was never assigned. Otherwise it counts every line once and all processes finish and are
  released, no page is left in a frame, only search pages are left allocated, and memory and the
  replacement module are consistent; unless the simulation comes to a turn where the process at the head of
  the run queue finds no pair of numbers in the file (\<open>runs_out\<close>), when it exits with the message for that.
  No assertion fails, nothing is accessed out of bounds or after its release.
\<close>

theorem pfsim_lru:
  assumes "env_ok lru_ops env" "parseArgs os = Inr a" "(memsize a div pagesize a) mod 32 = 0"
    and "filename a = Some name" "fs name = Some cs" "length cs < 2 ^ 64 - 2"
    and "process_count env (memsize a div pagesize a) cs < 2000000"
  shows "case trace_check cs of Inl e \<Rightarrow> pfsim env True fs os = Some (Inl e)
    | Inr ps \<Rightarrow> pfsim env True fs os = Some (Inl (ExitFailure ''Error reading from trace file.''))
          \<and> runs_out env (memsize a div pagesize a) cs
        \<or> (\<exists>t s. pfsim env True fs os = Some (Inr (t, s)) \<and> mem_inv (ms s) \<and> qinv (ms s) (rep s)
          \<and> procs s = (\<lambda>_. None) \<and> frames (ms s) = (\<lambda>_. None) \<and> pq s RUNNABLE = [] \<and> pq s BLOCKED = []
          \<and> tmr (stats s) = of_nat (length ps) \<and> (\<forall>w vp. vheap (ms s) w = Some vp \<longrightarrow> vp_pid vp = 0))"
  using lru.pfsim_total [where fs = fs and name = name, OF assms] unfolding read_error_def by (auto split: sum.splits)

lemma pfsim_lru_witness:
  "(\<exists>t s. pfsim (demo_env lru_ops) True demo_files [OptFile ''t''] = Some (Inr (t, s)) \<and> procs s = (\<lambda>_. None)
      \<and> frames (ms s) = (\<lambda>_. None) \<and> tmr (stats s) = 2)
   \<and> pfsim (demo_env lru_ops) True bad_files [OptFile ''t''] = Some (Inl (ExitFailure ''ERROR: Invalid trace file format''))"
proof -
  note module = lru.replacement_module_axioms
  obtain t s where ends: "pfsim (demo_env lru_ops) True demo_files [OptFile ''t''] = Some (Inr (t, s))"
    using demo_finishes [OF module] by blast
  with pfsim_lru [where fs = demo_files, OF demo_env_ok demo_args _ demo_args_sel(2,3) _ demo_count [OF module]]
  have "procs s = (\<lambda>_. None) \<and> frames (ms s) = (\<lambda>_. None) \<and> tmr (stats s) = 2"
    using demo_length by (simp add: demo_args_sel demo_check del: trace_text_simps)
  moreover have "pfsim (demo_env lru_ops) True bad_files [OptFile ''t''] = Some (Inl (ExitFailure ''ERROR: Invalid trace file format''))"
    using pfsim_lru [where fs = bad_files, OF demo_env_ok demo_args _ demo_args_sel(2) bad_text(1) _ demo_count [OF module]]
    by (simp add: demo_args_sel bad_text(2) bad_check del: trace_text_simps)
  ultimately show ?thesis using ends by blast
qed

text \<open>
  C6: With CLOCK the program returns for every contents of the trace file, when the command line is accepted and
  gives a multiple of 32 frames, the file is shorter than \<open>2 ^ 64 - 2\<close> bytes and the first pass creates
  fewer than 2 million processes. The lines of the file decide the outcome (\<open>trace_check\<close>): if one
  has pid 0, the program exits with the message for an invalid format; if one does not begin with a number, it
  reads a pid that was never assigned. Otherwise it counts every line once and all processes finish and are
  released, no page is left in a frame, only search pages are left allocated, and memory and the
  replacement module are consistent; unless the simulation comes to a turn where the process at the head of
  the run queue finds no pair of numbers in the file (\<open>runs_out\<close>), when it exits with the message for that.
  No assertion fails, nothing is accessed out of bounds or after its release.
  The clock reads only reference bits that were written before.
\<close>

theorem pfsim_clock:
  assumes "env_ok clock_ops env" "parseArgs os = Inr a" "(memsize a div pagesize a) mod 32 = 0"
    and "filename a = Some name" "fs name = Some cs" "length cs < 2 ^ 64 - 2"
    and "process_count env (memsize a div pagesize a) cs < 2000000"
  shows "case trace_check cs of Inl e \<Rightarrow> pfsim env True fs os = Some (Inl e)
    | Inr ps \<Rightarrow> pfsim env True fs os = Some (Inl (ExitFailure ''Error reading from trace file.''))
          \<and> runs_out env (memsize a div pagesize a) cs
        \<or> (\<exists>t s. pfsim env True fs os = Some (Inr (t, s)) \<and> mem_inv (ms s) \<and> clock_inv (ms s) (rep s)
          \<and> procs s = (\<lambda>_. None) \<and> frames (ms s) = (\<lambda>_. None) \<and> pq s RUNNABLE = [] \<and> pq s BLOCKED = []
          \<and> tmr (stats s) = of_nat (length ps) \<and> (\<forall>w vp. vheap (ms s) w = Some vp \<longrightarrow> vp_pid vp = 0))"
  using clock.pfsim_total [where fs = fs and name = name, OF assms] unfolding read_error_def by (auto split: sum.splits)

lemma pfsim_clock_witness:
  "(\<exists>t s. pfsim (demo_env clock_ops) True demo_files [OptFile ''t''] = Some (Inr (t, s)) \<and> procs s = (\<lambda>_. None)
      \<and> frames (ms s) = (\<lambda>_. None) \<and> tmr (stats s) = 2)
   \<and> pfsim (demo_env clock_ops) True bad_files [OptFile ''t''] = Some (Inl (ExitFailure ''ERROR: Invalid trace file format''))"
proof -
  note module = clock.replacement_module_axioms
  obtain t s where ends: "pfsim (demo_env clock_ops) True demo_files [OptFile ''t''] = Some (Inr (t, s))"
    using demo_finishes [OF module] by blast
  with pfsim_clock [where fs = demo_files, OF demo_env_ok demo_args _ demo_args_sel(2,3) _ demo_count [OF module]]
  have "procs s = (\<lambda>_. None) \<and> frames (ms s) = (\<lambda>_. None) \<and> tmr (stats s) = 2"
    using demo_length by (simp add: demo_args_sel demo_check del: trace_text_simps)
  moreover have "pfsim (demo_env clock_ops) True bad_files [OptFile ''t''] = Some (Inl (ExitFailure ''ERROR: Invalid trace file format''))"
    using pfsim_clock [where fs = bad_files, OF demo_env_ok demo_args _ demo_args_sel(2) bad_text(1) _ demo_count [OF module]]
    by (simp add: demo_args_sel bad_text(2) bad_check del: trace_text_simps)
  ultimately show ?thesis using ends by blast
qed

text \<open>
  C8: With the random module, whatever numbers the generator yields, the program returns for every contents of the trace file, when the command line is accepted and
  gives a multiple of 32 frames, the file is shorter than \<open>2 ^ 64 - 2\<close> bytes and the first pass creates
  fewer than 2 million processes. The lines of the file decide the outcome (\<open>trace_check\<close>): if one
  has pid 0, the program exits with the message for an invalid format; if one does not begin with a number, it
  reads a pid that was never assigned. Otherwise it counts every line once and all processes finish and are
  released, no page is left in a frame, only search pages are left allocated, and memory and the
  replacement module are consistent; unless the simulation comes to a turn where the process at the head of
  the run queue finds no pair of numbers in the file (\<open>runs_out\<close>), when it exits with the message for that.
  No assertion fails, nothing is accessed out of bounds or after its release.
\<close>

theorem pfsim_random:
  assumes "env_ok (random_ops rand) env" "parseArgs os = Inr a" "(memsize a div pagesize a) mod 32 = 0"
    and "filename a = Some name" "fs name = Some cs" "length cs < 2 ^ 64 - 2"
    and "process_count env (memsize a div pagesize a) cs < 2000000"
  shows "case trace_check cs of Inl e \<Rightarrow> pfsim env True fs os = Some (Inl e)
    | Inr ps \<Rightarrow> pfsim env True fs os = Some (Inl (ExitFailure ''Error reading from trace file.''))
          \<and> runs_out env (memsize a div pagesize a) cs
        \<or> (\<exists>t s. pfsim env True fs os = Some (Inr (t, s)) \<and> mem_inv (ms s) \<and> random_inv (ms s) (rep s)
          \<and> procs s = (\<lambda>_. None) \<and> frames (ms s) = (\<lambda>_. None) \<and> pq s RUNNABLE = [] \<and> pq s BLOCKED = []
          \<and> tmr (stats s) = of_nat (length ps) \<and> (\<forall>w vp. vheap (ms s) w = Some vp \<longrightarrow> vp_pid vp = 0))"
  using random.pfsim_total [where fs = fs and name = name, OF assms] unfolding read_error_def by (auto split: sum.splits)

lemma pfsim_random_witness:
  "(\<exists>t s. pfsim (demo_env (random_ops (\<lambda>k. 5 * k))) True demo_files [OptFile ''t''] = Some (Inr (t, s)) \<and> procs s = (\<lambda>_. None)
      \<and> frames (ms s) = (\<lambda>_. None) \<and> tmr (stats s) = 2)
   \<and> pfsim (demo_env (random_ops (\<lambda>k. 5 * k))) True bad_files [OptFile ''t''] = Some (Inl (ExitFailure ''ERROR: Invalid trace file format''))"
proof -
  note module = random.replacement_module_axioms
  obtain t s where ends: "pfsim (demo_env (random_ops (\<lambda>k. 5 * k))) True demo_files [OptFile ''t''] = Some (Inr (t, s))"
    using demo_finishes [OF module] by blast
  with pfsim_random [where fs = demo_files and rand = "\<lambda>k. 5 * k", OF demo_env_ok demo_args _ demo_args_sel(2,3) _ demo_count [OF module]]
  have "procs s = (\<lambda>_. None) \<and> frames (ms s) = (\<lambda>_. None) \<and> tmr (stats s) = 2"
    using demo_length by (simp add: demo_args_sel demo_check del: trace_text_simps)
  moreover have "pfsim (demo_env (random_ops (\<lambda>k. 5 * k))) True bad_files [OptFile ''t''] = Some (Inl (ExitFailure ''ERROR: Invalid trace file format''))"
    using pfsim_random [where fs = bad_files and rand = "\<lambda>k. 5 * k", OF demo_env_ok demo_args _ demo_args_sel(2) bad_text(1) _ demo_count [OF module]]
    by (simp add: demo_args_sel bad_text(2) bad_check del: trace_text_simps)
  ultimately show ?thesis using ends by blast
qed

section \<open>Turns of the simulation\<close>

text \<open>
  A turn of the simulator, started where the invariant of the machine holds, stops the
  program only because the trace cannot be read; otherwise the invariant holds again.
\<close>

theorem turn_safe:
  assumes "machine_inv qinv (mach \<sigma>)" "Simulator_notDone (mach \<sigma>)" "env_ok lru_ops env"
  shows "sim_step env \<sigma> = Inl (ExitFailure ''Error reading from trace file.'')
    \<or> (\<exists>\<sigma>'. sim_step env \<sigma> = Inr \<sigma>' \<and> machine_inv qinv (mach \<sigma>'))"
  using lru.sim_step_ok [OF assms] unfolding read_error_def by blast

lemma turn_safe_witness:
  "sim_step (demo_env lru_ops) (demo_sim True 5) = Inl (ExitFailure ''Error reading from trace file.'')
    \<or> (\<exists>\<sigma>'. sim_step (demo_env lru_ops) (demo_sim True 5) = Inr \<sigma>' \<and> machine_inv qinv (mach \<sigma>'))"
  using turn_safe [of "demo_sim True 5" "demo_env lru_ops"] demo_machine_inv [of 5 True] demo_env_ok [of lru_ops]
  by (simp add: demo_sim_sel demo_live)

text \<open>
  C9: Type soundness of the reachable machines. In every machine that the simulation reaches from one that
  satisfies the invariant, as the first pass leaves it, each process is runnable or blocked and on the queue of its status and on no other, no
  pid occurs twice, its current line is not past its current interval, its page table is written and lists pages of its
  own, one for each page number, and a blocked process waits for one of them that is not in memory; and while there is
  such a process, the simulation makes a turn or reports that the trace cannot be read.
\<close>

theorem reached_machine_sound:
  assumes "machine_inv qinv s" "env_ok lru_ops env" "steps env (sim_start s) \<sigma>"
    and "procs (mach \<sigma>) p = Some pp"
  shows "(status pp = RUNNABLE \<longleftrightarrow> p \<in> set (pq (mach \<sigma>) RUNNABLE)) \<and> (status pp = BLOCKED \<longleftrightarrow> p \<in> set (pq (mach \<sigma>) BLOCKED))
    \<and> status pp \<noteq> FINISHED \<and> distinct (pq (mach \<sigma>) RUNNABLE @ pq (mach \<sigma>) BLOCKED)
    \<and> (\<forall>q qq. procs (mach \<sigma>) q = Some qq \<longrightarrow> pid qq = pid pp \<longrightarrow> q = p)
    \<and> (\<exists>l h m f lt rt. interval_of pp = INode l h m f lt rt \<and> currentline pp \<le> h)
    \<and> (\<exists>ws. pageTable pp = Val ws \<and> distinct (map (page_key (ms (mach \<sigma>))) ws)
         \<and> (\<forall>w \<in> set ws. \<exists>vp. vheap (ms (mach \<sigma>)) w = Some vp \<and> vp_pid vp = pid pp)
         \<and> (status pp = BLOCKED \<longrightarrow> (\<exists>v \<in> set ws. waitingOnPage pp = Some v
              \<and> (\<exists>vp. vheap (ms (mach \<sigma>)) v = Some vp \<and> \<not> inMemory vp))))
    \<and> (sim_step env \<sigma> = Inl (ExitFailure ''Error reading from trace file.'') \<or> (\<exists>\<sigma>'. sim_step env \<sigma> = Inr \<sigma>'))"
proof -
  have "machine_inv qinv (mach (sim_start s))" using assms(1) by (simp add: sim_start_def)
  then have inv: "machine_inv qinv (mach \<sigma>)" by (rule lru.steps_inv [OF assms(3,2)])
  note sched = machine_sched [OF inv] and ok = core_proc [OF machine_inv_core [OF inv] assms(4)]
  have place: "p \<in> set (pq (mach \<sigma>) RUNNABLE @ pq (mach \<sigma>) BLOCKED)" using sched_ok_dom [OF sched] assms(4) by blast
  then have live: "Simulator_notDone (mach \<sigma>)" by (auto simp: Simulator_notDone_def Process_existsWithStatus_def)
  have "lines_ok pp" "pages_ok (ms (mach \<sigma>)) pp" using ok by (simp_all add: proc_ok_def)
  from \<open>pages_ok _ pp\<close> obtain ws where ws: "pageTable pp = Val ws" "distinct ws" "distinct (map (page_key (ms (mach \<sigma>))) ws)"
    "\<forall>w \<in> set ws. \<exists>vp. managed (ms (mach \<sigma>)) w = Some vp \<and> vp_pid vp = pid pp" "pid pp \<noteq> 0"
    by (rule pages_okE)
  have "\<exists>l h m f lt rt. interval_of pp = INode l h m f lt rt \<and> currentline pp \<le> h"
    using \<open>lines_ok pp\<close> by (rule lines_ok_node) blast
  moreover have "\<forall>w \<in> set ws. \<exists>vp. vheap (ms (mach \<sigma>)) w = Some vp \<and> vp_pid vp = pid pp"
    using ws(4) by (auto simp: managed_Some)
  moreover have "status pp = BLOCKED \<longrightarrow> (\<exists>v \<in> set ws. waitingOnPage pp = Some v
      \<and> (\<exists>vp. vheap (ms (mach \<sigma>)) v = Some vp \<and> \<not> inMemory vp))"
    using ok ws(1) by (auto simp: proc_ok_def blocked_ok_def)
  moreover have "(status pp = RUNNABLE \<longleftrightarrow> p \<in> set (pq (mach \<sigma>) RUNNABLE)) \<and> (status pp = BLOCKED \<longleftrightarrow> p \<in> set (pq (mach \<sigma>) BLOCKED))"
    using sched_ok_status [OF sched assms(4)] sched_ok_distinct [OF sched] place by auto
  moreover have "\<forall>q qq. procs (mach \<sigma>) q = Some qq \<longrightarrow> pid qq = pid pp \<longrightarrow> q = p"
    using sched_ok_pid [OF sched _ assms(4)] by blast
  moreover have "sim_step env \<sigma> = Inl (ExitFailure ''Error reading from trace file.'') \<or> (\<exists>\<sigma>'. sim_step env \<sigma> = Inr \<sigma>')"
    using lru.sim_step_ok [OF inv live assms(2)] unfolding read_error_def by blast
  moreover have "status pp \<noteq> FINISHED" using sched_ok_status [OF sched assms(4)] by simp
  ultimately show ?thesis using sched_ok_distinct [OF sched] ws(1,3) by blast
qed

lemma reached_machine_sound_witness:
  "distinct (pq (demo_machine True 5) RUNNABLE @ pq (demo_machine True 5) BLOCKED)
    \<and> (\<exists>v. waitingOnPage (demo_blocked 5) = Some v \<and> (\<exists>vp. vheap demo_memory v = Some vp \<and> \<not> inMemory vp))"
proof -
  have "mach (sim_start (demo_machine True 5)) = demo_machine True 5" "ms (demo_machine True 5) = demo_memory"
    "status (demo_blocked 5) = BLOCKED"
    by (simp_all add: sim_start_def demo_machine_def demo_blocked_def fseek_def)
  then show ?thesis
    using reached_machine_sound [OF demo_machine_inv [of 5 True] demo_env_ok steps_refl, of 0 "demo_blocked 5"]
      demo_procs(1) [of True 5] by fastforce
qed

text \<open>
  C22: While no process is runnable, the process at the head of the disk queue is served after
  exactly the ticks that are left of its wait: then its page is in memory, it alone is runnable,
  and the others wait as before.
\<close>

theorem fault_service_time:
  assumes "machine_inv qinv (mach \<sigma>)" "env_ok fifo_ops env" "pq (mach \<sigma>) RUNNABLE = []"
    and "pq (mach \<sigma>) BLOCKED = b # B" "procs (mach \<sigma>) b = Some bp" "waitingOnPage bp = Some v"
  shows "\<exists>\<sigma>' vp. steps env \<sigma> \<sigma>' \<and> time \<sigma>' = time \<sigma> + waitTime bp
    \<and> pq (mach \<sigma>') RUNNABLE = [b] \<and> pq (mach \<sigma>') BLOCKED = B
    \<and> vheap (ms (mach \<sigma>')) v = Some vp \<and> inMemory vp"
proof -
  have due: "\<exists>\<tau>' vp. steps env \<tau> \<tau>' \<and> time \<tau>' = time \<tau> + 1 \<and> pq (mach \<tau>') RUNNABLE = [b]
      \<and> pq (mach \<tau>') BLOCKED = B \<and> vheap (ms (mach \<tau>')) v = Some vp \<and> inMemory vp"
    if t: "machine_inv qinv (mach \<tau>)" "pq (mach \<tau>) RUNNABLE = []" "pq (mach \<tau>) BLOCKED = b # B"
      "procs (mach \<tau>) b = Some (bp\<lparr>waitTime := 1\<rparr>)" for \<tau> :: "qstate sim"
  proof -
    have "Simulator_notDone (mach \<tau>)" using t(3) by (simp add: Simulator_notDone_def Process_existsWithStatus_def)
    moreover have "head_due (mach \<tau>)" using t(3,4) by (simp add: head_due_def)
    ultimately obtain \<tau>' where "sim_step env \<tau> = Inr \<tau>'" "turn \<tau> \<tau>'"
      using fifo.sim_step_ok [OF t(1) _ assms(2)] by blast
    then have step: "steps env \<tau> \<tau>'" "time \<tau>' = time \<tau> + 1" "resumed b (mach \<tau>) (mach \<tau>')"
      using \<open>Simulator_notDone (mach \<tau>)\<close> \<open>head_due (mach \<tau>)\<close> t(3)
      by (auto simp: turn_def intro: steps.intros)
    from step(3) t(2-4) assms(6) have "pq (mach \<tau>') RUNNABLE = [b]" "pq (mach \<tau>') BLOCKED = B"
      "\<exists>vp. vheap (ms (mach \<tau>')) v = Some vp \<and> inMemory vp"
      by (auto simp: resumed_def place_def)
    with step(1,2) show ?thesis by blast
  qed
  show ?thesis
  proof (cases "waitTime bp = 1")
    case True
    then have "bp\<lparr>waitTime := 1\<rparr> = bp" by simp
    with due [OF assms(1,3,4)] True assms(5) show ?thesis by simp
  next
    case False
    then have not_due: "\<not> head_due (mach \<sigma>)" using assms(4,5) by (simp add: head_due_def)
    have live: "Simulator_notDone (mach \<sigma>)" using assms(4) by (simp add: Simulator_notDone_def Process_existsWithStatus_def)
    obtain \<tau> where \<tau>: "sim_step env \<sigma> = Inr \<tau>" "machine_inv qinv (mach \<tau>)" "turn \<sigma> \<tau>"
      using fifo.sim_step_ok [OF assms(1) live assms(2)] assms(3) by auto
    then have "idled \<sigma> \<tau>" using not_due assms(3) by (simp add: turn_def)
    then have i: "pq (mach \<tau>) = pq (mach \<sigma>)" "procs (mach \<tau>) b = Some (bp\<lparr>waitTime := 1\<rparr>)"
      "time \<tau> = time \<sigma> + (waitTime bp - 1)"
      using assms(4,5) by (auto simp: idled_def)
    obtain \<tau>' vp where served: "steps env \<tau> \<tau>'" "time \<tau>' = time \<tau> + 1" "pq (mach \<tau>') RUNNABLE = [b]"
      "pq (mach \<tau>') BLOCKED = B" "vheap (ms (mach \<tau>')) v = Some vp" "inMemory vp"
      using due [OF \<tau>(2)] i assms(3,4) by auto
    have "steps env \<sigma> \<tau>'" using live \<tau>(1) served(1) by (rule steps_step)
    moreover have "time \<tau>' = time \<sigma> + waitTime bp" using served(2) i(3) by simp
    ultimately show ?thesis using served(3-6) by blast
  qed
qed

lemma fault_service_time_witness:
  "\<exists>\<sigma>'. steps (demo_env fifo_ops) (demo_sim False DISK_PENALTY) \<sigma>' \<and> time \<sigma>' = 2000000
     \<and> pq (mach \<sigma>') RUNNABLE = [0]"
  using fault_service_time [of "demo_sim False DISK_PENALTY" "demo_env fifo_ops" 0 "[]" "demo_blocked DISK_PENALTY" 0]
    demo_machine_inv [of DISK_PENALTY False] demo_env_ok [of fifo_ops]
  by (auto simp: demo_sim_def demo_machine_def demo_blocked_def DISK_PENALTY_def)

text \<open>
  C36: When the disk is done while another process stays at the head of the run queue, the file is
  moved to the line of the process that was waiting, but the simulator goes on with the process
  at the head without moving the file back: the next line it reads is not its own.
\<close>

theorem resume_moves_file:
  assumes "machine_inv qinv (mach \<sigma>)" "env_ok lru_ops env" "pq (mach \<sigma>) BLOCKED = b # B"
    and "procs (mach \<sigma>) b = Some bp" "waitTime bp = 1" "pq (mach \<sigma>) RUNNABLE = p # q" "cur \<sigma> = Some p"
    and "procs (mach \<sigma>) p = Some pp" "currentPos pp \<le> currentPos bp"
  shows "\<exists>\<sigma>'. sim_step env \<sigma> = Inr \<sigma>' \<and> Process_peek RUNNABLE (mach \<sigma>') = Some p
    \<and> ftell (tracefile (mach \<sigma>')) = currentPos bp
    \<and> run_head env \<sigma>' = bnd (run_line env p (mach \<sigma>')) (\<lambda>(s, c). Inr (\<sigma>'\<lparr>mach := s, cur := c\<rparr>))"
proof -
  have live: "Simulator_notDone (mach \<sigma>)" using assms(3) by (simp add: Simulator_notDone_def Process_existsWithStatus_def)
  have due: "head_due (mach \<sigma>)" using assms(3-5) by (simp add: head_due_def)
  obtain \<sigma>' where step: "sim_step env \<sigma> = Inr \<sigma>'" "turn \<sigma> \<sigma>'"
    using lru.sim_step_ok [OF assms(1) live assms(2)] due by blast
  then have r: "resumed b (mach \<sigma>) (mach \<sigma>')" "cur \<sigma>' = Some p" using due assms(3,7) by (auto simp: turn_def)
  then have "pq (mach \<sigma>') RUNNABLE = place (procs (mach \<sigma>)) b (currentPos bp) (p # q)"
    "ftell (tracefile (mach \<sigma>')) = currentPos bp"
    using assms(4,6) by (auto simp: resumed_def)
  moreover from this(1) have "Process_peek RUNNABLE (mach \<sigma>') = Some p"
    using assms(8,9) by (simp add: Process_peek_def place_def saved_pos_def)
  ultimately show ?thesis using step(1) r(2) by (auto simp: run_head_def)
qed

lemma resume_moves_file_witness:
  "\<exists>\<sigma>'. sim_step (demo_env lru_ops) (demo_sim True 1) = Inr \<sigma>' \<and> Process_peek RUNNABLE (mach \<sigma>') = Some 1
     \<and> ftell (tracefile (mach \<sigma>')) = 4"
  using resume_moves_file [of "demo_sim True 1" "demo_env lru_ops" 0 "[]" "demo_blocked 1" 1 "[]" demo_runnable]
    demo_machine_inv [of 1 True] demo_env_ok [of lru_ops]
  by (auto simp: demo_sim_def demo_machine_def demo_blocked_def demo_runnable_def)

section \<open>Processes\<close>

text \<open>
  C24: \<open>ProcessQueue_enqueuePriority\<close> keeps the run queue ordered by the saved file positions: it
  puts the process behind all that are not behind it in the file, and before the others.
\<close>

theorem enqueuePriority_sorted:
  assumes "sorted (map (saved_pos h) q)" "h p = Some pp" "\<forall>c \<in> set q. \<exists>cp. h c = Some cp \<and> pid cp \<noteq> pid pp"
  shows "\<exists>q1 q2. q = q1 @ q2 \<and> ProcessQueue_enqueuePriority h p pp q = Inr (q1 @ p # q2)
    \<and> (\<forall>c \<in> set q1. saved_pos h c \<le> currentPos pp) \<and> (\<forall>c \<in> set q2. currentPos pp < saved_pos h c)
    \<and> sorted (map (saved_pos h) (q1 @ p # q2))"
proof -
  let ?P = "\<lambda>c. saved_pos h c \<le> currentPos pp"
  let ?q1 = "takeWhile ?P q" and ?q2 = "dropWhile ?P q"
  have pos: "saved_pos h p = currentPos pp" using assms(2) by (simp add: saved_pos_def)
  have q: "q = ?q1 @ ?q2" by simp
  have sorted: "sorted (map (saved_pos h) (?q1 @ p # ?q2))"
    using place_sorted [OF assms(1) pos] by (simp add: place_def)
  have "\<forall>c \<in> set ?q2. currentPos pp < saved_pos h c"
  proof (cases ?q2)
    case (Cons d ds)
    then have d: "\<not> saved_pos h d \<le> currentPos pp" by (metis hd_dropWhile list.sel(1) list.discI)
    have "sorted (map (saved_pos h) (d # ds))" using sorted Cons by (simp add: sorted_append)
    with d Cons show ?thesis by fastforce
  next
    case Nil
    show ?thesis unfolding Nil by simp
  qed
  moreover have "\<forall>c \<in> set ?q1. ?P c" by (meson set_takeWhileD)
  moreover have "ProcessQueue_enqueuePriority h p pp q = Inr (?q1 @ p # ?q2)"
    using enqueuePriority_eq [OF assms(3), of p] by (simp add: place_def)
  ultimately show ?thesis using q sorted by blast
qed

lemma enqueuePriority_sorted_witness:
  "\<exists>q1 q2. [1] = q1 @ q2 \<and> ProcessQueue_enqueuePriority (procs (demo_machine True 1)) 0 (demo_blocked 1) [1]
     = Inr (q1 @ 0 # q2)"
  using enqueuePriority_sorted [of "procs (demo_machine True 1)" "[1]" 0 "demo_blocked 1"]
  by (fastforce simp: demo_machine_def demo_blocked_def demo_runnable_def)

text \<open>
  C23: Looking up the page of a line never fails: the page it yields belongs to the process, has
  the number asked for and is in the table of the process; it is the page the table had for the
  number, if there was one, and the other pages and the frames are untouched.
\<close>

theorem find_page_correct:
  assumes "machine_inv qinv s" "env_ok lru_ops env" "procs s p = Some pp"
  shows "\<exists>v s' ws. find_page env p n s = Inr (v, s') \<and> procs s' = (procs s)(p \<mapsto> pp\<lparr>pageTable := Val ws\<rparr>)
    \<and> v \<in> set ws \<and> (\<exists>vp. vheap (ms s') v = Some vp \<and> vp_pid vp = pid pp \<and> vpn vp = n)
    \<and> (\<forall>us w. pageTable pp = Val us \<longrightarrow> lookup_page (ms s) n us = Some w \<longrightarrow> v = w)
    \<and> (\<forall>w wp. vheap (ms s) w = Some wp \<longrightarrow> vheap (ms s') w = Some wp) \<and> frames (ms s') = frames (ms s)"
proof -
  have env: "linked env = lru_ops" using assms(2) by (simp add: env_ok_def)
  obtain v s' ws where f: "find_page env p n s = Inr (v, s')" "core_inv qinv s'"
    "s' = s\<lparr>ms := ms s', rep := rep s', procs := (procs s)(p \<mapsto> pp\<lparr>pageTable := Val ws\<rparr>)\<rparr>"
    "lookup_page (ms s') n ws = Some v" "page_key (ms s') v = Some (pid pp, n)" "grows (ms s) (ms s')"
    "\<forall>us w. pageTable pp = Val us \<longrightarrow> lookup_page (ms s) n us = Some w \<longrightarrow> v = w"
    using machine_inv_core [OF assms(1)] assms(3) env by (rule lru.find_page_ok)
  have "procs s' = (procs s)(p \<mapsto> pp\<lparr>pageTable := Val ws\<rparr>)" by (subst f(3)) simp
  then show ?thesis
    using f(1,5,7) lookup_page_Some [OF f(4)] growsD [OF f(6)] by (auto simp: page_key_Some)
qed

lemma find_page_correct_witness:
  "\<exists>v s' vp. find_page (demo_env lru_ops) 1 9 (demo_machine True 5) = Inr (v, s')
     \<and> vheap (ms s') v = Some vp \<and> vp_pid vp = 2 \<and> vpn vp = 9"
proof -
  have "pid demo_runnable = 2" by (simp add: demo_runnable_def)
  then show ?thesis
    using find_page_correct [OF demo_machine_inv [of 5 True] demo_env_ok demo_procs(2), of 9] by fastforce
qed

text \<open>
  C25: When the process at the head of the run queue has run its last line, finishing it releases
  it and every page of its table: none of them is left in the heap or in a frame. The other
  processes and their pages are untouched and the invariant holds.
\<close>

theorem finish_releases:
  assumes "machine_inv qinv s" "env_ok fifo_ops env" "pq s RUNNABLE = p # q" "procs s p = Some pp"
    and "lastline pp \<le> currentline pp" "pageTable pp = Val ws"
  shows "\<exists>s'. Simulator_safelySwitchStatus env p FINISHED 0 s = Inr s' \<and> machine_inv qinv s'
    \<and> procs s' = (procs s)(p := None) \<and> pq s' RUNNABLE = q \<and> pq s' FINISHED = pq s FINISHED @ [p]
    \<and> (\<forall>w \<in> set ws. vheap (ms s') w = None \<and> (\<forall>i. frames (ms s') i \<noteq> Some w))
    \<and> (\<forall>w. w \<notin> set ws \<longrightarrow> vheap (ms s') w = vheap (ms s) w)"
proof -
  have env: "linked env = fifo_ops" "freed_writable env" "\<And>ws. mset (destroy_order env ws) = mset ws"
    using assms(2) by (simp_all add: env_ok_def)
  obtain s' where f: "Simulator_safelySwitchStatus env p FINISHED 0 s = Inr s'" "machine_inv qinv s'"
    "procs s' = (procs s)(p := None)" "pq s' = (pq s)(RUNNABLE := q, FINISHED := pq s FINISHED @ [p])"
    "only_moves p s s'" "stats s' = stats s" "log s' = log s"
    "\<forall>ws. pageTable pp = Val ws \<longrightarrow> (\<forall>w. vheap (ms s') w = (if w \<in> set ws then None else vheap (ms s) w))"
    using assms(1,3-5) env by (rule fifo.finish_ok)
  have "frames (ms s') i \<noteq> Some w" if "w \<in> set ws" for w i
    using mem_links_frame [OF mem_inv_links [OF core_mem [OF machine_inv_core [OF f(2)]]], of i w] f(8) assms(6) that
    by auto
  with f assms(6) show ?thesis by auto
qed

lemma finish_releases_witness:
  "\<exists>s'. Simulator_safelySwitchStatus (demo_env fifo_ops) 1 FINISHED 0 (demo_machine True 5) = Inr s' \<and> procs s' 1 = None"
  using finish_releases [OF demo_machine_inv [of 5 True] demo_env_ok _ demo_procs(2)]
  by (fastforce simp: demo_machine_def demo_runnable_def)

text \<open>
  C37: Where a write to freed memory is noticed, the program faults for every trace of under a million well-formed lines
  with two different pids, on every memory with a multiple of 32 frames: the second process to finish is put on the
  queue of finished processes by \<open>STAILQ_INSERT_TAIL\<close>, which writes the link of the first, and that one was freed
  when it finished. (With LRU; with pids below \<open>2 ^ 32\<close>, which the pid map keeps apart.)
\<close>

theorem finished_queue_use_after_free:
  assumes "linked env = lru_ops" "\<forall>ws. mset (destroy_order env ws) = mset ws" "\<not> freed_writable env"
    and "parseArgs os = Inr a" "(memsize a div pagesize a) mod 32 = 0" "filename a = Some name"
    and "fs name = Some (trace_text ls)" "length ls < 1000000" "\<forall>l \<in> set ls. fst l \<noteq> 0 \<and> unat (fst l) < 2 ^ 32"
    and "l \<in> set ls" "m \<in> set ls" "fst l \<noteq> fst m"
  shows "pfsim env True fs os = Some (Inl UseAfterFree)"
proof -
  have "env_ok lru_ops (lax env)" using assms(1,2) by (simp add: env_ok_def)
  moreover have "pids_ok ls" using assms(9) by (simp add: pids_ok_def)
  ultimately show ?thesis
    using assms(3-8,10-12) by (intro lru.second_finish_faults [where fs = fs and name = name])
qed

lemma finished_queue_use_after_free_witness:
  "pfsim (demo_env lru_ops\<lparr>freed_writable := False\<rparr>) True demo_files [OptFile ''t''] = Some (Inl UseAfterFree)"
  using finished_queue_use_after_free [where fs = demo_files and env = "demo_env lru_ops\<lparr>freed_writable := False\<rparr>",
      OF _ _ _ demo_args _ demo_args_sel(2,3), of "(2, 5)" "(1, 7)"]
  by (simp add: demo_env_def demo_args_sel del: trace_text_simps)

text \<open>
  C38: The root of a new page table is read although nothing has written it: unless \<open>malloc\<close>
  returned zeroed memory, the first lookup of a page of a new process, and quitting it, read an
  indeterminate pointer.
\<close>

theorem page_table_root_uninitialised:
  assumes "\<not> zeroed (ms s)" "Process_init env i l0 l1 tree s = Inr (a, s')"
  shows "Process_getVirtualPage env a n s' = Inl Indeterminate \<and> Process_quit env a s' = Inl Indeterminate"
proof -
  obtain pp where pp: "procs s' a = Some pp" "pageTable pp = Indet"
    using assms by (auto simp: Process_init_def Let_def bnd_eq_Inr PageTable_init_def)
  then show ?thesis
    by (simp add: Process_quit_def Process_getVirtualPage_def on_pager_def PageTable_get_def VPage_init_def Let_def)
qed

lemma page_table_root_uninitialised_witness:
  "\<exists>s'. Process_init (demo_env lru_ops) 3 1 1 (INode 1 1 1 (Val 0) NULLI NULLI) (boot_machine (demo_env lru_ops) False [])
       = Inr (0, s') \<and> Process_quit (demo_env lru_ops) 0 s' = Inl Indeterminate"
proof -
  let ?s = "boot_machine (demo_env lru_ops) False []"
  let ?run = "Process_init (demo_env lru_ops) 3 1 1 (INode 1 1 1 (Val 0) NULLI NULLI) ?s"
  have "\<not> zeroed (ms ?s)" by (simp add: boot_machine_def boot_memory_def)
  moreover obtain s' where "?run = Inr (0, s')"
    by (simp add: Process_init_def Let_def boot_machine_def stailq_insert_tail_def)
  ultimately show ?thesis using page_table_root_uninitialised by blast
qed

end
