(* ===== verification/ParserHeap.thy ===== *)
theory ParserHeap
  imports TraceParser "HOL-Library.Multiset"
begin

text \<open>
  The first pass with the memory of its pid map, \<open>trace_parser.c\<close>: the entries of the
  \<open>tsearch\<close> tree are blocks of the heap, every run of lines allocates one as a query, and a query
  whose pid is already in the tree is freed again. The pass of TraceParser, which keeps the map as an
  association list, is its abstraction: both have the same result, no access to an entry
  can fail, and nothing is left allocated.
\<close>

section \<open>The entries\<close>

type_synonym maddr = nat   \<comment> \<open>\<open>struct PidMap*\<close>\<close>

record PidMap =
  pm_pid :: u32
  owner :: "paddr option"   \<comment> \<open>\<open>None\<close> is null\<close>

record pidheap =
  cells :: "maddr \<Rightarrow> PidMap option"
  cell_next :: maddr

definition alloc_PidMap :: "ul64 \<Rightarrow> pidheap \<Rightarrow> maddr \<times> pidheap" where
  "alloc_PidMap p h =
     (let a = cell_next h in
      (a, h\<lparr>cells := (cells h)(a \<mapsto> \<lparr>pm_pid = make_PidMap p, owner = None\<rparr>), cell_next := Suc a\<rparr>))"

definition PidMap_free :: "maddr option \<Rightarrow> pidheap \<Rightarrow> pidheap res" where
  "PidMap_free p h =
     (case p of
        None \<Rightarrow> Inr h
      | Some a \<Rightarrow> bnd (deref (cells h) a) (\<lambda>_. Inr (h\<lparr>cells := (cells h)(a := None)\<rparr>)))"

text \<open>\<open>tsearch\<close> and \<open>tdestroy\<close> of the C library, with \<open>compare\<close> and \<open>PidMap_free\<close>.\<close>

fun entry_find :: "pidheap \<Rightarrow> PidMap \<Rightarrow> maddr list \<Rightarrow> maddr option res" where
  "entry_find h key [] = Inr None"
| "entry_find h key (w # ws) =
     bnd (deref (cells h) w) (\<lambda>wm.
     if pidmap_compare (pm_pid key) (pm_pid wm) = 0 then Inr (Some w) else entry_find h key ws)"

definition entry_tsearch :: "pidheap \<Rightarrow> maddr \<Rightarrow> maddr list \<Rightarrow> (maddr \<times> maddr list) res" where
  "entry_tsearch h new ws =
     bnd (deref (cells h) new) (\<lambda>key.
     bnd (entry_find h key ws) (\<lambda>res.
     case res of Some w \<Rightarrow> Inr (w, ws) | None \<Rightarrow> Inr (new, ws @ [new])))"

fun entry_tdestroy :: "maddr list \<Rightarrow> pidheap \<Rightarrow> pidheap res" where
  "entry_tdestroy [] h = Inr h"
| "entry_tdestroy (w # ws) h = bnd (PidMap_free (Some w) h) (entry_tdestroy ws)"

section \<open>The pass\<close>

record 'r hparse =
  h_mach :: "'r machine"
  h_pid :: ul64
  h_start_line :: ul64
  h_curr_line :: ul64
  h_start_fpos :: fpos
  h_root :: "maddr list"
  h_heap :: pidheap

definition close_run_heap :: "'r env \<Rightarrow> fpos \<Rightarrow> 'r hparse \<Rightarrow> 'r hparse res" where
  "close_run_heap env curr_fpos H =
     (let s = h_mach H; l0 = h_start_line H; l1 = h_curr_line H - 1;
          (new_pdm, h) = alloc_PidMap (h_pid H) (h_heap H) in
      bnd (entry_tsearch h new_pdm (h_root H)) (\<lambda>(existing, root).
      bnd (if existing \<noteq> new_pdm
           then bnd (PidMap_free (Some new_pdm) h) (\<lambda>h1.
                bnd (deref (cells h1) existing) (\<lambda>em.
                bnd (c_assert ''existing->owner != NULL'' (owner em \<noteq> None)) (\<lambda>_.
                bnd (nonnull (owner em)) (\<lambda>a.
                bnd (deref (procs s) a) (\<lambda>ow.
                bnd (it_setFpos (it_initnode l0 l1) (h_start_fpos H)) (\<lambda>node.
                bnd (it_insert (lineIntervals ow) node) (\<lambda>t.
                Inr (h1, s\<lparr>procs := (procs s)(a \<mapsto>
                  ow\<lparr>lastline := (if lastline ow < l1 then l1 else lastline ow), lineIntervals := t\<rparr>)\<rparr>))))))))
           else bnd (it_setFpos (it_initnode l0 l1) (h_start_fpos H)) (\<lambda>node.
                bnd (Process_init env (h_pid H) l0 l1 node s) (\<lambda>(a, s1).
                bnd (deref (cells h) new_pdm) (\<lambda>nm.
                Inr (h\<lparr>cells := (cells h)(new_pdm \<mapsto> nm\<lparr>owner := Some a\<rparr>)\<rparr>, s1))))) (\<lambda>(h2, s2).
      Inr (H\<lparr>h_mach := s2, h_root := root, h_heap := h2, h_start_fpos := curr_fpos,
             h_start_line := h_curr_line H\<rparr>))))"

definition first_pass_body_heap :: "'r env \<Rightarrow> fpos \<Rightarrow> line_read \<Rightarrow> 'r hparse \<Rightarrow> (bool \<times> 'r hparse) res" where
  "first_pass_body_heap env curr_fpos line H =
     (let curr_pid = (case line of LOne p \<Rightarrow> Val p | LPair p v \<Rightarrow> Val p | _ \<Rightarrow> Indet) in
      bnd (if fscanf_result line \<ge> 0 then bnd (rd curr_pid) (\<lambda>p. Inr (p = 0)) else Inr False) (\<lambda>bad.
      if bad then Inl (ExitFailure ''ERROR: Invalid trace file format'')
      else
        bnd (if h_pid H \<noteq> 0 \<and> (fscanf_result line \<le> 0 \<or> curr_pid \<noteq> Val (h_pid H))
             then close_run_heap env curr_fpos H else Inr H) (\<lambda>H1.
        Inr (fscanf_result line > 0,
             H1\<lparr>h_pid := (case curr_pid of Val p \<Rightarrow> p | Indet \<Rightarrow> h_pid H1),
                h_curr_line := h_curr_line H1 + 1\<rparr>))))"

definition first_pass_turn_heap :: "'r env \<Rightarrow> 'r hparse \<Rightarrow> (bool \<times> 'r hparse) res" where
  "first_pass_turn_heap env H =
     (let curr_fpos = ftell (tracefile (h_mach H)); (line, f) = fscanf False (tracefile (h_mach H))
      in first_pass_body_heap env curr_fpos line (H\<lparr>h_mach := (h_mach H)\<lparr>tracefile := f\<rparr>\<rparr>))"

lemma close_run_heap_tracefile:
  "close_run_heap env cf H = Inr H' \<Longrightarrow> tracefile (h_mach H') = tracefile (h_mach H)"
  by (auto simp: close_run_heap_def Process_init_def Let_def bnd_eq_Inr split: prod.splits if_splits)

lemma first_pass_turn_heap_progress:
  assumes "first_pass_turn_heap env H = Inr (True, H')"
  shows "unread (tracefile (h_mach H')) < unread (tracefile (h_mach H))"
proof -
  obtain line f where read: "fscanf False (tracefile (h_mach H)) = (line, f)" by fastforce
  with assms have "fscanf_result line > 0" "tracefile (h_mach H') = f"
    by (auto simp: first_pass_turn_heap_def first_pass_body_heap_def Let_def bnd_eq_Inr
        dest!: close_run_heap_tracefile split: if_splits)
  with fscanf_progress [OF read] show ?thesis by simp
qed

function first_pass_loop_heap :: "'r env \<Rightarrow> 'r hparse \<Rightarrow> 'r hparse res" where
  "first_pass_loop_heap env H =
     bnd (first_pass_turn_heap env H) (\<lambda>(more, H').
     if more then first_pass_loop_heap env H' else Inr H')"
  by pat_completeness auto
termination
  by (relation "measure (\<lambda>(env, H). unread (tracefile (h_mach H)))")
     (auto dest: first_pass_turn_heap_progress)

declare first_pass_loop_heap.simps [simp del]

definition first_pass_heap :: "'r env \<Rightarrow> 'r machine \<Rightarrow> ('r machine \<times> pidheap) res" where
  "first_pass_heap env s =
     bnd (first_pass_loop_heap env \<lparr>h_mach = s, h_pid = 0, h_start_line = 1, h_curr_line = 1,
            h_start_fpos = ftell (tracefile s), h_root = [],
            h_heap = \<lparr>cells = (\<lambda>_. None), cell_next = 0\<rparr>\<rparr>) (\<lambda>H.
     bnd (entry_tdestroy (destroy_order env (h_root H)) (h_heap H)) (\<lambda>h.
     Inr (h_mach H, h)))"

section \<open>The map that the entries represent\<close>

definition represents :: "pidheap \<Rightarrow> maddr list \<Rightarrow> pidmap \<Rightarrow> bool" where
  "represents h ws m \<longleftrightarrow> dom (cells h) = set ws \<and> distinct ws \<and> (\<forall>a \<ge> cell_next h. cells h a = None)
     \<and> map (cells h) ws = map (\<lambda>(k, a). Some \<lparr>pm_pid = k, owner = Some a\<rparr>) m"

lemma represents_next: "represents h ws m \<Longrightarrow> cell_next h \<notin> set ws"
  unfolding represents_def by (metis domIff order.refl)

lemma alloc_PidMapD:
  assumes "alloc_PidMap p h = (q, h1)"
  shows "q = cell_next h"
    "h1 = h\<lparr>cells := (cells h)(q \<mapsto> \<lparr>pm_pid = make_PidMap p, owner = None\<rparr>), cell_next := Suc q\<rparr>"
  using assms by (auto simp: alloc_PidMap_def Let_def)

lemma entry_find_represented:
  assumes "map (cells h) ws = map (\<lambda>(k, a). Some \<lparr>pm_pid = k, owner = Some a\<rparr>) m"
  shows "case pidmap_find (pm_pid key) m of
      None \<Rightarrow> entry_find h key ws = Inr None
    | Some a \<Rightarrow> \<exists>w \<in> set ws. entry_find h key ws = Inr (Some w) \<and> map_option owner (cells h w) = Some (Some a)"
  using assms
proof (induction ws arbitrary: m)
  case (Cons w ws)
  then obtain k a m' where m: "m = (k, a) # m'" "cells h w = Some \<lparr>pm_pid = k, owner = Some a\<rparr>"
    "map (cells h) ws = map (\<lambda>(k, a). Some \<lparr>pm_pid = k, owner = Some a\<rparr>) m'" by (cases m) auto
  with Cons.IH [OF m(3)] show ?case by (auto split: option.splits)
qed simp

text \<open>The query is not in the tree, so the search in the tree does not see it.\<close>

lemma entry_tsearch_represented:
  assumes "represents h ws m" "alloc_PidMap p h = (q, h1)"
  obtains w a where "pidmap_find (make_PidMap p) m = Some a" "w \<in> set ws" "w \<noteq> q"
      "entry_tsearch h1 q ws = Inr (w, ws)" "map_option owner (cells h w) = Some (Some a)"
  | "pidmap_find (make_PidMap p) m = None" "entry_tsearch h1 q ws = Inr (q, ws @ [q])"
proof -
  note h1 = alloc_PidMapD [OF assms(2)]
  have q: "q \<notin> set ws" using represents_next [OF assms(1)] h1(1) by simp
  then have "map (cells h1) ws = map (\<lambda>(k, a). Some \<lparr>pm_pid = k, owner = Some a\<rparr>) m"
    using assms(1) h1(2) by (simp add: represents_def)
  note find = entry_find_represented [OF this, of "\<lparr>pm_pid = make_PidMap p, owner = None\<rparr>"]
  show thesis
  proof (cases "pidmap_find (make_PidMap p) m")
    case None
    with find h1 show thesis by (intro that(2)) (simp_all add: entry_tsearch_def)
  next
    case (Some a)
    with find h1 obtain w where w: "w \<in> set ws" "entry_tsearch h1 q ws = Inr (w, ws)"
      "map_option owner (cells h1 w) = Some (Some a)" by (auto simp: entry_tsearch_def)
    with q have "w \<noteq> q" by blast
    with w Some h1(2) show thesis by (intro that(1) [of a w]) simp_all
  qed
qed

lemma represents_freed_query:
  assumes "represents h ws m" "alloc_PidMap p h = (q, h1)"
  shows "\<exists>h2. PidMap_free (Some q) h1 = Inr h2 \<and> cells h2 = cells h \<and> represents h2 ws m"
  using assms(1) alloc_PidMapD [OF assms(2)] represents_next [OF assms(1)]
  by (simp add: PidMap_free_def represents_def fun_upd_idem)

lemma represents_new_entry:
  assumes "represents h ws m" "alloc_PidMap p h = (q, h1)" "nm = \<lparr>pm_pid = make_PidMap p, owner = Some a\<rparr>"
  shows "represents (h1\<lparr>cells := (cells h1)(q \<mapsto> nm)\<rparr>) (ws @ [q]) (m @ [(make_PidMap p, a)])"
proof -
  note h1 = alloc_PidMapD [OF assms(2)]
  have "q \<notin> set ws" using represents_next [OF assms(1)] h1(1) by simp
  with assms(1,3) h1 show ?thesis by (auto simp: represents_def)
qed

lemma entry_tdestroy_all:
  "distinct ws \<Longrightarrow> dom (cells h) = set ws \<Longrightarrow> \<exists>h'. entry_tdestroy ws h = Inr h' \<and> cells h' = (\<lambda>_. None)"
proof (induction ws arbitrary: h)
  case (Cons w ws)
  have "w \<in> dom (cells h)" using Cons.prems(2) by simp
  then obtain wm where w: "cells h w = Some wm" by blast
  let ?h = "h\<lparr>cells := (cells h)(w := None)\<rparr>"
  have "dom (cells ?h) = set ws" using Cons.prems by auto
  from Cons.IH [OF _ this] have "\<exists>h'. entry_tdestroy ws ?h = Inr h' \<and> cells h' = (\<lambda>_. None)"
    using Cons.prems(1) by simp
  with w show ?case by (simp add: PidMap_free_def)
qed auto

section \<open>The pass refines the abstract pass\<close>

text \<open>The two passes in step: the same variables and machine, and entries that represent the map.\<close>

definition in_step :: "'r hparse \<Rightarrow> 'r parse \<Rightarrow> bool" where
  "in_step H P \<longleftrightarrow> h_mach H = pmach P \<and> h_pid H = last_pid P \<and> h_start_line H = start_line_number P
     \<and> h_curr_line H = curr_line_number P \<and> h_start_fpos H = start_fpos P
     \<and> represents (h_heap H) (h_root H) (search_tree P)"

text \<open>Outcomes in step: the same fault, or results that are.\<close>

abbreviation same_res :: "('a \<Rightarrow> 'b \<Rightarrow> bool) \<Rightarrow> 'a res \<Rightarrow> 'b res \<Rightarrow> bool" where
  "same_res R \<equiv> rel_sum (=) R"

lemma same_res_bnd:
  assumes "same_res R m m'" "\<And>x y. R x y \<Longrightarrow> same_res S (f x) (g y)"
  shows "same_res S (bnd m f) (bnd m' g)"
  using assms by (cases m; cases m') auto

lemma same_res_refl_bnd:
  "(\<And>x. same_res S (f x) (g x)) \<Longrightarrow> same_res S (bnd m f) (bnd m g)"
  by (cases m) auto

lemma close_run_in_step:
  assumes "in_step H P"
  shows "same_res in_step (close_run_heap env cf H) (close_run env cf P)"
proof -
  have rep: "represents (h_heap H) (h_root H) (search_tree P)"
    and same: "h_mach H = pmach P" "h_pid H = last_pid P" "h_start_line H = start_line_number P"
      "h_curr_line H = curr_line_number P" "h_start_fpos H = start_fpos P"
    using assms by (simp_all add: in_step_def)
  obtain q h1 where new: "alloc_PidMap (last_pid P) (h_heap H) = (q, h1)" by fastforce
  from rep new show ?thesis
  proof (cases rule: entry_tsearch_represented)
    case (1 w a)
    then obtain em where em: "cells (h_heap H) w = Some em" "owner em = Some a" by auto
    obtain h2 where "PidMap_free (Some q) h1 = Inr h2" "cells h2 = cells (h_heap H)"
      "represents h2 (h_root H) (search_tree P)"
      using represents_freed_query [OF rep new] by blast
    with 1 em same new show ?thesis
      by (auto simp: close_run_heap_def close_run_def Let_def it_initnode_def bnd_assoc in_step_def
          intro!: same_res_refl_bnd)
  next
    case 2
    have "cells h1 q = Some \<lparr>pm_pid = make_PidMap (last_pid P), owner = None\<rparr>"
      using alloc_PidMapD [OF new] by simp
    with 2 same new represents_new_entry [OF rep new refl] show ?thesis
      by (auto simp: close_run_heap_def close_run_def Let_def it_initnode_def bnd_assoc in_step_def
          intro!: same_res_refl_bnd)
  qed
qed

lemma first_pass_body_in_step:
  assumes "in_step H P"
  shows "same_res (rel_prod (=) in_step) (first_pass_body_heap env cf line H) (first_pass_body env cf line P)"
  unfolding first_pass_body_heap_def first_pass_body_def Let_def
proof (rule same_res_refl_bnd)
  fix bad
  let ?c = "case line of LOne p \<Rightarrow> Val p | LPair p v \<Rightarrow> Val p | _ \<Rightarrow> Indet"
  have "same_res in_step
      (if h_pid H \<noteq> 0 \<and> (fscanf_result line \<le> 0 \<or> ?c \<noteq> Val (h_pid H)) then close_run_heap env cf H else Inr H)
      (if last_pid P \<noteq> 0 \<and> (fscanf_result line \<le> 0 \<or> ?c \<noteq> Val (last_pid P)) then close_run env cf P else Inr P)"
    using close_run_in_step [OF assms] assms by (simp add: in_step_def)
  note closed = same_res_bnd [OF this]
  show "same_res (rel_prod (=) in_step)
     (if bad then Inl (ExitFailure ''ERROR: Invalid trace file format'')
      else bnd (if h_pid H \<noteq> 0 \<and> (fscanf_result line \<le> 0 \<or> ?c \<noteq> Val (h_pid H)) then close_run_heap env cf H else Inr H)
        (\<lambda>H1. Inr (fscanf_result line > 0, H1\<lparr>h_pid := (case ?c of Val p \<Rightarrow> p | Indet \<Rightarrow> h_pid H1),
                     h_curr_line := h_curr_line H1 + 1\<rparr>)))
     (if bad then Inl (ExitFailure ''ERROR: Invalid trace file format'')
      else bnd (if last_pid P \<noteq> 0 \<and> (fscanf_result line \<le> 0 \<or> ?c \<noteq> Val (last_pid P)) then close_run env cf P else Inr P)
        (\<lambda>P1. Inr (fscanf_result line > 0, P1\<lparr>last_pid := (case ?c of Val p \<Rightarrow> p | Indet \<Rightarrow> last_pid P1),
                     curr_line_number := curr_line_number P1 + 1\<rparr>)))"
  proof (cases bad)
    case False
    then show ?thesis
      by (simp only: if_False, intro closed) (auto simp: in_step_def split: cval.split)
  qed simp
qed

lemma first_pass_turn_in_step:
  assumes "in_step H P"
  shows "same_res (rel_prod (=) in_step) (first_pass_turn_heap env H) (first_pass_turn env P)"
proof -
  obtain line f where read: "fscanf False (tracefile (pmach P)) = (line, f)" by fastforce
  have "in_step (H\<lparr>h_mach := (h_mach H)\<lparr>tracefile := f\<rparr>\<rparr>) (P\<lparr>pmach := (pmach P)\<lparr>tracefile := f\<rparr>\<rparr>)"
    and "h_mach H = pmach P" using assms by (simp_all add: in_step_def)
  from first_pass_body_in_step [OF this(1)] this(2) read show ?thesis
    by (simp add: first_pass_turn_heap_def first_pass_turn_def)
qed

lemma first_pass_loop_in_step:
  "in_step H P \<Longrightarrow> same_res in_step (first_pass_loop_heap env H) (first_pass_loop env P)"
proof (induction env P arbitrary: H rule: first_pass_loop.induct)
  case (1 env P)
  note turn = first_pass_turn_in_step [OF "1.prems", of env]
  show ?case
  proof (cases "first_pass_turn env P")
    case (Inl e)
    with turn show ?thesis
      by (cases "first_pass_turn_heap env H") (simp_all add: first_pass_loop.simps first_pass_loop_heap.simps)
  next
    case (Inr r)
    with turn "1.IH" show ?thesis
      by (cases "first_pass_turn_heap env H"; cases r)
        (auto simp: first_pass_loop.simps [of env P] first_pass_loop_heap.simps [of env H])
  qed
qed

lemma first_pass_heap_result:
  assumes "\<And>ws. mset (destroy_order env ws) = mset ws"
  shows "same_res (\<lambda>(s', h) t. s' = t \<and> cells h = (\<lambda>_. None)) (first_pass_heap env s) (first_pass env s)"
  unfolding first_pass_heap_def first_pass_def
proof (rule same_res_bnd, rule first_pass_loop_in_step)
  fix H :: "'a hparse" and P assume "in_step H P"
  moreover have "set (destroy_order env (h_root H)) = set (h_root H)"
    "distinct (destroy_order env (h_root H)) = distinct (h_root H)"
    using assms [of "h_root H"] by (metis mset_eq_setD, metis mset_eq_imp_distinct_iff)
  ultimately obtain h where "entry_tdestroy (destroy_order env (h_root H)) (h_heap H) = Inr h" "cells h = (\<lambda>_. None)"
    using entry_tdestroy_all [of "destroy_order env (h_root H)" "h_heap H"] by (auto simp: in_step_def represents_def)
  with \<open>in_step H P\<close> show "same_res (\<lambda>(s', h) t. s' = t \<and> cells h = (\<lambda>_. None))
      (bnd (entry_tdestroy (destroy_order env (h_root H)) (h_heap H)) (\<lambda>h. Inr (h_mach H, h))) (Inr (pmach P))"
    by (simp add: in_step_def)
qed (simp add: in_step_def represents_def)

end
