(* ===== verification/TraceProps.thy ===== *)
theory TraceProps
  imports PfsimProps ParserHeap
begin

text \<open>
  The front of the program: reading a trace, the first pass over it, the command line; and the
  accounting of the ticks that the simulator skips.
\<close>

section \<open>Ticks\<close>

lemma tick_0: "tick 0 s = s"
  by (simp add: tick_def)

lemma tick_add: "tick m (tick n s) = tick (n + m) s"
  by (simp add: tick_def Process_existsWithStatus_def Stat_default_add)

text \<open>
  Accounting for \<open>n\<close> ticks at once, as the simulator does when it skips a wait, has the same
  effect on the statistics as \<open>n\<close> single ticks, wrap-around of the counters included.
\<close>

theorem skipped_ticks_counted: "(tick CLOCK_TICK ^^ unat n) s = tick n s"
proof -
  have "(tick CLOCK_TICK ^^ k) s = tick (of_nat k) s" for k
    by (induction k) (simp_all add: tick_0 tick_add CLOCK_TICK_def add.commute)
  from this [of "unat n"] show ?thesis by simp
qed

section \<open>Page tables\<close>

text \<open>
  Every successful lookup in a page table leaks its query: the page that was allocated to
  compare with stays in the heap, with pid 0, and no table or frame refers to it.
\<close>

theorem lookup_leaks_query:
  assumes "mem_inv s" "\<forall>w \<in> set ws. vheap s w \<noteq> None" "PageTable_get ops (Val ws) n s r = Inr (Some w, s', r')"
  shows "\<exists>qp. vheap s' (vnext s) = Some qp \<and> vp_pid qp = 0 \<and> vpn qp = n \<and> vheap s (vnext s) = None
    \<and> vnext s \<notin> set ws \<and> (\<forall>i. frames s' i \<noteq> Some (vnext s))"
proof -
  have fresh: "vheap s (vnext s) = None"
    using mem_links_fresh [OF mem_inv_links [OF assms(1)]] by simp
  have "frames s i \<noteq> Some (vnext s)" for i
    using mem_links_frame [OF mem_inv_links [OF assms(1)], of i "vnext s"] fresh by auto
  moreover have "s' = put_page (vnext s) ((fresh_page (zeroed s) 0 n)\<lparr>overhead := Val None\<rparr>) s"
    using assms(3) by (auto simp: PageTable_get_def VPage_init_def Let_def bnd_eq_Inr split: option.splits)
  ultimately show ?thesis using fresh assms(2) by (auto simp: fresh_page_def)
qed

lemma lookup_leaks_query_witness:
  "\<exists>s' r' qp. PageTable_get lru_ops (Val [0]) 7 demo_memory demo_queue = Inr (Some 0, s', r')
     \<and> vheap s' 1 = Some qp \<and> vp_pid qp = 0"
proof -
  obtain s' where "PageTable_get lru_ops (Val [0]) 7 demo_memory demo_queue
      = Inr (lookup_page demo_memory 7 [0], s', demo_queue)"
    using demo_memory_inv demo_queue_inv by (rule lru.PageTable_get_ok [where ws = "[0]"]) simp
  moreover have "lookup_page demo_memory 7 [0] = Some 0" by (simp add: lookup_page_def)
  ultimately have get: "PageTable_get lru_ops (Val [0]) 7 demo_memory demo_queue = Inr (Some 0, s', demo_queue)" by simp
  from lookup_leaks_query [OF demo_memory_inv _ this] get show ?thesis by auto
qed

section \<open>The trace\<close>

text \<open>
  The next \<open>n\<close> lines, read as the simulator reads them, and the lines \<open>l\<close> to \<open>h\<close> of a trace, counted from 1.
\<close>

fun read_lines :: "nat \<Rightarrow> FILE \<Rightarrow> line_read list" where
  "read_lines 0 f = []"
| "read_lines (Suc n) f = (let (line, f') = fscanf True f in line # read_lines n f')"

definition lines_between :: "'a list \<Rightarrow> ul64 \<Rightarrow> ul64 \<Rightarrow> 'a list" where
  "lines_between ls l h = take (Suc (unat h - unat l)) (drop (unat l - 1) ls)"

lemma read_lines_at:
  assumes "contents f = trace_text ls" "offset f = line_pos ls i \<or> offset f = gap_pos ls i" "i + n \<le> length ls"
  shows "read_lines n f = map (\<lambda>(p, v). LPair p v) (take n (drop i ls))"
  using assms
proof (induction n arbitrary: f i)
  case (Suc n)
  then have i: "i < length ls" by simp
  have "fscanf True f = (LPair (fst (ls ! i)) (snd (ls ! i)), f\<lparr>offset := line_pos ls (Suc i)\<rparr>)"
    using fscanf_line [of f ls i] fscanf_gap(2) [of f ls i] Suc.prems(1,2) i by auto
  with Suc.IH [of "f\<lparr>offset := line_pos ls (Suc i)\<rparr>" "Suc i"] Suc.prems i show ?case
    by (simp add: case_prod_beta flip: Cons_nth_drop_Suc)
qed simp

lemma lines_between_own:
  assumes "own_lines ls i (l, h, f)"
  shows "\<forall>m \<in> set (lines_between ls l h). fst m = i" "unat l - 1 + Suc (unat h - unat l) \<le> length ls"
proof -
  have b: "0 < unat l" "unat l \<le> unat h" "unat h \<le> length ls"
    using assms by (simp_all add: own_lines_def word_le_nat_alt word_less_nat_alt)
  then show "unat l - 1 + Suc (unat h - unat l) \<le> length ls" by linarith
  show "\<forall>m \<in> set (lines_between ls l h). fst m = i"
  proof
    fix m assume "m \<in> set (lines_between ls l h)"
    then obtain j where j: "j < Suc (unat h - unat l)" "m = ls ! (unat l - 1 + j)"
      using b by (auto simp: lines_between_def in_set_conv_nth)
    moreover have "unat l \<le> Suc (unat l - 1 + j)" "Suc (unat l - 1 + j) \<le> unat h" using b j(1) by linarith+
    ultimately show "fst m = i" using assms by (simp add: own_lines_def)
  qed
qed

text \<open>
  C28: What the first pass saves of the file is what the simulator reads back. On a trace of well-formed lines whose
  pids fit 32 bits, the file position that the pass stores with the interval of lines \<open>l\<close> to \<open>h\<close> of a process leads
  the simulator's reads to exactly these lines of the trace, and they are all lines of the process; and
  \<open>Simulator_seekSavedLine\<close> moves the file to where the next read gives the current line of the process.
\<close>

theorem saved_positions_read_back:
  assumes "blank s" "mem_inv (ms s)" "qinv (ms s) (rep s)" "contents (tracefile s) = trace_text ls"
    and "\<forall>l \<in> set ls. fst l \<noteq> 0 \<and> unat (fst l) < 2 ^ 32"
  shows "\<exists>s'. first_pass env s = Inr s' \<and> (\<forall>a pp. procs s' a = Some pp \<longrightarrow>
    (\<forall>(l, h, f) \<in> set (it_chain (lineIntervals pp)). (\<forall>m \<in> set (lines_between ls l h). fst m = pid pp)
      \<and> (\<exists>fp. f = Val fp \<and> read_lines (Suc (unat h - unat l)) (fseek (tracefile s') fp)
          = map (\<lambda>(p, v). LPair p v) (lines_between ls l h)))
    \<and> (\<exists>s'' g. Simulator_seekSavedLine a s' = Inr s''
          \<and> fscanf True (tracefile s'') = (LPair (pid pp) (snd (ls ! (unat (currentline pp) - 1))), g)))"
proof -
  have pids: "pids_ok ls" "\<forall>l \<in> set ls. fst l \<noteq> 0" using assms(5) by (simp_all add: pids_ok_def)
  obtain s' where s': "first_pass env s = Inr s'" "machine_inv qinv s'" "pq s' BLOCKED = []"
    "machine_work s' = length ls" "stats s' = stats s" "contents (tracefile s') = trace_text ls"
    "ms s' = ms s" "rep s' = rep s" "\<forall>p pp. procs s' p = Some pp \<longrightarrow> pageTable pp = Val []"
    using assms(1-4) pids(2) by (rule first_pass_trace)
  have placed: "placed ls s'" by (rule first_pass_placed(1) [OF assms(1,4) pids(1) s'(1)])
  show ?thesis
  proof (rule exI [of _ s'], intro conjI allI impI s'(1))
    fix a pp assume pp: "procs s' a = Some pp"
    then have own: "has_lines ls pp" "at_line ls pp (currentPos pp)" using placed unfolding placed_def by blast+
    show "\<forall>(l, h, f) \<in> set (it_chain (lineIntervals pp)). (\<forall>m \<in> set (lines_between ls l h). fst m = pid pp)
      \<and> (\<exists>fp. f = Val fp \<and> read_lines (Suc (unat h - unat l)) (fseek (tracefile s') fp)
          = map (\<lambda>(p, v). LPair p v) (lines_between ls l h))"
    proof (rule ballI)
      fix c assume mem: "c \<in> set (it_chain (lineIntervals pp))"
      obtain l h f where c: "c = (l, h, f)" by (cases c)
      have "own_lines ls (pid pp) (l, h, f)" using own(1) mem unfolding has_lines_def c by blast
      note between = lines_between_own [OF this]
        and f = this [unfolded own_lines_def, THEN conjunct2, THEN conjunct2, THEN conjunct2, THEN conjunct1]
      have "read_lines (Suc (unat h - unat l)) (fseek (tracefile s') (gap_pos ls (unat l - 1)))
          = map (\<lambda>(p, v). LPair p v) (lines_between ls l h)"
        unfolding lines_between_def using s'(6) between(2) by (intro read_lines_at) (simp_all add: fseek_def)
      with between(1) f show "case c of (l, h, f) \<Rightarrow> (\<forall>m \<in> set (lines_between ls l h). fst m = pid pp)
        \<and> (\<exists>fp. f = Val fp \<and> read_lines (Suc (unat h - unat l)) (fseek (tracefile s') fp)
            = map (\<lambda>(p, v). LPair p v) (lines_between ls l h))"
        by (simp add: c)
    qed
    have ok: "lines_ok pp" using core_proc [OF machine_inv_core [OF s'(2)] pp] by (simp add: proc_ok_def)
    have "a \<in> set (pq s' RUNNABLE)" using sched_ok_dom [OF machine_sched [OF s'(2)]] s'(3) pp by auto
    then have "status pp = RUNNABLE" using sched_ok_status [OF machine_sched [OF s'(2)] pp] by simp
    then have "Simulator_seekSavedLine a s' = Inr (s'\<lparr>tracefile := fseek (tracefile s') (currentPos pp)\<rparr>)"
      using pp by (simp add: Simulator_seekSavedLine_def)
    moreover have "fscanf True (fseek (tracefile s') (currentPos pp)) = (LPair (pid pp) (snd (ls ! (unat (currentline pp) - 1))),
        (fseek (tracefile s') (currentPos pp))\<lparr>offset := line_pos ls (unat (currentline pp))\<rparr>)"
      using own ok s'(6) by (intro read_own_line) (simp_all add: fseek_def ftell_def)
    ultimately show "\<exists>s'' g. Simulator_seekSavedLine a s' = Inr s''
          \<and> fscanf True (tracefile s'') = (LPair (pid pp) (snd (ls ! (unat (currentline pp) - 1))), g)" by simp
  qed
qed

lemma saved_positions_read_back_witness:
  "\<exists>s s' a s''. init_modules (demo_env lru_ops) 32 (boot_machine (demo_env lru_ops) True
       (trace_text [(7, 1), (8, 2), (7, 3)])) = Inr s
     \<and> first_pass (demo_env lru_ops) s = Inr s' \<and> Simulator_seekSavedLine a s' = Inr s''
     \<and> fst (fscanf True (tracefile s'')) = LPair 8 2"
proof -
  let ?ls = "[(7, 1), (8, 2), (7, 3)] :: (ul64 \<times> ul64) list"
  obtain s where s: "init_modules (demo_env lru_ops) 32 (boot_machine (demo_env lru_ops) True (trace_text ?ls)) = Inr s"
    "blank s" "mem_inv (ms s)" "qinv (ms s) (rep s)" "contents (tracefile s) = trace_text ?ls"
    by (rule lru.init_modules_ok [of "demo_env lru_ops" 32 "trace_text ?ls"])
      (use trace_text_bound [of ?ls] in \<open>simp_all add: demo_env_def del: trace_text_simps\<close>)
  have pids: "\<forall>l \<in> set ?ls. fst l \<noteq> 0 \<and> unat (fst l) < 2 ^ 32" by simp
  obtain s' where s': "first_pass (demo_env lru_ops) s = Inr s'"
    and read: "\<And>a pp. procs s' a = Some pp \<Longrightarrow> \<exists>s'' g. Simulator_seekSavedLine a s' = Inr s''
      \<and> fscanf True (tracefile s'') = (LPair (pid pp) (snd (?ls ! (unat (currentline pp) - 1))), g)"
    using saved_positions_read_back [OF s(2-5) pids, of "demo_env lru_ops"] by blast
  have "pids_ok ?ls" using pids by (simp add: pids_ok_def)
  note g = first_pass_placed(3) [OF s(2,5) this s'(1)]
  have "runs 0 ?ls = [(7, 0, 0), (8, 1, 1), (7, 2, 2)]" by simp
  moreover have "8 \<in> set (map (pid_at s') (pq s' RUNNABLE))" using g by (simp add: grouped_def firsts_def)
  then obtain a where "pid_at s' a = 8" by auto
  then obtain pp where "procs s' a = Some pp" "pid pp = 8" by (auto simp: pid_at_def split: option.splits)
  ultimately have "procs s' a = Some pp" "pid pp = 8" "currentline pp = 2" using g by (simp_all add: grouped_def intervals_def)
  with read [of a pp] obtain s'' g where "Simulator_seekSavedLine a s' = Inr s''" "fscanf True (tracefile s'') = (LPair 8 2, g)"
    by auto
  moreover from this(2) have "fst (fscanf True (tracefile s'')) = LPair 8 2" by simp
  ultimately show ?thesis using s(1) s' by blast
qed

text \<open>
  C26: The first pass returns for every file, and its outcome is determined by the lines of the file (\<open>trace_check\<close>).
  At the first line that does not begin with a number it reads a pid that was never assigned, and at the
  first line with pid 0 it exits with the message for an invalid format, in the order of the lines. A file with no such
  line is taken: then the pass leaves processes that are all runnable, ordered by the position of their
  first line, with disjoint page tables and line intervals that hold their current line, the invariant the
  simulation starts from; they have as many lines to run as the file has lines, and the memory is untouched.
\<close>

theorem first_pass_any_file:
  assumes "blank s" "mem_inv (ms s)" "clock_inv (ms s) (rep s)"
  shows "case trace_check (contents (tracefile s)) of Inl e \<Rightarrow> first_pass env s = Inl e
    | Inr ps \<Rightarrow> \<exists>s'. first_pass env s = Inr s' \<and> machine_inv clock_inv s' \<and> pq s' BLOCKED = []
        \<and> machine_work s' = length ps \<and> card (dom (procs s')) \<le> length ps
        \<and> ms s' = ms s \<and> rep s' = rep s \<and> contents (tracefile s') = contents (tracefile s)"
  using first_pass_ok [where rinv = clock_inv and env = env, OF assms] by (auto split: sum.splits)

lemma first_pass_any_file_witness:
  "\<exists>s s' b. init_modules (demo_env clock_ops) 32 (boot_machine (demo_env clock_ops) True (trace_text [(2, 5), (1, 7)])) = Inr s
     \<and> first_pass (demo_env clock_ops) s = Inr s' \<and> machine_work s' = 2
     \<and> init_modules (demo_env clock_ops) 32 (boot_machine (demo_env clock_ops) True (trace_text [(2, 5), (0, 7)])) = Inr b
     \<and> first_pass (demo_env clock_ops) b = Inl (ExitFailure ''ERROR: Invalid trace file format'')"
proof -
  have boot: "\<exists>s. init_modules (demo_env clock_ops) 32 (boot_machine (demo_env clock_ops) True cs) = Inr s
    \<and> blank s \<and> mem_inv (ms s) \<and> clock_inv (ms s) (rep s) \<and> contents (tracefile s) = cs" if "length cs = 8" for cs
    by (rule clock.init_modules_ok [of "demo_env clock_ops" 32 cs]) (use that in \<open>auto simp: demo_env_def\<close>)
  obtain s where s: "init_modules (demo_env clock_ops) 32 (boot_machine (demo_env clock_ops) True (trace_text [(2, 5), (1, 7)])) = Inr s"
    "blank s" "mem_inv (ms s)" "clock_inv (ms s) (rep s)" "contents (tracefile s) = trace_text [(2, 5), (1, 7)]"
    using boot [OF demo_length] by blast
  obtain b where b: "init_modules (demo_env clock_ops) 32 (boot_machine (demo_env clock_ops) True (trace_text [(2, 5), (0, 7)])) = Inr b"
    "blank b" "mem_inv (ms b)" "clock_inv (ms b) (rep b)" "contents (tracefile b) = trace_text [(2, 5), (0, 7)]"
    using boot [OF bad_text(2)] by blast
  show ?thesis
    using s(1) b(1) first_pass_any_file [OF s(2-4), of "demo_env clock_ops", unfolded s(5) demo_check]
      first_pass_any_file [OF b(2-4), of "demo_env clock_ops", unfolded b(5) bad_check] by auto
qed

text \<open>
  C10: On a trace of well-formed lines whose pids fit 32 bits, the first pass computes the grouping
  that the reference definitions on lists describe: the run queue holds one process for each pid, in
  the order of the pids' first lines, the chain of line intervals of a process is the list of the
  maximal runs of its pid, each with the file position of its first line, and the process
  starts on its first line.
\<close>

theorem first_pass_groups:
  assumes "blank s" "mem_inv (ms s)" "qinv (ms s) (rep s)" "contents (tracefile s) = trace_text ls"
    and "\<forall>l \<in> set ls. fst l \<noteq> 0 \<and> unat (fst l) < 2 ^ 32"
  shows "\<exists>s'. first_pass env s = Inr s' \<and> dom (procs s') = set (pq s' RUNNABLE)
    \<and> map (pid_at s') (pq s' RUNNABLE) = firsts (map fst ls)
    \<and> (\<forall>a pp. procs s' a = Some pp \<longrightarrow> it_chain (lineIntervals pp) = intervals ls (pid pp) (runs 0 ls)
         \<and> currInterval pp = 0 \<and> currentline pp = fst (it_chain (lineIntervals pp) ! 0))"
proof -
  have pids: "pids_ok ls" "\<forall>l \<in> set ls. fst l \<noteq> 0" using assms(5) by (simp_all add: pids_ok_def)
  obtain s' where s': "first_pass env s = Inr s'" "machine_inv qinv s'" "pq s' BLOCKED = []"
    using assms(1-4) pids(2) by (rule first_pass_trace)
  have "grouped ls (length ls) s'" by (rule first_pass_placed(3) [OF assms(1,4) pids(1) s'(1)])
  moreover have "dom (procs s') = set (pq s' RUNNABLE)"
    using sched_ok_dom [OF machine_sched [OF s'(2)]] s'(3) by simp
  ultimately show ?thesis using s'(1) by (auto simp: grouped_def)
qed

lemma first_pass_groups_witness:
  "\<exists>s s'. init_modules (demo_env lru_ops) 32 (boot_machine (demo_env lru_ops) True
       (trace_text [(7, 1), (8, 2), (7, 3)])) = Inr s
     \<and> first_pass (demo_env lru_ops) s = Inr s' \<and> map (pid_at s') (pq s' RUNNABLE) = [7, 8]"
proof -
  let ?ls = "[(7, 1), (8, 2), (7, 3)] :: (ul64 \<times> ul64) list"
  obtain s where s: "init_modules (demo_env lru_ops) 32 (boot_machine (demo_env lru_ops) True (trace_text ?ls)) = Inr s"
    "blank s" "mem_inv (ms s)" "qinv (ms s) (rep s)" "contents (tracefile s) = trace_text ?ls"
    by (rule lru.init_modules_ok [of "demo_env lru_ops" 32 "trace_text ?ls"])
      (use trace_text_bound [of ?ls] in \<open>simp_all add: demo_env_def del: trace_text_simps\<close>)
  obtain s' where "first_pass (demo_env lru_ops) s = Inr s'" "map (pid_at s') (pq s' RUNNABLE) = firsts (map fst ?ls)"
    using first_pass_groups [OF s(2-5), of "demo_env lru_ops"] by auto
  with s(1) show ?thesis by (auto simp: firsts_def)
qed

text \<open>
  C27: The first pass with the blocks of its pid map in the heap, where every run of lines allocates a query
  that is freed when the pid is known, has the same outcome as the pass on the abstract map, for every file
  and every machine: the same processes or the same error. So no entry is read or freed after it
  was freed and the owner of a found entry is never null; and when the pass returns, \<open>tdestroy\<close> has freed every entry,
  in whatever order it visits them.
\<close>

theorem pid_map_released:
  assumes "\<forall>ws. mset (destroy_order env ws) = mset ws"
  shows "(\<exists>e. first_pass env s = Inl e \<and> first_pass_heap env s = Inl e)
    \<or> (\<exists>s' h. first_pass env s = Inr s' \<and> first_pass_heap env s = Inr (s', h) \<and> cells h = (\<lambda>_. None))"
  using first_pass_heap_result [of env s] assms
  by (cases "first_pass env s"; cases "first_pass_heap env s") auto

lemma pid_map_released_witness:
  "\<exists>s s' h. init_modules (demo_env lru_ops) 32 (boot_machine (demo_env lru_ops) True
       (trace_text [(7, 1), (8, 2), (7, 3)])) = Inr s
     \<and> first_pass_heap (demo_env lru_ops) s = Inr (s', h) \<and> cells h = (\<lambda>_. None)"
proof -
  let ?ls = "[(7, 1), (8, 2), (7, 3)] :: (ul64 \<times> ul64) list"
  obtain s where s: "init_modules (demo_env lru_ops) 32 (boot_machine (demo_env lru_ops) True (trace_text ?ls)) = Inr s"
    "blank s" "mem_inv (ms s)" "qinv (ms s) (rep s)" "contents (tracefile s) = trace_text ?ls"
    by (rule lru.init_modules_ok [of "demo_env lru_ops" 32 "trace_text ?ls"])
      (use trace_text_bound [of ?ls] in \<open>simp_all add: demo_env_def del: trace_text_simps\<close>)
  obtain s' where "first_pass (demo_env lru_ops) s = Inr s'"
    by (rule first_pass_trace [where rinv = qinv, OF s(2-5)]) auto
  with pid_map_released [of "demo_env lru_ops" s] s(1) show ?thesis by (auto simp: demo_env_def)
qed

text \<open>
  The parser takes two pids for the same process exactly when they agree in their low 32
  bits: the pid map keeps them in an \<open>int\<close>.
\<close>

theorem pid_map_truncates:
  "pidmap_compare (make_PidMap p) (make_PidMap q) = 0 \<longleftrightarrow> unat p mod 2 ^ 32 = unat q mod 2 ^ 32"
proof -
  have "unat (ucast x :: u32) = unat x mod 2 ^ 32" for x :: ul64
    by (simp add: unsigned_ucast_eq take_bit_eq_mod)
  then show ?thesis by (simp add: make_PidMap_def word_unat_eq_iff)
qed

section \<open>Short traces\<close>

text \<open>
  C1: A trace with fewer than a million lines and pids below 2^32 is simulated to its end with
  LRU, without any error: every line is read by a process of its pid (nothing is reported on
  stderr) and counted once, each line causes at most one page fault, and the time is 2 ms for each
  fault and at most one nanosecond for each line and each fault, and the time in which a process is
  runnable is exactly one nanosecond for each line and each fault. There are at least as many faults
  as pages of processes that the trace names, and exactly as many when they all fit into memory.
  The defects of the program around resumed processes cannot show, because no disk access is over while a process is
  runnable.
\<close>

theorem short_trace_lru:
  assumes "env_ok lru_ops env" "parseArgs os = Inr a" "(memsize a div pagesize a) mod 32 = 0"
    and "filename a = Some name" "fs name = Some (trace_text ls)" "length ls < 1000000"
    and "\<forall>l \<in> set ls. fst l \<noteq> 0 \<and> unat (fst l) < 2 ^ 32"
  shows "\<exists>t s. pfsim env True fs os = Some (Inr (t, s)) \<and> log s = []
    \<and> mem_inv (ms s) \<and> qinv (ms s) (rep s) \<and> procs s = (\<lambda>_. None) \<and> frames (ms s) = (\<lambda>_. None)
    \<and> unat (tmr (stats s)) = length ls \<and> unat (tpi (stats s)) \<le> length ls
    \<and> 2000000 * unat (tpi (stats s)) \<le> unat t \<and> unat t \<le> 2000001 * unat (tpi (stats s)) + length ls
    \<and> unat (trp (stats s)) = length ls + unat (tpi (stats s)) \<and> card (set ls) \<le> unat (tpi (stats s))
    \<and> (card (set ls) \<le> nat (memsize a div pagesize a) \<longrightarrow> unat (tpi (stats s)) = card (set ls))"
  using lru.pfsim_short [where fs = fs and name = name and ls = ls, OF assms(1-6)] assms(7)
  unfolding pids_ok_def by blast

lemma short_trace_lru_witness:
  "\<exists>t s. pfsim (demo_env lru_ops) True demo_files [OptFile ''t''] = Some (Inr (t, s)) \<and> log s = []
     \<and> unat (tmr (stats s)) = 2 \<and> unat (tpi (stats s)) = 2 \<and> unat t \<le> 4000004"
proof -
  obtain t s where "pfsim (demo_env lru_ops) True demo_files [OptFile ''t''] = Some (Inr (t, s))" "log s = []"
    "unat (tmr (stats s)) = 2" "unat (tpi (stats s)) = 2" "unat t \<le> 2000001 * unat (tpi (stats s)) + 2"
    using short_trace_lru [where fs = demo_files, OF demo_env_ok demo_args _ demo_args_sel(2,3)]
    by (auto simp: demo_args_sel simp del: trace_text_simps)
  then show ?thesis by (intro exI [of _ t] exI [of _ s]) simp
qed

text \<open>
  C2: The same with CLOCK, although its reference bits start uninitialised.
\<close>

theorem short_trace_clock:
  assumes "env_ok clock_ops env" "parseArgs os = Inr a" "(memsize a div pagesize a) mod 32 = 0"
    and "filename a = Some name" "fs name = Some (trace_text ls)" "length ls < 1000000"
    and "\<forall>l \<in> set ls. fst l \<noteq> 0 \<and> unat (fst l) < 2 ^ 32"
  shows "\<exists>t s. pfsim env True fs os = Some (Inr (t, s)) \<and> log s = []
    \<and> mem_inv (ms s) \<and> clock_inv (ms s) (rep s) \<and> procs s = (\<lambda>_. None) \<and> frames (ms s) = (\<lambda>_. None)
    \<and> unat (tmr (stats s)) = length ls \<and> unat (tpi (stats s)) \<le> length ls
    \<and> 2000000 * unat (tpi (stats s)) \<le> unat t \<and> unat t \<le> 2000001 * unat (tpi (stats s)) + length ls
    \<and> unat (trp (stats s)) = length ls + unat (tpi (stats s)) \<and> card (set ls) \<le> unat (tpi (stats s))
    \<and> (card (set ls) \<le> nat (memsize a div pagesize a) \<longrightarrow> unat (tpi (stats s)) = card (set ls))"
  using clock.pfsim_short [where fs = fs and name = name and ls = ls, OF assms(1-6)] assms(7)
  unfolding pids_ok_def by blast

lemma short_trace_clock_witness:
  "\<exists>t s. pfsim (demo_env clock_ops) True demo_files [OptFile ''t''] = Some (Inr (t, s)) \<and> log s = []
     \<and> unat (tmr (stats s)) = 2 \<and> unat (tpi (stats s)) = 2 \<and> unat t \<le> 4000004"
proof -
  obtain t s where "pfsim (demo_env clock_ops) True demo_files [OptFile ''t''] = Some (Inr (t, s))" "log s = []"
    "unat (tmr (stats s)) = 2" "unat (tpi (stats s)) = 2" "unat t \<le> 2000001 * unat (tpi (stats s)) + 2"
    using short_trace_clock [where fs = demo_files, OF demo_env_ok demo_args _ demo_args_sel(2,3)]
    by (auto simp: demo_args_sel simp del: trace_text_simps)
  then show ?thesis by (intro exI [of _ t] exI [of _ s]) simp
qed

text \<open>The statistics of a run over \<open>n\<close> lines that faults once for each of \<open>c\<close> pages.\<close>

definition faults_once :: "nat \<Rightarrow> nat \<Rightarrow> ul64 \<Rightarrow> stat_t \<Rightarrow> bool" where
  "faults_once n c t st \<longleftrightarrow> unat (tmr st) = n \<and> unat (tpi st) = c \<and> 2000000 * c \<le> unat t \<and> unat t \<le> 2000001 * c + n"

text \<open>
  C3: When the pages that a short trace names fit into memory together, the replacement module
  does not matter: with each of the four, and whatever numbers the generator of the random module yields, the
  program reports one fault for each page of a process that the trace names, whichever way the processes are interleaved,
  and the four end within a nanosecond per line and fault of each other.
\<close>

theorem modules_agree:
  assumes "env_ok lru_ops e_lru" "env_ok fifo_ops e_fifo" "env_ok clock_ops e_clock" "env_ok (random_ops rand) e_random"
    and "parseArgs os = Inr a" "(memsize a div pagesize a) mod 32 = 0" "filename a = Some name"
    and "fs name = Some (trace_text ls)" "length ls < 1000000" "\<forall>l \<in> set ls. fst l \<noteq> 0 \<and> unat (fst l) < 2 ^ 32"
    and "card (set ls) \<le> nat (memsize a div pagesize a)"
  shows "(\<exists>t s. pfsim e_lru True fs os = Some (Inr (t, s)) \<and> faults_once (length ls) (card (set ls)) t (stats s))
    \<and> (\<exists>t s. pfsim e_fifo True fs os = Some (Inr (t, s)) \<and> faults_once (length ls) (card (set ls)) t (stats s))
    \<and> (\<exists>t s. pfsim e_clock True fs os = Some (Inr (t, s)) \<and> faults_once (length ls) (card (set ls)) t (stats s))
    \<and> (\<exists>t s. pfsim e_random True fs os = Some (Inr (t, s)) \<and> faults_once (length ls) (card (set ls)) t (stats s))"
proof (intro conjI)
  have "pids_ok ls" using assms(10) by (simp add: pids_ok_def)
  note run = assms(5-9) this
  show "\<exists>t s. pfsim e_lru True fs os = Some (Inr (t, s)) \<and> faults_once (length ls) (card (set ls)) t (stats s)"
    using lru.pfsim_short [where fs = fs and name = name, OF assms(1) run] assms(11) unfolding faults_once_def by fastforce
  show "\<exists>t s. pfsim e_fifo True fs os = Some (Inr (t, s)) \<and> faults_once (length ls) (card (set ls)) t (stats s)"
    using fifo.pfsim_short [where fs = fs and name = name, OF assms(2) run] assms(11) unfolding faults_once_def by fastforce
  show "\<exists>t s. pfsim e_clock True fs os = Some (Inr (t, s)) \<and> faults_once (length ls) (card (set ls)) t (stats s)"
    using clock.pfsim_short [where fs = fs and name = name, OF assms(3) run] assms(11) unfolding faults_once_def by fastforce
  show "\<exists>t s. pfsim e_random True fs os = Some (Inr (t, s)) \<and> faults_once (length ls) (card (set ls)) t (stats s)"
    using random.pfsim_short [where fs = fs and name = name, OF assms(4) run] assms(11) unfolding faults_once_def by fastforce
qed

lemma modules_agree_witness:
  "(\<exists>t s. pfsim (demo_env fifo_ops) True demo_files [OptFile ''t''] = Some (Inr (t, s)) \<and> unat (tpi (stats s)) = 2)
   \<and> (\<exists>t s. pfsim (demo_env (random_ops (\<lambda>k. 5 * k))) True demo_files [OptFile ''t''] = Some (Inr (t, s))
        \<and> unat (tpi (stats s)) = 2)"
  using modules_agree [where fs = demo_files, OF demo_env_ok demo_env_ok demo_env_ok demo_env_ok demo_args _
      demo_args_sel(2,3), of "\<lambda>k. 5 * k"]
  by (fastforce simp: demo_args_sel faults_once_def simp del: trace_text_simps)

section \<open>Leaks\<close>

text \<open>
  C19: The program leaks exactly two pages for each time that it runs a line, that is for each line and each fault of a
  short trace: at the end nothing but the queries of successful lookups is left in the heap, each process
  has freed all of its own pages, and a lookup that finds nothing frees its query. (In the debug build, which is the one
  modelled: with \<open>NDEBUG\<close> the lookup inside the assertion of line 206 is not run, and one page less is leaked for
  each page that a process creates.)
\<close>

theorem each_line_leaks_two:
  assumes "env_ok lru_ops env" "parseArgs os = Inr a" "(memsize a div pagesize a) mod 32 = 0"
    and "filename a = Some name" "fs name = Some (trace_text ls)" "length ls < 1000000"
    and "\<forall>l \<in> set ls. fst l \<noteq> 0 \<and> unat (fst l) < 2 ^ 32"
  shows "\<exists>t s. pfsim env True fs os = Some (Inr (t, s))
    \<and> card (dom (vheap (ms s))) = 2 * (length ls + unat (tpi (stats s)))
    \<and> (\<forall>w vp. vheap (ms s) w = Some vp \<longrightarrow> vp_pid vp = 0)"
  using lru.pfsim_short [where fs = fs and name = name and ls = ls, OF assms(1-6)] assms(7)
  unfolding pids_ok_def by blast

lemma each_line_leaks_two_witness:
  "\<exists>t s. pfsim (demo_env lru_ops) True demo_files [OptFile ''t''] = Some (Inr (t, s))
     \<and> card (dom (vheap (ms s))) = 4 + 2 * unat (tpi (stats s))"
proof -
  obtain t s where "pfsim (demo_env lru_ops) True demo_files [OptFile ''t''] = Some (Inr (t, s))"
    "card (dom (vheap (ms s))) = 2 * (2 + unat (tpi (stats s)))"
    using each_line_leaks_two [where fs = demo_files, OF demo_env_ok demo_args _ demo_args_sel(2,3)]
    by (auto simp: demo_args_sel simp del: trace_text_simps)
  then show ?thesis by (intro exI [of _ t] exI [of _ s]) simp
qed

section \<open>Counting\<close>

text \<open>
  C18: With LRU, on every file that the first pass takes (with fewer than 2 million processes and a multiple of 32
  frames), the program counts each of its lines exactly once, whatever the interleaving: the references are the lines,
  and the time is 2 ms for each fault and at most one nanosecond more for each reference and each fault. At the end
  two pages for each reference and each fault are still allocated (in the debug build). The only other end is the message for a line
  that cannot be read, and then the simulation has come to a turn where the process at the head of the run queue finds
  no pair of numbers in the file (\<open>runs_out\<close>).
\<close>

theorem references_counted:
  assumes "env_ok lru_ops env" "parseArgs os = Inr a" "(memsize a div pagesize a) mod 32 = 0"
    and "filename a = Some name" "fs name = Some cs" "length cs < 2 ^ 64 - 2"
    and "process_count env (memsize a div pagesize a) cs < 2000000" "trace_check cs = Inr ps"
  shows "(\<exists>t s M k. pfsim env True fs os = Some (Inr (t, s)) \<and> tmr (stats s) = of_nat (length ps)
        \<and> tpi (stats s) = of_nat M \<and> t = of_nat (2000000 * M + k) \<and> k \<le> length ps + M
        \<and> card (dom (vheap (ms s))) = 2 * (length ps + M))
    \<or> pfsim env True fs os = Some (Inl (ExitFailure ''Error reading from trace file.''))
        \<and> runs_out env (memsize a div pagesize a) cs"
  using lru.pfsim_total [where fs = fs and name = name, OF assms(1-7)] unfolding read_error_def assms(8) sum.case by blast

lemma references_counted_witness:
  "\<exists>t s. pfsim (demo_env lru_ops) True demo_files [OptFile ''t''] = Some (Inr (t, s)) \<and> tmr (stats s) = 2"
proof -
  note module = lru.replacement_module_axioms
  obtain t s where "pfsim (demo_env lru_ops) True demo_files [OptFile ''t''] = Some (Inr (t, s))"
    using demo_finishes [OF module] by blast
  with references_counted [where fs = demo_files, OF demo_env_ok demo_args _ demo_args_sel(2,3) _ demo_count [OF module] demo_check]
  show ?thesis using demo_length by (auto simp: demo_args_sel simp del: trace_text_simps)
qed

section \<open>The command line\<close>

text \<open>
  When the arguments are accepted, the page size is positive and at most the memory size, the
  memory size is a whole number of MB below 2 GB, and the number of frames is positive and fits
  an \<open>int\<close>.
\<close>

theorem accepted_args_bounded:
  assumes "parseArgs os = Inr a"
  shows "0 < pagesize a \<and> pagesize a \<le> memsize a \<and> memsize a < 2 ^ 31 \<and> 1048576 dvd memsize a
    \<and> 0 < memsize a div pagesize a \<and> memsize a div pagesize a < 2 ^ 31 \<and> filename a \<noteq> None"
  using parseArgs_ok [OF assms] pages_bounds [OF assms] by blast

lemma accepted_args_bounded_witness:
  "0 < memsize demo_args div pagesize demo_args \<and> memsize demo_args div pagesize demo_args < 2 ^ 31"
  using accepted_args_bounded [OF demo_args] by blast

text \<open>
  What the checks of the sizes accept: any even page size that is not negative (6 as well as
  4096, although the message asks for a power of two), 0 standing for 4096; a memory size below
  2048 MB, from which on the conversion to bytes overflows an \<open>int\<close>.
\<close>

theorem size_checks_exact:
  "(check_pagesize p = Inr q \<longleftrightarrow> 0 \<le> p \<and> even p \<and> q = (if p = 0 then 4096 else p))
   \<and> (check_memsize m = Inr k \<longleftrightarrow> 0 \<le> m \<and> m < 2048 \<and> k = (if m = 0 then 1 else m) * 1048576)
   \<and> (check_memsize m = Inl SignedOverflow \<longleftrightarrow> 2048 \<le> m)"
  using check_pagesize_ok check_memsize_ok by (auto simp: check_memsize_def c_int_def)

end
