(* ===== verification/LoneProps.thy ===== *)
theory LoneProps
  imports TraceProps
begin

text \<open>
  Traces of a single pid: the number of faults and the time of the whole program, as functions of
  the page numbers of the trace, for LRU and FIFO; LRU never gains from less memory.
\<close>

section \<open>Counting the faults of a reference queue\<close>

lemma faults_count:
  "faults touch n q vs = card {i. i < length vs \<and> vs ! i \<notin> set (fold (queue_reference touch n) (take i vs) q)}"
proof (induction vs arbitrary: q)
  case (Cons v vs)
  let ?q = "queue_reference touch n v q"
  let ?P = "\<lambda>i. i < length (v # vs) \<and> (v # vs) ! i \<notin> set (fold (queue_reference touch n) (take i (v # vs)) q)"
  let ?A = "{i. i < length vs \<and> vs ! i \<notin> set (fold (queue_reference touch n) (take i vs) ?q)}"
  have "?P i \<longleftrightarrow> i = 0 \<and> v \<notin> set q \<or> (\<exists>j. i = Suc j \<and> j \<in> ?A)" for i by (cases i) auto
  then have "{i. ?P i} = (if v \<in> set q then {} else {0}) \<union> Suc ` ?A" by auto
  moreover have "card (Suc ` ?A) = card ?A" by (rule card_image) simp
  moreover have "finite ?A" "0 \<notin> Suc ` ?A" by auto
  ultimately show ?case using Cons.IH [of ?q] by (simp del: faults.simps) (simp add: card_insert_if)
qed simp

lemma lru_faults_count:
  assumes "0 < n"
  shows "faults (\<lambda>v q. remove1 v q @ [v]) n [] vs = card {i. i < length vs \<and> vs ! i \<notin> set (last_used n (take i vs))}"
  by (simp add: faults_count lru_queue [OF assms])

lemma lru_faults_lines:
  assumes "0 < n"
  shows "card {k. k < length ls \<and> snd (ls ! k) \<notin> set (last_used n (take k (map snd ls)))}
    = faults (\<lambda>v q. remove1 v q @ [v]) n [] (map snd ls)"
  unfolding lru_faults_count [OF assms] by (rule arg_cong [where f = card]) auto

text \<open>LRU is a stack algorithm: more frames hold more pages.\<close>

lemma last_used_mono: "m \<le> n \<Longrightarrow> set (last_used m vs) \<subseteq> set (last_used n vs)"
  unfolding last_used_def by (intro set_drop_subset_set_drop) simp

lemma lru_faults_mono:
  assumes "0 < m" "m \<le> n"
  shows "faults (\<lambda>v q. remove1 v q @ [v]) n [] vs \<le> faults (\<lambda>v q. remove1 v q @ [v]) m [] vs"
  unfolding lru_faults_count [OF assms(1)] lru_faults_count [OF less_le_trans [OF assms]]
  by (rule card_mono) (auto dest: subsetD [OF last_used_mono [OF assms(2)]])

section \<open>The program on one process\<close>

definition lone_files :: "string \<Rightarrow> string option" where
  "lone_files = [''t'' \<mapsto> trace_text [(1, 5), (1, 7), (1, 5)]]"

text \<open>
  C4: On a trace of fewer than a million lines of a single pid, the page faults that the whole
  program reports with LRU are exactly the lines whose page is not among the \<open>n\<close> most recently used
  ones, for \<open>n\<close> frames, and the time is exactly 2 ms and 1 ns for each fault and 1 ns for each line, of which the
  process is runnable for 1 ns for each fault and each line.
\<close>

theorem single_process_lru:
  assumes "env_ok lru_ops env" "parseArgs os = Inr a" "(memsize a div pagesize a) mod 32 = 0"
    and "filename a = Some name" "fs name = Some (trace_text ls)" "length ls < 1000000"
    and "\<forall>l \<in> set ls. fst l = i" "i \<noteq> 0" "unat i < 2 ^ 32"
    and "F = card {k. k < length ls \<and> snd (ls ! k) \<notin> set (last_used (nat (memsize a div pagesize a)) (take k (map snd ls)))}"
  shows "\<exists>t s. pfsim env True fs os = Some (Inr (t, s)) \<and> log s = [] \<and> unat (tmr (stats s)) = length ls
    \<and> unat (tpi (stats s)) = F \<and> unat t = 2000001 * F + length ls \<and> unat (trp (stats s)) = length ls + F"
proof -
  have pids: "pids_ok ls" using assms(7-9) by (auto simp: pids_ok_def)
  have "0 < nat (memsize a div pagesize a)" using pages_bounds [OF assms(2)] by simp
  then have "F = faults (\<lambda>v q. remove1 v q @ [v]) (nat (memsize a div pagesize a)) [] (map snd ls)"
    unfolding assms(10) by (rule lru_faults_lines)
  with assms(1-6) pids assms(7) show ?thesis by (rule lru_numbers.pfsim_single)
qed

lemma single_process_lru_witness:
  "\<exists>t s. pfsim (demo_env lru_ops) True lone_files [OptFile ''t''] = Some (Inr (t, s)) \<and> unat (tpi (stats s)) = 2
     \<and> unat t = 4000005"
proof -
  let ?ls = "[(1, 5), (1, 7), (1, 5)] :: (ul64 \<times> ul64) list"
  have "0 < nat (memsize demo_args div pagesize demo_args)" by (simp add: demo_args_sel)
  from lru_faults_lines [OF this, of ?ls]
  have F: "2 = card {k. k < length ?ls \<and> snd (?ls ! k)
      \<notin> set (last_used (nat (memsize demo_args div pagesize demo_args)) (take k (map snd ?ls)))}"
    by (simp only:) (simp add: demo_args_sel queue_reference_def)
  show ?thesis
    using single_process_lru [where fs = lone_files and ls = ?ls and i = 1, OF demo_env_ok demo_args _ demo_args_sel(2) _ _ _ _ _ F]
    by (auto simp: demo_args_sel lone_files_def simp del: trace_text_simps)
qed

text \<open>
  C11: The same with FIFO, on a trace of fewer than a million lines of a single pid: the faults of the whole program
  are those of the bounded queue of page numbers that a hit leaves alone.
\<close>

theorem single_process_fifo:
  assumes "env_ok fifo_ops env" "parseArgs os = Inr a" "(memsize a div pagesize a) mod 32 = 0"
    and "filename a = Some name" "fs name = Some (trace_text ls)" "length ls < 1000000"
    and "\<forall>l \<in> set ls. fst l = i" "i \<noteq> 0" "unat i < 2 ^ 32"
    and "F = faults (\<lambda>v q. q) (nat (memsize a div pagesize a)) [] (map snd ls)"
  shows "\<exists>t s. pfsim env True fs os = Some (Inr (t, s)) \<and> log s = [] \<and> unat (tmr (stats s)) = length ls
    \<and> unat (tpi (stats s)) = F \<and> unat t = 2000001 * F + length ls \<and> unat (trp (stats s)) = length ls + F"
proof -
  have "pids_ok ls" using assms(7-9) by (auto simp: pids_ok_def)
  with assms(1-6) show ?thesis using assms(7,10) by (rule fifo_numbers.pfsim_single)
qed

lemma single_process_fifo_witness:
  "\<exists>t s. pfsim (demo_env fifo_ops) True lone_files [OptFile ''t''] = Some (Inr (t, s)) \<and> unat (tpi (stats s)) = 2
     \<and> unat t = 4000005"
proof -
  let ?ls = "[(1, 5), (1, 7), (1, 5)] :: (ul64 \<times> ul64) list"
  have F: "2 = faults (\<lambda>v q. q) (nat (memsize demo_args div pagesize demo_args)) [] (map snd ?ls)"
    by (simp add: demo_args_sel queue_reference_def)
  show ?thesis
    using single_process_fifo [where fs = lone_files and ls = ?ls and i = 1, OF demo_env_ok demo_args _ demo_args_sel(2) _ _ _ _ _ F]
    by (auto simp: demo_args_sel lone_files_def simp del: trace_text_simps)
qed

text \<open>
  C12: More memory never costs LRU a fault or time, on any trace of fewer than a million lines of a single pid: with at
  least as many frames, the program reports at most as many faults and ends at most as late.
\<close>

theorem lru_more_memory:
  assumes "env_ok lru_ops env" "parseArgs os = Inr a" "(memsize a div pagesize a) mod 32 = 0"
    and "filename a = Some name" "fs name = Some (trace_text ls)" "length ls < 1000000"
    and "\<forall>l \<in> set ls. fst l = i" "i \<noteq> 0" "unat i < 2 ^ 32"
    and "parseArgs os' = Inr b" "(memsize b div pagesize b) mod 32 = 0" "filename b = Some name"
    and "memsize a div pagesize a \<le> memsize b div pagesize b"
  shows "\<exists>t s u r. pfsim env True fs os = Some (Inr (t, s)) \<and> pfsim env True fs os' = Some (Inr (u, r))
    \<and> unat (tpi (stats r)) \<le> unat (tpi (stats s)) \<and> unat u \<le> unat t"
proof -
  have pids: "pids_ok ls" using assms(7-9) by (auto simp: pids_ok_def)
  let ?F = "\<lambda>n. faults (\<lambda>v q. remove1 v q @ [v]) (nat n) [] (map snd ls)"
  obtain t s where "pfsim env True fs os = Some (Inr (t, s))" "unat (tpi (stats s)) = ?F (memsize a div pagesize a)"
    "unat t = 2000001 * ?F (memsize a div pagesize a) + length ls"
    using lru_numbers.pfsim_single [where fs = fs and name = name, OF assms(1-6) pids assms(7) refl] by blast
  moreover obtain u r where "pfsim env True fs os' = Some (Inr (u, r))" "unat (tpi (stats r)) = ?F (memsize b div pagesize b)"
    "unat u = 2000001 * ?F (memsize b div pagesize b) + length ls"
    using lru_numbers.pfsim_single [where fs = fs and name = name, OF assms(1,10-12,5,6) pids assms(7) refl] by blast
  moreover have "?F (memsize b div pagesize b) \<le> ?F (memsize a div pagesize a)"
    using pages_bounds [OF assms(2)] assms(13) by (intro lru_faults_mono) simp_all
  ultimately show ?thesis by (intro exI [of _ t] exI [of _ s] exI [of _ u] exI [of _ r]) simp
qed

lemma lru_more_memory_witness:
  "\<exists>t s u r. pfsim (demo_env lru_ops) True lone_files [OptFile ''t''] = Some (Inr (t, s))
     \<and> pfsim (demo_env lru_ops) True lone_files [OptP ''2048'', OptFile ''t''] = Some (Inr (u, r)) \<and> unat u \<le> unat t"
proof -
  let ?b = "\<lparr>memsize = 1048576, pagesize = 2048, filename = Some ''t''\<rparr>"
  have "strtol ''2048'' = (2048, False)" by (simp add: strtol_def scan_sign_def isspace_def isdigit_def dec_val_def)
  then have b: "parseArgs [OptP ''2048'', OptFile ''t''] = Inr ?b"
    by (simp add: parseArgs_def check_pagesize_def check_memsize_def c_int_def to_int_def)
  show ?thesis
    using lru_more_memory [where fs = lone_files and ls = "[(1, 5), (1, 7), (1, 5)]" and i = 1,
        OF demo_env_ok demo_args _ demo_args_sel(2) _ _ _ _ _ b]
    by (auto simp: demo_args_sel lone_files_def simp del: trace_text_simps)
qed

end
