(* ===== verification/OutputProps.thy ===== *)
theory OutputProps
  imports Output LoneProps
begin

text \<open>
  What the printed numbers mean: how far the printed quotients are from the quotients of the counters,
  what the program prints for a trace of a single pid and for an empty one, and that the queues
  of the simulation can be printed.
\<close>

section \<open>Quotients\<close>

lemma value_ratio:
  "real (scale m (e - d)) / real (scale n (d - e)) = value_of m e / value_of n d"
  using scale_ratio [of m "d - e" n] by (simp add: value_of_def power_int_diff field_simps)

text \<open>
  \<open>r\<close> is \<open>x\<close> after \<open>k\<close> roundings to 24 bits, of which some may be in a divisor.
\<close>

definition rounded :: "nat \<Rightarrow> real \<Rightarrow> real \<Rightarrow> bool" where
  "rounded k r x \<longleftrightarrow> 0 \<le> x \<and> x * (1 - 1 / 2 ^ 24) ^ k \<le> r \<and> r * (1 - 1 / 2 ^ 24) ^ k \<le> x"

lemma rounded_pos: "rounded k r x \<Longrightarrow> 0 < x \<Longrightarrow> 0 < r"
  unfolding rounded_def by (rule less_le_trans [of _ "x * (1 - 1 / 2 ^ 24) ^ k"]) simp_all

lemma rounded_zero: "rounded k 0 x \<longleftrightarrow> x = 0"
proof
  assume "rounded k 0 x"
  then show "x = 0" using rounded_pos [of k 0 x] unfolding rounded_def by (metis less_irrefl order.not_eq_order_implies_strict)
qed (simp add: rounded_def)

lemma rounded_round:
  assumes "rounded k y x" "\<bar>r - y\<bar> \<le> y / 2 ^ 24"
  shows "rounded (Suc k) r x"
proof -
  let ?v = "1 - 1 / 2 ^ 24 :: real"
  have y: "0 \<le> y" using assms(2) by (metis abs_ge_zero order_trans zero_le_divide_iff zero_le_power zero_le_numeral
      divide_le_0_iff not_le power_not_zero zero_neq_numeral order.antisym)
  have r: "y * ?v \<le> r" "r * ?v \<le> y"
    using assms(2) y unfolding abs_le_iff by (simp_all add: field_simps)
  have "x * ?v ^ Suc k \<le> y * ?v" using assms(1) by (simp add: rounded_def mult.commute mult.left_commute)
  moreover have "r * ?v ^ Suc k \<le> y * ?v ^ k" using r(2) by (simp add: mult.assoc [symmetric])
  ultimately show ?thesis using assms(1) r(1) unfolding rounded_def by (meson order_trans)
qed

lemma rounded_divide:
  assumes "rounded a m x" "rounded b n t" "0 < t"
  shows "rounded (a + b) (m / n) (x / t)"
proof -
  let ?v = "1 - 1 / 2 ^ 24 :: real"
  have n: "0 < n" using assms(2,3) by (rule rounded_pos)
  have x: "0 \<le> x" "x * ?v ^ a \<le> m" "m * ?v ^ a \<le> x" and t: "t * ?v ^ b \<le> n" "n * ?v ^ b \<le> t"
    using assms(1,2) by (simp_all only: rounded_def)
  have m: "0 \<le> m" using order_trans [OF _ x(2), of 0] x(1) by simp
  have "(x * ?v ^ a) * (n * ?v ^ b) \<le> m * t" "(m * ?v ^ a) * (t * ?v ^ b) \<le> x * n"
    using x t m n assms(3) by (intro mult_mono; simp)+
  then have "x * ?v ^ (a + b) * n \<le> m * t" "m * ?v ^ (a + b) * t \<le> x * n"
    by (simp_all only: power_add mult.commute mult.left_commute mult.assoc)
  moreover have "w \<le> m * t \<Longrightarrow> w / t / n \<le> m / n" "w \<le> x * n \<Longrightarrow> w / n / t \<le> x / t" for w
    using n assms(3) by (simp_all add: divide_right_mono divide_le_eq)
  ultimately have "x * ?v ^ (a + b) * n / t / n \<le> m / n" "m * ?v ^ (a + b) * t / n / t \<le> x / t" by blast+
  then have "x / t * ?v ^ (a + b) \<le> m / n" "m / n * ?v ^ (a + b) \<le> x / t"
    using n assms(3) by simp_all
  then show ?thesis using x(1) assms(3) by (simp add: rounded_def)
qed

lemma rounded_error:
  assumes "rounded k r x" "1 \<le> (1 - 1 / 2 ^ 24) ^ k * (1 + c)" "1 - c \<le> (1 - 1 / 2 ^ 24) ^ k"
  shows "\<bar>r - x\<bar> \<le> x * c"
proof -
  let ?v = "(1 - 1 / 2 ^ 24) ^ k :: real"
  have v: "0 < ?v" by simp
  have x: "0 \<le> x" "x * ?v \<le> r" "r * ?v \<le> x" using assms(1) by (simp_all only: rounded_def)
  have "x * (1 - c) \<le> r" using mult_left_mono [OF assms(3) x(1)] x(2) by linarith
  moreover have "r * ?v \<le> x * (1 + c) * ?v"
    using mult_left_mono [OF assms(2) x(1)] x(3) by (simp only: mult.commute mult.left_commute mult_1_right)
  then have "r \<le> x * (1 + c)" using v by (simp only: mult_le_cancel_right)
  ultimately show ?thesis by (simp add: abs_le_iff algebra_simps)
qed

definition approximates :: "nat \<Rightarrow> cfloat \<Rightarrow> real \<Rightarrow> bool" where
  "approximates k f x \<longleftrightarrow> (\<exists>m e. f = Fin m e \<and> rounded k (value_of m e) x)"

lemma value_of_zero: "value_of m e = 0 \<longleftrightarrow> m = 0"
  by (simp add: value_of_def)

lemma approximates_nat: "approximates 1 (float_ratio n 1) (real n)"
proof (cases "n = 0")
  case False
  then obtain m e where m: "float_ratio n 1 = Fin m e" "\<bar>value_of m e - real n / real 1\<bar> \<le> real n / real 1 / 2 ^ 24"
    using float_ratio_error [of n 1] by auto
  have "rounded 0 (real n) (real n)" by (simp add: rounded_def)
  from rounded_round [OF this, of "value_of m e"] m show ?thesis by (simp add: approximates_def)
qed (simp add: approximates_def float_ratio_def value_of_def rounded_def)

lemma approximates_ulong: "approximates 1 (float_of_ulong x) (real (unat x))"
  unfolding float_of_ulong_def by (rule approximates_nat)

lemma approximates_div:
  assumes "approximates a f x" "approximates b g t" "0 < t"
  shows "approximates (Suc (a + b)) (float_div f g) (x / t)"
proof -
  obtain m e n d where f: "f = Fin m e" "rounded a (value_of m e) x" and g: "g = Fin n d" "rounded b (value_of n d) t"
    using assms(1,2) by (auto simp: approximates_def)
  have n: "n \<noteq> 0" using rounded_pos [OF g(2) assms(3)] value_of_zero [of n d] by auto
  note q = rounded_divide [OF f(2) g(2) assms(3)]
  show ?thesis
  proof (cases "m = 0")
    case True
    then have "x = 0" using f(2) rounded_zero [of a x] by (simp add: value_of_def)
    with True f(1) g(1) n show ?thesis
      by (simp add: approximates_def float_ratio_def scale_def value_of_def rounded_def)
  next
    case False
    then obtain k i where r: "float_ratio (scale m (e - d)) (scale n (d - e)) = Fin k i"
      "\<bar>value_of k i - value_of m e / value_of n d\<bar> \<le> value_of m e / value_of n d / 2 ^ 24"
      using float_ratio_error [OF scale_pos scale_pos] n unfolding value_ratio [symmetric] by blast
    from rounded_round [OF q r(2)] r(1) f(1) g(1) n show ?thesis by (simp add: approximates_def)
  qed
qed

lemma millionths_error: "\<bar>real (millionths m e) / 10 ^ 6 - value_of m e\<bar> \<le> 1 / (2 * 10 ^ 6)"
proof -
  have "0 < scale 1 (- e)" by (rule scale_pos) simp
  then have "\<bar>real (millionths m e) - real (scale (m * 10 ^ 6) e) / real (scale 1 (- e))\<bar> \<le> 1 / 2"
    unfolding millionths_def by (rule round_even_error)
  moreover have "real (scale (m * 10 ^ 6) e) / real (scale 1 (- e)) = value_of m e * 10 ^ 6"
    using scale_ratio [of "m * 10 ^ 6" "- e" 1] by (simp add: value_of_def power_int_minus field_simps)
  ultimately have "\<bar>real (millionths m e) - value_of m e * 10 ^ 6\<bar> \<le> 1 / 2" by (simp only:)
  then show ?thesis by (simp add: abs_le_iff field_simps)
qed

text \<open>The decimal number of \<open>N\<close> millionths, and its distance from a number that a \<open>float\<close> stands for.\<close>

definition decimal :: "nat \<Rightarrow> string" where
  "decimal N = show_nat (N div 10 ^ 6) @ ''.'' @ pad_left (CHR ''0'') 6 (show_nat (N mod 10 ^ 6))"

lemma show_f_decimal:
  assumes "approximates k f x" "1 \<le> (1 - 1 / 2 ^ 24) ^ k * (1 + c)" "1 - c \<le> (1 - 1 / 2 ^ 24) ^ k"
  obtains N where "show_f nan f = decimal N" "\<bar>real N / 10 ^ 6 - x\<bar> \<le> 1 / (2 * 10 ^ 6) + x * c"
proof -
  obtain m e where f: "f = Fin m e" "rounded k (value_of m e) x" using assms(1) by (auto simp: approximates_def)
  have "\<bar>real (millionths m e) / 10 ^ 6 - x\<bar> \<le> \<bar>real (millionths m e) / 10 ^ 6 - value_of m e\<bar> + \<bar>value_of m e - x\<bar>"
    using abs_triangle_ineq [of "real (millionths m e) / 10 ^ 6 - value_of m e" "value_of m e - x"] by simp
  then have "\<bar>real (millionths m e) / 10 ^ 6 - x\<bar> \<le> 1 / (2 * 10 ^ 6) + x * c"
    using millionths_error [of m e] rounded_error [OF f(2) assms(2,3)] by linarith
  then show thesis using f(1) by (intro that [of "millionths m e"]) (simp_all add: decimal_def)
qed

text \<open>
  C21: What \<open>Stat_printStats\<close> reports, for a positive end time and a positive number of frames: on the line for the
  average memory utilisation a decimal number within half a millionth and a relative error of \<open>2 ^ -21\<close> of \<open>tmu\<close> over
  the time and the number of frames; on the line for the average runnable processes one within half a
  millionth and \<open>2 ^ -22\<close> of \<open>trp\<close> over the time; then exactly the references, the faults and the time.
\<close>

theorem report_accurate:
  assumes "0 < t" "0 < Memory_getTotalSize s"
  shows "\<exists>A N. Stat_printStats nan t s st = titled '' PERFORMANCE ''
      @ stat_line ''91'' ''AMU:  '' (decimal A) @ stat_line ''33'' ''ARP:  '' (decimal N)
      @ stat_line ''92'' ''TMR:  '' (show_lu (tmr st)) @ stat_line ''96'' ''TPI:  '' (show_lu (tpi st))
      @ stat_line ''95'' ''RTime:'' (show_lu t)
    \<and> \<bar>real A / 10 ^ 6 - real (unat (tmu st)) / real (unat t) / real_of_int (Memory_getTotalSize s)\<bar>
        \<le> 1 / (2 * 10 ^ 6) + real (unat (tmu st)) / real (unat t) / real_of_int (Memory_getTotalSize s) * (1 / 2 ^ 21)
    \<and> \<bar>real N / 10 ^ 6 - real (unat (trp st)) / real (unat t)\<bar>
        \<le> 1 / (2 * 10 ^ 6) + real (unat (trp st)) / real (unat t) * (1 / 2 ^ 22)"
proof -
  have t: "0 < real (unat t)" using assms(1) by (simp only: of_nat_0_less_iff unat_gt_0 word_gt_0)
  have size: "0 < real_of_int (Memory_getTotalSize s)" "real (nat (Memory_getTotalSize s)) = real_of_int (Memory_getTotalSize s)"
    using assms(2) by simp_all
  note quotient = approximates_div [OF approximates_ulong approximates_ulong t]
  note amu = approximates_div [OF quotient approximates_nat [of "nat (Memory_getTotalSize s)", unfolded size(2)] size(1)]
  obtain N where N: "show_f nan (float_div (float_of_ulong (trp st)) (float_of_ulong t)) = decimal N"
    "\<bar>real N / 10 ^ 6 - real (unat (trp st)) / real (unat t)\<bar>
        \<le> 1 / (2 * 10 ^ 6) + real (unat (trp st)) / real (unat t) * (1 / 2 ^ 22)"
    using quotient [of "trp st"] by (rule show_f_decimal [where c = "1 / 2 ^ 22"]) simp_all
  obtain A where A: "show_f nan (float_div (float_div (float_of_ulong (tmu st)) (float_of_ulong t))
      (float_ratio (nat (Memory_getTotalSize s)) 1)) = decimal A"
    "\<bar>real A / 10 ^ 6 - real (unat (tmu st)) / real (unat t) / real_of_int (Memory_getTotalSize s)\<bar>
        \<le> 1 / (2 * 10 ^ 6) + real (unat (tmu st)) / real (unat t) / real_of_int (Memory_getTotalSize s) * (1 / 2 ^ 21)"
    using amu [of "tmu st"] by (rule show_f_decimal [where c = "1 / 2 ^ 21"]) simp_all
  show ?thesis
    by (rule exI [of _ A], rule exI [of _ N], intro conjI A(2) N(2)) (simp only: Stat_printStats_def Let_def A(1) N(1))
qed

lemma report_accurate_witness:
  "\<exists>A N. Stat_printStats ''-nan'' 3 (initialised 32 (boot_memory True)) \<lparr>tmu = 48, trp = 1, tmr = 1, tpi = 1\<rparr>
      = titled '' PERFORMANCE '' @ stat_line ''91'' ''AMU:  '' (decimal A) @ stat_line ''33'' ''ARP:  '' (decimal N)
        @ stat_line ''92'' ''TMR:  '' (show_lu 1) @ stat_line ''96'' ''TPI:  '' (show_lu 1) @ stat_line ''95'' ''RTime:'' (show_lu 3)
    \<and> \<bar>real A / 10 ^ 6 - 1 / 2\<bar> \<le> 1 / 10 ^ 6 \<and> \<bar>real N / 10 ^ 6 - 1 / 3\<bar> \<le> 1 / 10 ^ 6"
proof -
  have size: "Memory_getTotalSize (initialised 32 (boot_memory True)) = 32"
    by (simp add: Memory_getTotalSize_def initialised_def)
  obtain A N where "Stat_printStats ''-nan'' 3 (initialised 32 (boot_memory True)) \<lparr>tmu = 48, trp = 1, tmr = 1, tpi = 1\<rparr>
      = titled '' PERFORMANCE '' @ stat_line ''91'' ''AMU:  '' (decimal A) @ stat_line ''33'' ''ARP:  '' (decimal N)
        @ stat_line ''92'' ''TMR:  '' (show_lu 1) @ stat_line ''96'' ''TPI:  '' (show_lu 1) @ stat_line ''95'' ''RTime:'' (show_lu 3)"
    "\<bar>real A / 10 ^ 6 - 1 / 2\<bar> \<le> 1 / (2 * 10 ^ 6) + 1 / 2 * (1 / 2 ^ 21)"
    "\<bar>real N / 10 ^ 6 - 1 / 3\<bar> \<le> 1 / (2 * 10 ^ 6) + 1 / 3 * (1 / 2 ^ 22)"
    using report_accurate [of 3 "initialised 32 (boot_memory True)" "''-nan''" "\<lparr>tmu = 48, trp = 1, tmr = 1, tpi = 1\<rparr>"]
    by (auto simp: size)
  moreover have "1 / (2 * 10 ^ 6) + 1 / 2 * (1 / 2 ^ 21) \<le> (1 / 10 ^ 6 :: real)"
    "1 / (2 * 10 ^ 6) + 1 / 3 * (1 / 2 ^ 22) \<le> (1 / 10 ^ 6 :: real)" by simp_all
  ultimately show ?thesis by (meson order_trans)
qed

section \<open>The report of the program\<close>

lemma parse_stdout_ok: "parse_opts os a = Inr b \<Longrightarrow> parse_stdout prog os = []"
  by (induction os a rule: parse_opts.induct) (auto simp: Let_def split: prod.splits if_splits)

lemma parseArgs_stdout: "parseArgs os = Inr a \<Longrightarrow> parse_stdout prog os = []"
  by (auto simp: parseArgs_def bnd_eq_Inr intro: parse_stdout_ok)

lemma main_stdout_ok:
  assumes "parseArgs os = Inr a" "filename a = Some name" "fs name = Some cs" "pfsim env z fs os = Some (Inr (t, s))"
  shows "main_stdout env z nan prog fs os = Some (parameters_text name a @ Stat_printStats nan t (ms s) (stats s), Inr ())"
  using assms parseArgs_stdout [OF assms(1)] by (simp add: main_stdout_def opened_def)

lemma show_lu_of_nat: "n < 2 ^ 64 \<Longrightarrow> show_lu (of_nat n) = show_nat n"
  by (simp add: show_lu_def unat_of_nat_64)

text \<open>
  C20: The report for a trace of fewer than a million lines of a single pid with LRU, byte for byte up to the memory utilisation: the parameters, the
  quotient of the runnable time, the lines, the faults of the \<open>n\<close> most recently used pages, and the time.
\<close>

theorem single_process_report:
  assumes "env_ok lru_ops env" "parseArgs os = Inr a" "(memsize a div pagesize a) mod 32 = 0"
    and "filename a = Some name" "fs name = Some (trace_text ls)" "length ls < 1000000"
    and "\<forall>l \<in> set ls. fst l = i" "i \<noteq> 0" "unat i < 2 ^ 32"
    and "F = card {k. k < length ls \<and> snd (ls ! k) \<notin> set (last_used (nat (memsize a div pagesize a)) (take k (map snd ls)))}"
  shows "\<exists>amu. main_stdout env True nan prog fs os = Some (parameters_text name a @ titled '' PERFORMANCE ''
      @ stat_line ''91'' ''AMU:  '' amu
      @ stat_line ''33'' ''ARP:  '' (show_f nan (float_div (float_of_ulong (of_nat (length ls + F)))
          (float_of_ulong (of_nat (2000001 * F + length ls)))))
      @ stat_line ''92'' ''TMR:  '' (show_nat (length ls)) @ stat_line ''96'' ''TPI:  '' (show_nat F)
      @ stat_line ''95'' ''RTime:'' (show_nat (2000001 * F + length ls)), Inr ())"
proof -
  have pids: "pids_ok ls" using assms(7-9) by (auto simp: pids_ok_def)
  have n: "0 < nat (memsize a div pagesize a)" using pages_bounds [OF assms(2)] by simp
  have F: "F = faults (\<lambda>v q. remove1 v q @ [v]) (nat (memsize a div pagesize a)) [] (map snd ls)"
    unfolding assms(10) by (rule lru_faults_lines [OF n])
  then have "F \<le> length ls" using faults_le [of _ _ "[]" "map snd ls"] by simp
  with assms(6) have small: "length ls < 2 ^ 64" "F < 2 ^ 64" "2000001 * F + length ls < 2 ^ 64" by simp_all
  obtain t s where r: "pfsim env True fs os = Some (Inr (t, s))" "unat (tmr (stats s)) = length ls" "unat (tpi (stats s)) = F"
    "unat t = 2000001 * F + length ls" "unat (trp (stats s)) = length ls + F"
    using lru_numbers.pfsim_single [where fs = fs and name = name, OF assms(1-6) pids assms(7) F] by blast
  have word: "unat x = k \<Longrightarrow> x = of_nat k" for x :: ul64 and k by auto
  note word [OF r(4)] word [OF r(5)]
  with r(2-4) show ?thesis
    using main_stdout_ok [where fs = fs, OF assms(2,4,5) r(1)]
    by (intro exI [of _ "show_f nan (float_div (float_div (float_of_ulong (tmu (stats s))) (float_of_ulong t))
        (float_ratio (nat (Memory_getTotalSize (ms s))) 1))"]) (simp add: Stat_printStats_def Let_def show_lu_def)
qed

lemma single_process_report_witness:
  "\<exists>amu arp. main_stdout (demo_env lru_ops) True ''-nan'' ''pfsim-lru'' lone_files [OptFile ''t''] = Some (parameters_text ''t'' demo_args
     @ titled '' PERFORMANCE '' @ stat_line ''91'' ''AMU:  '' amu @ stat_line ''33'' ''ARP:  '' arp
     @ stat_line ''92'' ''TMR:  '' (show_nat 3) @ stat_line ''96'' ''TPI:  '' (show_nat 2)
     @ stat_line ''95'' ''RTime:'' (show_nat 4000005), Inr ())"
proof -
  let ?ls = "[(1, 5), (1, 7), (1, 5)] :: (ul64 \<times> ul64) list"
  have "0 < nat (memsize demo_args div pagesize demo_args)" by (simp add: demo_args_sel)
  from lru_faults_lines [OF this, of ?ls]
  have F: "2 = card {k. k < length ?ls \<and> snd (?ls ! k)
      \<notin> set (last_used (nat (memsize demo_args div pagesize demo_args)) (take k (map snd ?ls)))}"
    by (simp only:) (simp add: demo_args_sel queue_reference_def)
  have "lone_files ''t'' = Some (trace_text ?ls)" by (simp add: lone_files_def del: trace_text_simps)
  then show ?thesis
    using single_process_report [where fs = lone_files and ls = ?ls and i = 1 and nan = "''-nan''" and prog = "''pfsim-lru''",
        OF demo_env_ok demo_args _ demo_args_sel(2) _ _ _ _ _ F]
    by (fastforce simp: demo_args_sel numeral_3_eq_3 simp del: trace_text_simps)
qed

text \<open>
  C35: An empty trace makes the program divide by zero: the time is 0, both quotients of the report are
  not numbers, and that is what it prints, with success.
\<close>

theorem empty_trace_not_a_number:
  assumes "env_ok lru_ops env" "parseArgs os = Inr a" "(memsize a div pagesize a) mod 32 = 0"
    and "filename a = Some name" "fs name = Some []"
  shows "main_stdout env True nan prog fs os = Some (parameters_text name a @ titled '' PERFORMANCE ''
      @ stat_line ''91'' ''AMU:  '' nan @ stat_line ''33'' ''ARP:  '' nan @ stat_line ''92'' ''TMR:  '' ''0''
      @ stat_line ''96'' ''TPI:  '' ''0'' @ stat_line ''95'' ''RTime:'' ''0'', Inr ())"
proof -
  obtain s where s: "pfsim env True fs os = Some (Inr (0, s))" "stats s = Stat_init"
    using lru.pfsim_empty [where fs = fs, OF assms] by blast
  have zero: "float_of_ulong 0 = Fin 0 0" "show_lu 0 = ''0''"
    by (simp add: float_of_ulong_def float_ratio_def) (simp add: show_lu_def show_nat_digit digit_def char_of_def bit_0)
  show ?thesis
    unfolding main_stdout_ok [where fs = fs, OF assms(2,4,5) s(1)] s(2)
    by (simp add: Stat_printStats_def Stat_init_def zero)
qed

lemma empty_trace_not_a_number_witness:
  "\<exists>head tail. main_stdout (demo_env lru_ops) True ''-nan'' ''pfsim-lru'' [''t'' \<mapsto> []] [OptFile ''t'']
     = Some (head @ stat_line ''33'' ''ARP:  '' ''-nan'' @ tail, Inr ())"
proof -
  note empty_trace_not_a_number [where fs = "[''t'' \<mapsto> []]" and nan = "''-nan''" and prog = "''pfsim-lru''",
      OF demo_env_ok demo_args _ demo_args_sel(2)]
  then have "main_stdout (demo_env lru_ops) True ''-nan'' ''pfsim-lru'' [''t'' \<mapsto> []] [OptFile ''t'']
      = Some ((parameters_text ''t'' demo_args @ titled '' PERFORMANCE '' @ stat_line ''91'' ''AMU:  '' ''-nan'')
          @ stat_line ''33'' ''ARP:  '' ''-nan'' @ (stat_line ''92'' ''TMR:  '' ''0''
          @ stat_line ''96'' ''TPI:  '' ''0'' @ stat_line ''95'' ''RTime:'' ''0''), Inr ())"
    by (simp add: demo_args_sel)
  then show ?thesis by blast
qed

section \<open>Queues\<close>

text \<open>A queue of live processes whose positions are known is printed, one line for each process.\<close>

lemma it_print_text_ok: "\<forall>c \<in> set ns. fst (snd c) \<noteq> Indet \<Longrightarrow> \<exists>text. it_print_text ns = Inr text"
proof (induction ns rule: it_print_text.induct)
  case (2 l f h ns)
  then show ?case by (cases f) auto
qed simp

lemma print_from_ok:
  assumes "\<forall>p \<in> set q. \<exists>pp. h p = Some pp \<and> (\<forall>c \<in> set (it_print (lineIntervals pp)). fst (snd c) \<noteq> Indet)"
  shows "\<exists>ts. length ts = length q \<and> print_from ptr h i q = Inr (concat (map (\<lambda>t. t @ [CHR 10]) ts))"
  using assms
proof (induction q arbitrary: i)
  case (Cons p q)
  then obtain pp nodes where "h p = Some pp" "it_print_text (it_print (lineIntervals pp)) = Inr nodes"
    using it_print_text_ok by fastforce
  moreover obtain ts where "length ts = length q" "print_from ptr h (Suc i) q = Inr (concat (map (\<lambda>t. t @ [CHR 10]) ts))"
    using Cons by fastforce
  ultimately show ?case by (intro exI [of _ "(process_line ptr i p pp @ nodes) # ts"]) simp
qed simp

lemma printQueue_ok:
  assumes "\<forall>p \<in> set (pq s q). \<exists>pp. procs s p = Some pp \<and> (\<forall>c \<in> set (it_print (lineIntervals pp)). fst (snd c) \<noteq> Indet)"
  shows "\<exists>text. ProcessQueue_printQueue ptr q s = Inr text"
  using print_from_ok [OF assms, of ptr 0] by (auto simp: ProcessQueue_printQueue_def Let_def)

end
