(* ===== verification/Spec2Isabelle.thy ===== *)
theory Spec2Isabelle
  imports OutputProps
begin

text \<open>
  A verification of \<open>pfsim\<close>, a simulator of demand paging (src/, C): it reads a trace of memory
  references, each a process id and a virtual page number, and simulates processes that share
  physical memory under one of four replacement modules.

  \<^bold>\<open>The program and its parts.\<close>
  \<open>main.c\<close> parses the arguments, initialises the modules, runs \<open>first_pass\<close> over the trace
  (\<open>trace_parser.c\<close>), which creates a process per pid with an interval tree of its lines
  (\<open>intervaltree.c\<close>), and then \<open>Simulator_runSimulation\<close> (\<open>simulator.c\<close>). The simulator runs the
  lines of the process at the head of the run queue (\<open>process.c\<close>); a line whose page is not in
  memory blocks its process for the time of a disk access, after which the page is moved into a
  frame (\<open>memory.c\<close>) that the linked replacement module (\<open>replace-*.c\<close>, interface \<open>replace.h\<close>)
  gives up if memory is full; \<open>stat.c\<close> counts.

  \<^bold>\<open>The model.\<close>
  An operation of C is a function from the state to \<open>fault + result\<close>: a failed assertion, an
  \<open>exit\<close>, and every access or computation without defined behaviour (null or freed pointers,
  accesses out of bounds, indeterminate memory, overflow of \<open>int\<close>) is a fault. \<open>unsigned long\<close> is
  \<open>64 word\<close>, the free list is made of \<open>32 word\<close>s. Pointers are addresses of heaps (\<open>vheap\<close> for
  pages, \<open>procs\<close> for processes, \<open>items\<close> for the overheads), so that they alias as in C; a queue
  of \<open>sys/queue.h\<close> is the list of its elements. It is the debug build that is modelled: every
  assertion is a possible fault, and the call in the assertion of \<open>simulator.c\<close> line 206 is run. (The default
  build, with \<open>NDEBUG\<close>, does not run it; so there one query less is allocated, and leaked, for each page that a
  process creates, and the counts of leaked pages below are those of the debug build.)

  \<^item> Prelude: faults, indeterminate values, checked accesses.
  \<^item> IntervalTree: \<open>intervaltree.c\<close>; insertion refines sorted insertion into a list, the lookups
    are exact.
  \<^item> FreeList, Memory, MemoryInv: \<open>memory.c\<close>; the bit vector as the set of taken frames; the frame
    table refines a partial map from frames to pages (locale \<open>frame_table\<close>).
  \<^item> Replace: \<open>replace.h\<close>, \<open>VPage_init\<close>, \<open>VPage_free\<close> and the page-in of the disk handler.
  \<^item> ReplacePolicy: the contract of a replacement module (locale \<open>replacement_module\<close>) and the
    pager proved correct under it; \<open>ordered_module\<close> extends it by an order of eviction, and
    \<open>numbered_module\<close> relates that order to a reference queue of page numbers and its \<open>faults\<close>.
  \<^item> ReplaceQueue, ReplaceFifo, ReplaceLru, ReplaceClock, ReplaceRandom: the four modules, each
    an interpretation of the contract.
  \<^item> PolicyProps: FIFO is a bounded queue, LRU keeps the most recently used pages, CLOCK gives
    second chances.
  \<^item> Stat, TraceFile: \<open>stat.c\<close>; \<open>fscanf\<close>, \<open>ftell\<close>, \<open>fseek\<close> on the bytes of the trace.
  \<^item> Process, Simulator: \<open>process.c\<close> and \<open>simulator.c\<close>, one definition per function; the body of
    the main loop is \<open>sim_step\<close>, split at its comments into \<open>tick\<close>, \<open>disk_done\<close>, \<open>skip_wait\<close>,
    \<open>run_head\<close>, \<open>run_line\<close>, \<open>find_page\<close>, \<open>hit_page\<close>, \<open>advance\<close> and \<open>miss_page\<close>; the loop is a
    partial function and, as a step relation, \<open>steps\<close>.
  \<^item> Busy: what a turn adds to the time in which a process was runnable.
  \<^item> MachineInv, Progress, SimulatorInv: the invariant of the machine and its preservation by
    every turn, under the contract; what each kind of turn does.
  \<^item> SimulatorEnds: the simulation ends. Every turn uses up a line or shortens a phase that ends
    with one, by a lexicographic measure; every turn is accounted for in lines, faults and time.
  \<^item> Leaks: every line that is run leaves two queries of the page table allocated; every other page is in
    the table of a process.
  \<^item> TraceParser, ParserInv: \<open>trace_parser.c\<close>; it ends, and establishes the invariant, or with the error that the
    lines of the file decide (\<open>trace_check\<close>).
  \<^item> TraceGroups, TraceRuns: the reference grouping of a list of lines (\<open>runs\<close>, \<open>intervals\<close>,
    \<open>firsts\<close>), and that on a well-formed trace the first pass computes it.
  \<^item> ParserHeap: the first pass with the entries of its pid map as blocks of the heap, a refinement of
    the pass of TraceParser.
  \<^item> OnTrack: on a short trace the file always stands at a line of the process that reads.
  \<^item> LoneProcess: on a trace of a single pid every turn follows the reference queue of the module.
  \<^item> ColdFaults: on a short trace the pages that have ever been named and are not in memory are bounded by the
    faults; every page of a process faults at least once, and exactly once when all fit.
  \<^item> PfsimMain: \<open>main.c\<close>, and the whole program under the contract.
  \<^item> FinishedQueue: the runs where a write to freed memory is noticed agree with the others up to that write,
    and the second process to finish makes it.
  \<^item> PfsimProps, TraceProps, LoneProps: the properties of the whole program, of its turns and of
    its front, and of the program on one process.
  \<^item> Output, OutputProps: what is printed (\<open>Stat_printStats\<close>, \<open>ProcessQueue_printQueue\<close>, the usage
    text, the parameters), with the single-precision divisions of \<open>stat.c\<close> as exact roundings.

  \<^bold>\<open>What is shown.\<close>
  For every accepted command line that gives a multiple of 32 frames, every file shorter than
  \<open>2 ^ 64 - 2\<close> bytes with fewer than 2 million processes, and each replacement module, the
  program returns, and the lines of the file decide how. At the first line with pid 0 it exits; at the first line
  that begins with no number it reads a pid that was not assigned. Otherwise the simulation runs to its end: every line
  is counted once, the time follows from the faults, all processes and their pages have been
  released, and memory and module are consistent; what stays allocated in the heap of pages are the queries of the page
  tables, exactly two for each line and each fault. The one exception is a simulation that gets to a turn in
  which the process at the head of the run queue finds no pair of numbers where it reads (\<open>stuck\<close>, \<open>runs_out\<close>): it exits
  there. This can happen on a line that has no second number, or when the file was moved under a running process.
  When the lines are well formed and
  the trace has fewer than a million lines (and pids below \<open>2 ^ 32\<close>, which the pid map keeps apart),
  nothing can go wrong: every line is read by its own process and missed at most once, every page of a
  process is missed at least once, and exactly once when the pages all fit into memory, so that the four
  replacement modules then give the same faults. A million is
  half the ticks of a disk access: the lines and the processes together are then too few for a
  disk access to end while a process is runnable, which is when the file is moved under the
  running process.
  When moreover all lines have the same pid, the number of faults and the time are functions of the page
  numbers: with LRU a line faults exactly when its page is not among the most recently used ones
  that fit, with FIFO when it is not in the bounded queue; the time is 2000001 ns per fault and 1 ns
  per line. So more memory never makes LRU slower. The printed quotients have a proved error
  bound; the report of an empty trace consists of quotients that are not numbers.
  The first pass is shown to compute the grouping of the lines by pid, and every machine that the
  simulation reaches from such a start is well formed.

  \<^bold>\<open>What the theorems assume.\<close>
  No fuel is used: all loops but the main one are total functions. The bound of 2 million
  processes is the length of a disk access in ticks: with fewer processes, some process must hit
  between two disk accesses. The main theorems take an allocator that returns zeroed memory and
  does not notice a write to freed memory (the arguments \<open>z\<close> and \<open>freed_writable\<close>): the program
  reads two fields before it writes them and writes the link of a freed process, which separate
  theorems show: where such a write is noticed, every short trace with two pids ends with that fault. \<open>tdestroy\<close> visits every entry once, in an order that is a parameter; the sequence
  of \<open>rand\<close> is a parameter; \<open>malloc\<close> never fails.

  \<open>printf\<close> writes a quotient that is not a number as the parameter \<open>nan\<close> and a pointer as the parameter \<open>ptr\<close>;
  the base name of the program is the parameter \<open>prog\<close>.

  \<^bold>\<open>Not modelled.\<close>
  Every function body of src/ has its definition; what the definitions leave out of it is the following.
  The text written to the standard error stream (the messages of \<open>perror\<close> on paths that carry on are
  kept in a log; those before an exit are the argument of the fault). \<open>getopt\<close>: the options are the sequence of its
  results, and \<open>argv[0]\<close> exists. Failures of \<open>ftell\<close>: the trace is a regular file, of which positions are
  naturals, so that the error of \<open>safe_ftell\<close> cannot occur; nor is there a read error of the file (\<open>ferror\<close>,
  \<open>simulator.c\<close> line 90). The root cell of a page table (\<open>process.c\<close> line 105) and the nodes of the interval trees are
  values of the process and not blocks of a heap: the code never frees them, and no theorem says that it does. The
  number of the statuses is not a status of the model: for it \<open>ProcessQueue_printQueue\<close> reads behind \<open>pq\<close>. The balancing inside \<open>tsearch\<close>
  trees: a tree is the list of its entries. Infinite and subnormal \<open>float\<close>s cannot arise from counters below \<open>2 ^ 64\<close>.
\<close>

end
